(* ===== verification/Router_Prelude.thy ===== *)
theory Router_Prelude
  imports Main "HOL-Library.Word"
begin

text \<open>
  Shared vocabulary of the development: machine types, the values a C function may end with
  (a result or a fault), checked reads and writes of byte buffers, the byte order of the
  little-endian host the Makefile builds for, the two C string functions the router relies on,
  and the generic codec interface that every packed header struct instantiates.
\<close>

unbundle bit_operations_syntax

section \<open>Machine types and faults\<close>

type_synonym u8 = "8 word"
type_synonym u16 = "16 word"
type_synonym u32 = "32 word"
type_synonym bytes = "8 word list"

text \<open>
  The ways a run of the C code can leave the defined semantics. Each is a value of the model,
  so that a theorem that a handler returns normally says that none of them happens.
\<close>

datatype c_error =
    NullDeref        \<comment> \<open>a field of a null pointer is accessed\<close>
  | OutOfBounds      \<comment> \<open>an access outside the object a pointer points to\<close>
  | UseAfterFree     \<comment> \<open>an access to a block that was freed\<close>
  | WildPointer      \<comment> \<open>an integer used as an address that is not mapped\<close>
  | Diverges         \<comment> \<open>a loop that never ends\<close>
  | NoValue          \<comment> \<open>the value of a call that returned none is used\<close>
  | AssertFailed     \<comment> \<open>a failed assert aborts the process\<close>

type_synonym 'a res = "c_error + 'a"

definition rbind :: "'a res \<Rightarrow> ('a \<Rightarrow> 'b res) \<Rightarrow> 'b res" where
  "rbind m f = (case m of Inl e \<Rightarrow> Inl e | Inr x \<Rightarrow> f x)"

lemma rbind_Inr [simp]: "rbind (Inr x) f = f x"
  by (simp add: rbind_def)

lemma rbind_Inl [simp]: "rbind (Inl e) f = Inl e"
  by (simp add: rbind_def)

lemma rbind_eq_Inr: "rbind m f = Inr y \<longleftrightarrow> (\<exists>x. m = Inr x \<and> f x = Inr y)"
  by (cases m) auto

lemma rbind_eq_Inl: "rbind m f = Inl e \<longleftrightarrow> m = Inl e \<or> (\<exists>x. m = Inr x \<and> f x = Inl e)"
  by (cases m) auto

text \<open>Dereferencing a pointer that may be null.\<close>

definition deref :: "'a option \<Rightarrow> 'a res" where
  "deref p = (case p of None \<Rightarrow> Inl NullDeref | Some x \<Rightarrow> Inr x)"

lemma deref_simps [simp]: "deref None = Inl NullDeref" "deref (Some x) = Inr x"
  by (simp_all add: deref_def)

lemma deref_eq_Inr [simp]: "deref p = Inr x \<longleftrightarrow> p = Some x"
  by (cases p) auto

section \<open>Byte order of the host\<close>

text \<open>
  \<open>sr_protocol.h\<close> selects \<open>__LITTLE_ENDIAN\<close> on Linux. A 16- or 32-bit field of a packed struct
  is the little-endian word of its bytes; \<open>htons\<close> and \<open>htonl\<close> swap.
\<close>

definition le16 :: "u16 \<Rightarrow> bytes" where
  "le16 w = [ucast w, ucast (drop_bit 8 w)]"

definition of_le16 :: "u8 \<Rightarrow> u8 \<Rightarrow> u16" where
  "of_le16 a b = ucast a OR push_bit 8 (ucast b)"

definition le32 :: "u32 \<Rightarrow> bytes" where
  "le32 w = [ucast w, ucast (drop_bit 8 w), ucast (drop_bit 16 w), ucast (drop_bit 24 w)]"

definition of_le32 :: "u8 \<Rightarrow> u8 \<Rightarrow> u8 \<Rightarrow> u8 \<Rightarrow> u32" where
  "of_le32 a b c d = ucast a OR push_bit 8 (ucast b) OR push_bit 16 (ucast c) OR push_bit 24 (ucast d)"

definition htons :: "u16 \<Rightarrow> u16" where
  "htons w = push_bit 8 w OR drop_bit 8 w"

definition ntohs :: "u16 \<Rightarrow> u16" where
  "ntohs w = htons w"

definition htonl :: "u32 \<Rightarrow> u32" where
  "htonl w = of_le32 (ucast (drop_bit 24 w)) (ucast (drop_bit 16 w)) (ucast (drop_bit 8 w)) (ucast w)"

definition ntohl :: "u32 \<Rightarrow> u32" where
  "ntohl w = htonl w"

lemma length_le16 [simp]: "length (le16 w) = 2"
  by (simp add: le16_def)

lemma length_le32 [simp]: "length (le32 w) = 4"
  by (simp add: le32_def)

lemma bit_u8_high [simp]: "\<not> bit (a :: u8) (8 + n)"
  using bit_imp_le_length [of a "8 + n"] by auto

lemma bit_u8_high' [simp]: "8 \<le> n \<Longrightarrow> \<not> bit (a :: u8) n"
  using bit_imp_le_length [of a n] by auto

lemma bit_u8_D: "bit (a :: u8) n \<Longrightarrow> n < 8"
  by (rule bit_imp_le_length [of a n, simplified])

lemma le16_of_le16 [simp]: "le16 (of_le16 a b) = [a, b]"
  by (auto simp: le16_def of_le16_def intro!: bit_word_eqI) (auto simp: bit_simps)

lemma of_le16_le16 [simp]: "of_le16 (ucast w) (ucast (drop_bit 8 w)) = w"
  by (rule bit_word_eqI) (auto simp: of_le16_def bit_simps)

lemma le32_of_le32 [simp]: "le32 (of_le32 a b c d) = [a, b, c, d]"
  by (auto simp: le32_def of_le32_def intro!: bit_word_eqI) (auto simp: bit_simps)

lemma of_le32_le32 [simp]:
  "of_le32 (ucast w) (ucast (drop_bit 8 w)) (ucast (drop_bit 16 w)) (ucast (drop_bit 24 w)) = w"
proof (rule bit_word_eqI)
  fix n
  assume "n < LENGTH(32)"
  then show "bit (of_le32 (ucast w) (ucast (drop_bit 8 w)) (ucast (drop_bit 16 w))
      (ucast (drop_bit 24 w))) n \<longleftrightarrow> bit w n"
    by (cases "n < 8"; cases "n < 16"; cases "n < 24") (auto simp: of_le32_def bit_simps)
qed

lemma htonl_of_le32: "htonl (of_le32 a b c d) = of_le32 d c b a"
proof -
  have "le32 (of_le32 a b c d) = [a, b, c, d]" by (rule le32_of_le32)
  then show ?thesis unfolding le32_def by (simp add: htonl_def)
qed

lemma htonl_htonl [simp]: "htonl (htonl w) = w"
  unfolding htonl_def [of w] htonl_of_le32 by simp

lemma ntohl_htonl [simp]: "ntohl (htonl w) = w" "htonl (ntohl w) = w"
  by (simp_all add: ntohl_def)

lemma htons_htons [simp]: "htons (htons w) = w"
  by (rule bit_word_eqI) (auto simp: htons_def bit_simps)

lemma ntohs_htons [simp]: "ntohs (htons w) = w" "htons (ntohs w) = w"
  by (simp_all add: ntohs_def)

lemma htons_inject [simp]: "htons v = htons w \<longleftrightarrow> v = w"
  by (metis htons_htons)

section \<open>Words as numbers\<close>

lemma unat_u8_less: "unat (a :: u8) < 256"
proof -
  have "(unsigned a :: nat) < 2 ^ LENGTH(8)" by (rule unsigned_less)
  then show ?thesis by simp
qed

lemma unat_u16_less: "unat (a :: u16) < 65536"
proof -
  have "(unsigned a :: nat) < 2 ^ LENGTH(16)" by (rule unsigned_less)
  then show ?thesis by simp
qed

lemma unat_u32_less: "unat (a :: u32) < 4294967296"
proof -
  have "(unsigned a :: nat) < 2 ^ LENGTH(32)" by (rule unsigned_less)
  then show ?thesis by simp
qed

lemma unat_u8_le: "unat (a :: u8) \<le> 255"
  using unat_u8_less [of a] by linarith

lemma unat_u16_le: "unat (a :: u16) \<le> 65535"
  using unat_u16_less [of a] by linarith

lemma unat_ucast_u8_u16 [simp]: "unat (ucast (a :: u8) :: u16) = unat a"
  using unat_u8_less [of a] by (simp add: unsigned_ucast_eq take_bit_eq_mod)

lemma unat_ucast_u8_u32 [simp]: "unat (ucast (a :: u8) :: u32) = unat a"
  using unat_u8_less [of a] by (simp add: unsigned_ucast_eq take_bit_eq_mod)

lemma unat_ucast_u16_u32 [simp]: "unat (ucast (a :: u16) :: u32) = unat a"
  using unat_u16_less [of a] by (simp add: unsigned_ucast_eq take_bit_eq_mod)

lemma unat_be_word32 [simp]:
  "unat (push_bit 8 (ucast (a :: u8)) OR ucast (b :: u8) :: u32) = 256 * unat a + unat b"
proof -
  have eq: "push_bit 8 (ucast a) OR ucast b = (push_bit 8 (ucast a) + ucast b :: u32)"
    by (rule disjunctive_add [symmetric]) (auto simp: bit_simps)
  show ?thesis
    using unat_u8_le [of a] unat_u8_le [of b]
    unfolding eq by (simp add: push_bit_eq_mult unat_word_ariths)
qed

lemma bit_u16_high [simp]: "16 \<le> n \<Longrightarrow> \<not> bit (a :: u16) n"
  using bit_imp_le_length [of a n] by auto

text \<open>A 16-bit field, read in network order, is its two bytes with the first one high.\<close>

lemma unat_htons: "unat (htons w) = 256 * unat (ucast w :: u8) + unat (ucast (drop_bit 8 w) :: u8)"
proof -
  have "ucast (htons w) = (push_bit 8 (ucast (ucast w :: u8)) OR ucast (ucast (drop_bit 8 w) :: u8) :: u32)"
    by (rule bit_word_eqI) (auto simp: htons_def bit_simps not_less)
  then have "unat (ucast (htons w) :: u32)
      = unat (push_bit 8 (ucast (ucast w :: u8)) OR ucast (ucast (drop_bit 8 w) :: u8) :: u32)"
    by (simp only:)
  then show ?thesis by (simp only: unat_be_word32 unat_ucast_u16_u32)
qed

section \<open>Checked access to a byte buffer\<close>

text \<open>
  A buffer is the list of the bytes of the object; reading or writing past its end is a fault.
\<close>

definition rd :: "bytes \<Rightarrow> nat \<Rightarrow> nat \<Rightarrow> bytes res" where
  "rd buf off n = (if off + n \<le> length buf then Inr (take n (drop off buf)) else Inl OutOfBounds)"

definition wr :: "bytes \<Rightarrow> nat \<Rightarrow> bytes \<Rightarrow> bytes res" where
  "wr buf off bs =
     (if off + length bs \<le> length buf
      then Inr (take off buf @ bs @ drop (off + length bs) buf) else Inl OutOfBounds)"

text \<open>Loading and storing a whole struct through a cast pointer.\<close>

definition ld :: "(bytes \<Rightarrow> 'h) \<Rightarrow> nat \<Rightarrow> bytes \<Rightarrow> nat \<Rightarrow> 'h res" where
  "ld dec sz buf off = rbind (rd buf off sz) (\<lambda>bs. Inr (dec bs))"

definition st :: "('h \<Rightarrow> bytes) \<Rightarrow> bytes \<Rightarrow> nat \<Rightarrow> 'h \<Rightarrow> bytes res" where
  "st enc buf off h = wr buf off (enc h)"

lemma wr_length: "wr buf off bs = Inr buf' \<Longrightarrow> length buf' = length buf"
  by (auto simp: wr_def split: if_splits)

lemma rd_wr_before: "wr buf off bs = Inr buf' \<Longrightarrow> o' + n \<le> off \<Longrightarrow> rd buf' o' n = rd buf o' n"
  by (auto simp: rd_def wr_def min_def take_drop split: if_splits)

lemma rd_wr_after:
  assumes "wr buf off bs = Inr buf'" and "off + length bs \<le> o'"
  shows "rd buf' o' n = rd buf o' n"
proof -
  from assms have le: "off + length bs \<le> length buf"
    and buf': "buf' = take off buf @ bs @ drop (off + length bs) buf"
    by (auto simp: wr_def split: if_splits)
  from le have "length (take off buf @ bs) = off + length bs" by simp
  then have "drop o' buf' = drop (o' - (off + length bs)) (drop (off + length bs) buf)"
    using assms(2) by (simp add: buf')
  then have "drop o' buf' = drop o' buf" using assms(2) by simp
  moreover have "length buf' = length buf" using assms(1) by (rule wr_length)
  ultimately show ?thesis by (simp add: rd_def)
qed

lemma rd_wr_same: "wr buf off bs = Inr buf' \<Longrightarrow> rd buf' off (length bs) = Inr bs"
  by (auto simp: rd_def wr_def min_def split: if_splits)

text \<open>
  The contract of a packed struct: \<open>enc\<close> lays its fields out in \<open>sz\<close> bytes and \<open>dec\<close> reads them
  back. \<open>ok\<close> says what a value must satisfy beyond its type (a fixed array length).
\<close>

locale codec =
  fixes enc :: "'h \<Rightarrow> bytes"
    and dec :: "bytes \<Rightarrow> 'h"
    and sz :: nat
    and ok :: "'h \<Rightarrow> bool"
  assumes length_enc: "ok h \<Longrightarrow> length (enc h) = sz"
    and dec_enc: "ok h \<Longrightarrow> dec (enc h) = h"
    and enc_dec: "length bs = sz \<Longrightarrow> enc (dec bs) = bs"
    and ok_dec: "length bs = sz \<Longrightarrow> ok (dec bs)"
begin

lemma ld_ok: "off + sz \<le> length buf \<Longrightarrow> ld dec sz buf off = Inr (dec (take sz (drop off buf)))"
  by (simp add: ld_def rd_def)

lemma ld_oob: "length buf < off + sz \<Longrightarrow> ld dec sz buf off = Inl OutOfBounds"
  by (simp add: ld_def rd_def)

lemma ld_Inr_ok: "ld dec sz buf off = Inr h \<Longrightarrow> ok h"
  by (auto simp: ld_def rd_def ok_dec split: if_splits)

lemma ld_Inr_bound: "ld dec sz buf off = Inr h \<Longrightarrow> off + sz \<le> length buf"
  by (auto simp: ld_def rd_def split: if_splits)

lemma st_ok:
  "ok h \<Longrightarrow> off + sz \<le> length buf \<Longrightarrow>
   st enc buf off h = Inr (take off buf @ enc h @ drop (off + sz) buf)"
  by (simp add: st_def wr_def length_enc)

lemma ld_st_same: "ok h \<Longrightarrow> st enc buf off h = Inr buf' \<Longrightarrow> ld dec sz buf' off = Inr h"
  unfolding st_def ld_def using rd_wr_same [of buf off "enc h" buf']
  by (simp add: length_enc dec_enc)

lemma st_ld_same: "ld dec sz buf off = Inr h \<Longrightarrow> st enc buf off h = Inr buf"
  by (auto simp: ld_def rd_def st_def wr_def enc_dec ok_dec split: if_splits)
    (metis append_take_drop_id drop_drop add.commute)

lemma st_length: "st enc buf off h = Inr buf' \<Longrightarrow> length buf' = length buf"
  unfolding st_def by (rule wr_length)

end

section \<open>C strings\<close>

text \<open>
  A \<open>char[n]\<close> is the list of its bytes. \<open>cstr\<close> is the string it holds: the bytes before the first
  NUL (or the whole array, when there is none). \<open>strncpy\<close> copies at most \<open>n\<close> characters and pads
  with NULs; two arrays are equal for \<open>strncmp\<close> when their first \<open>n\<close> characters, up to the first
  NUL, agree.
\<close>

definition cstr :: "bytes \<Rightarrow> bytes" where
  "cstr s = takeWhile (\<lambda>c. c \<noteq> 0) s"

definition c_strncpy :: "nat \<Rightarrow> bytes \<Rightarrow> bytes" where
  "c_strncpy n s = take n (cstr s @ replicate n 0)"

definition c_strncmp_eq :: "nat \<Rightarrow> bytes \<Rightarrow> bytes \<Rightarrow> bool" where
  "c_strncmp_eq n a b \<longleftrightarrow> take n (cstr a) = take n (cstr b)"

lemma length_c_strncpy [simp]: "length (c_strncpy n s) = n"
  by (simp add: c_strncpy_def)

lemma takeWhile_all: "(\<forall>c\<in>set s. P c) \<Longrightarrow> takeWhile P s = s"
  by (induction s) auto

lemma takeWhile_take: "takeWhile P (take n s) = take n (takeWhile P s)"
  by (induction s arbitrary: n) (auto simp: take_Cons split: nat.splits)

lemma cstr_replicate0 [simp]: "cstr (a @ replicate n 0) = cstr a"
  by (cases n) (auto simp: cstr_def takeWhile_append takeWhile_all)

lemma cstr_idem [simp]: "cstr (cstr s) = cstr s"
  unfolding cstr_def by (rule takeWhile_all) (auto dest: set_takeWhileD)

text \<open>The copied array compares equal to its source: no later code can tell them apart.\<close>

lemma cstr_strncpy: "cstr (c_strncpy n s) = take n (cstr s)"
proof -
  have "cstr (take n (cstr s @ replicate n 0)) = take n (cstr (cstr s @ replicate n 0))"
    unfolding cstr_def by (rule takeWhile_take)
  then show ?thesis by (simp add: c_strncpy_def)
qed

lemma strncmp_strncpy [simp]: "c_strncmp_eq n (c_strncpy n a) b \<longleftrightarrow> c_strncmp_eq n a b"
  by (simp add: c_strncmp_eq_def cstr_strncpy)

lemma strncmp_refl [simp]: "c_strncmp_eq n a a"
  by (simp add: c_strncmp_eq_def)

lemma strncmp_sym: "c_strncmp_eq n a b \<longleftrightarrow> c_strncmp_eq n b a"
  by (auto simp: c_strncmp_eq_def)

lemma strncmp_trans: "c_strncmp_eq n a b \<Longrightarrow> c_strncmp_eq n b c \<Longrightarrow> c_strncmp_eq n a c"
  by (simp add: c_strncmp_eq_def)

text \<open>
  A string that is read to its NUL: the read is out of bounds when the object holds no NUL. \<open>c_fgets n\<close>
  reads at most \<open>n - 1\<close> characters of a file, up to and including a newline; the rest stays.
\<close>

definition c_string :: "bytes \<Rightarrow> bytes res" where
  "c_string s = (if 0 \<in> set s then Inr (cstr s) else Inl OutOfBounds)"

definition first_line :: "bytes \<Rightarrow> bytes" where
  "first_line s = takeWhile (\<lambda>c. c \<noteq> 10) s @ take 1 (dropWhile (\<lambda>c. c \<noteq> 10) s)"

definition c_fgets :: "nat \<Rightarrow> bytes \<Rightarrow> (bytes \<times> bytes) option" where
  "c_fgets n s = (if s = [] then None
     else let l = take (n - 1) (first_line s) in Some (l, drop (length l) s))"

text \<open>A 32-bit field in host order, and the bytes of a number that was put in network order.\<close>

definition rd32 :: "bytes \<Rightarrow> nat \<Rightarrow> u32 res" where
  "rd32 buf off = rbind (rd buf off 4) (\<lambda>b. Inr (of_le32 (b ! 0) (b ! 1) (b ! 2) (b ! 3)))"

lemma rd32_le32: "rd buf off 4 = Inr (le32 w) \<Longrightarrow> rd32 buf off = Inr w"
  by (simp add: rd32_def le32_def)

lemma rd32_head: "rd32 (le32 w @ bs) 0 = Inr w"
  by (rule rd32_le32) (simp add: rd_def)

lemma rd32_second: "rd32 (le32 v @ le32 w @ bs) 4 = Inr w"
  by (rule rd32_le32) (simp add: rd_def)

lemma c_string_NUL: "0 \<notin> set a \<Longrightarrow> c_string (a @ 0 # b) = Inr a"
  by (auto simp: c_string_def cstr_def takeWhile_append takeWhile_all)

section \<open>Searching a list\<close>

lemma find_append: "find P (xs @ ys) = (case find P xs of None \<Rightarrow> find P ys | Some x \<Rightarrow> Some x)"
  by (induction xs) auto

lemma find_Some_iff_set: "find P xs = Some x \<Longrightarrow> P x \<and> x \<in> set xs"
  by (induction xs) (auto split: if_splits)

lemma find_cong_set: "(\<And>x. x \<in> set xs \<Longrightarrow> P x = Q x) \<Longrightarrow> find P xs = find Q xs"
  by (induction xs) auto

lemma find_map_same: "(\<And>x. Q (g x) = Q x) \<Longrightarrow> find Q (map g xs) = map_option g (find Q xs)"
  by (induction xs) auto

lemma find_filter_key:
  "find (\<lambda>x. k x = b) (filter (\<lambda>x. k x \<noteq> a) xs) = (if b = a then None else find (\<lambda>x. k x = b) xs)"
  by (induction xs) auto

end
