(* ===== verification/Sr_Protocol.thy ===== *)
theory Sr_Protocol
  imports Router_Prelude
begin

text \<open>
  The packed header structs of \<open>sr_protocol.h\<close> as records, with the layout the compiler gives them:
  \<open>enc_\<dots>\<close> is the bytes of a struct, \<open>dec_\<dots>\<close> reads the fields of a pointer cast to it. Fields keep
  the order of the struct; multi-byte fields are host words, so the code's \<open>htons\<close> and \<open>ntohs\<close> are
  explicit in the model. Each struct is an instance of the \<open>codec\<close> contract.
\<close>

section \<open>Constants\<close>

definition ETHER_ADDR_LEN :: nat where "ETHER_ADDR_LEN = 6"
definition ICMP_DATA_SIZE :: nat where "ICMP_DATA_SIZE = 28"
definition sr_IFACE_NAMELEN :: nat where "sr_IFACE_NAMELEN = 32"

definition ethertype_arp :: u16 where "ethertype_arp = 0x0806"
definition ethertype_ip :: u16 where "ethertype_ip = 0x0800"
definition ip_protocol_icmp :: u8 where "ip_protocol_icmp = 1"
definition arp_op_request :: u16 where "arp_op_request = 1"
definition arp_op_reply :: u16 where "arp_op_reply = 2"
definition arp_hrd_ethernet :: u16 where "arp_hrd_ethernet = 1"

definition IP_RF :: u16 where "IP_RF = 0x8000"
definition IP_DF :: u16 where "IP_DF = 0x4000"
definition IP_MF :: u16 where "IP_MF = 0x2000"
definition IP_OFFMASK :: u16 where "IP_OFFMASK = 0x1fff"

section \<open>Ethernet addresses\<close>

text \<open>An array \<open>uint8_t [ETHER_ADDR_LEN]\<close>: six bytes, copied as a whole by \<open>memcpy\<close>.\<close>

datatype mac = Mac u8 u8 u8 u8 u8 u8

fun enc_mac :: "mac \<Rightarrow> bytes" where
  "enc_mac (Mac a b c d e f) = [a, b, c, d, e, f]"

definition dec_mac :: "bytes \<Rightarrow> mac" where
  "dec_mac bs = Mac (bs ! 0) (bs ! 1) (bs ! 2) (bs ! 3) (bs ! 4) (bs ! 5)"

text \<open>\<open>memset\<close> of an address to 0 and to 255; the first is the library's \<open>0\<close>.\<close>

instantiation mac :: zero
begin

definition zero_mac :: mac where "zero_mac = Mac 0 0 0 0 0 0"

instance ..

end

definition mac_broadcast :: mac where
  "mac_broadcast = Mac 255 255 255 255 255 255"

lemma length_enc_mac [simp]: "length (enc_mac m) = 6"
  by (cases m) simp

lemma dec_enc_mac [simp]: "dec_mac (enc_mac m) = m" "dec_mac (enc_mac m @ bs) = m"
  by (cases m, simp add: dec_mac_def)+

section \<open>Header structs\<close>

record sr_ethernet_hdr =
  ether_dhost :: mac
  ether_shost :: mac
  ether_type :: u16

record sr_ip_hdr =
  ip_hl :: "4 word"
  ip_v :: "4 word"
  ip_tos :: u8
  ip_len :: u16
  ip_id :: u16
  ip_off :: u16
  ip_ttl :: u8
  ip_p :: u8
  ip_sum :: u16
  ip_src :: u32
  ip_dst :: u32

record sr_icmp_hdr =
  icmp_type :: u8
  icmp_code :: u8
  icmp_sum :: u16

record sr_icmp_t3_hdr =
  t3_type :: u8
  t3_code :: u8
  t3_sum :: u16
  t3_unused :: u16
  t3_next_mtu :: u16
  t3_data :: bytes

record sr_arp_hdr =
  ar_hrd :: u16
  ar_pro :: u16
  ar_hln :: u8
  ar_pln :: u8
  ar_op :: u16
  ar_sha :: mac
  ar_sip :: u32
  ar_tha :: mac
  ar_tip :: u32

definition sizeof_eth :: nat where "sizeof_eth = 14"
definition sizeof_ip :: nat where "sizeof_ip = 20"
definition sizeof_icmp :: nat where "sizeof_icmp = 4"
definition sizeof_icmp_t3 :: nat where "sizeof_icmp_t3 = 36"
definition sizeof_arp :: nat where "sizeof_arp = 28"

lemmas sizeof_defs =
  sizeof_eth_def sizeof_ip_def sizeof_icmp_def sizeof_icmp_t3_def sizeof_arp_def

section \<open>Layout\<close>

definition enc_eth :: "sr_ethernet_hdr \<Rightarrow> bytes" where
  "enc_eth h = enc_mac (ether_dhost h) @ enc_mac (ether_shost h) @ le16 (ether_type h)"

definition dec_eth :: "bytes \<Rightarrow> sr_ethernet_hdr" where
  "dec_eth bs = \<lparr> ether_dhost = dec_mac bs, ether_shost = dec_mac (drop 6 bs),
                  ether_type = of_le16 (bs ! 12) (bs ! 13) \<rparr>"

text \<open>On a little-endian host the first bit-field, \<open>ip_hl\<close>, is the low nibble of the first byte.\<close>

definition enc_ip :: "sr_ip_hdr \<Rightarrow> bytes" where
  "enc_ip h = [ucast (ip_hl h) OR push_bit 4 (ucast (ip_v h)), ip_tos h] @ le16 (ip_len h)
     @ le16 (ip_id h) @ le16 (ip_off h) @ [ip_ttl h, ip_p h] @ le16 (ip_sum h)
     @ le32 (ip_src h) @ le32 (ip_dst h)"

definition dec_ip :: "bytes \<Rightarrow> sr_ip_hdr" where
  "dec_ip bs = \<lparr> ip_hl = ucast (bs ! 0), ip_v = ucast (drop_bit 4 (bs ! 0)), ip_tos = bs ! 1,
     ip_len = of_le16 (bs ! 2) (bs ! 3), ip_id = of_le16 (bs ! 4) (bs ! 5),
     ip_off = of_le16 (bs ! 6) (bs ! 7), ip_ttl = bs ! 8, ip_p = bs ! 9,
     ip_sum = of_le16 (bs ! 10) (bs ! 11),
     ip_src = of_le32 (bs ! 12) (bs ! 13) (bs ! 14) (bs ! 15),
     ip_dst = of_le32 (bs ! 16) (bs ! 17) (bs ! 18) (bs ! 19) \<rparr>"

definition enc_icmp :: "sr_icmp_hdr \<Rightarrow> bytes" where
  "enc_icmp h = [icmp_type h, icmp_code h] @ le16 (icmp_sum h)"

definition dec_icmp :: "bytes \<Rightarrow> sr_icmp_hdr" where
  "dec_icmp bs = \<lparr> icmp_type = bs ! 0, icmp_code = bs ! 1, icmp_sum = of_le16 (bs ! 2) (bs ! 3) \<rparr>"

definition enc_t3 :: "sr_icmp_t3_hdr \<Rightarrow> bytes" where
  "enc_t3 h = [t3_type h, t3_code h] @ le16 (t3_sum h) @ le16 (t3_unused h)
     @ le16 (t3_next_mtu h) @ t3_data h"

definition dec_t3 :: "bytes \<Rightarrow> sr_icmp_t3_hdr" where
  "dec_t3 bs = \<lparr> t3_type = bs ! 0, t3_code = bs ! 1, t3_sum = of_le16 (bs ! 2) (bs ! 3),
     t3_unused = of_le16 (bs ! 4) (bs ! 5), t3_next_mtu = of_le16 (bs ! 6) (bs ! 7),
     t3_data = drop 8 bs \<rparr>"

definition enc_arp :: "sr_arp_hdr \<Rightarrow> bytes" where
  "enc_arp h = le16 (ar_hrd h) @ le16 (ar_pro h) @ [ar_hln h, ar_pln h] @ le16 (ar_op h)
     @ enc_mac (ar_sha h) @ le32 (ar_sip h) @ enc_mac (ar_tha h) @ le32 (ar_tip h)"

definition dec_arp :: "bytes \<Rightarrow> sr_arp_hdr" where
  "dec_arp bs = \<lparr> ar_hrd = of_le16 (bs ! 0) (bs ! 1), ar_pro = of_le16 (bs ! 2) (bs ! 3),
     ar_hln = bs ! 4, ar_pln = bs ! 5, ar_op = of_le16 (bs ! 6) (bs ! 7),
     ar_sha = dec_mac (drop 8 bs), ar_sip = of_le32 (bs ! 14) (bs ! 15) (bs ! 16) (bs ! 17),
     ar_tha = dec_mac (drop 18 bs),
     ar_tip = of_le32 (bs ! 24) (bs ! 25) (bs ! 26) (bs ! 27) \<rparr>"

section \<open>Every struct satisfies the codec contract\<close>

lemma nibbles: "ucast (ucast (b :: u8) :: 4 word) OR push_bit 4 (ucast (ucast (drop_bit 4 b) :: 4 word)) = b"
  by (rule bit_word_eqI) (auto simp: bit_simps)

lemma bit_nibble_high [simp]: "\<not> bit (a :: 4 word) (4 + n)" "4 \<le> k \<Longrightarrow> \<not> bit (a :: 4 word) k"
  using bit_imp_le_length [of a "4 + n"] bit_imp_le_length [of a k] by auto

lemma nibble_lo: "ucast (ucast (l :: 4 word) OR push_bit 4 (ucast (h :: 4 word)) :: u8) = l"
  by (rule bit_word_eqI) (auto simp: bit_simps)

lemma nibble_hi:
  "ucast (drop_bit 4 (ucast (l :: 4 word)) OR drop_bit 4 (push_bit 4 (ucast (h :: 4 word))) :: u8) = h"
  by (rule bit_word_eqI) (auto simp: bit_simps)

lemma length_Suc_exE: "length bs = Suc n \<Longrightarrow> (\<And>b bs'. bs = b # bs' \<Longrightarrow> length bs' = n \<Longrightarrow> P) \<Longrightarrow> P"
  by (cases bs) auto

interpretation eth: codec enc_eth dec_eth sizeof_eth "\<lambda>_. True"
proof unfold_locales
  fix bs :: bytes
  assume "length bs = sizeof_eth"
  then show "enc_eth (dec_eth bs) = bs"
    by (auto simp: sizeof_eth_def numeral_eq_Suc enc_eth_def dec_eth_def dec_mac_def
        elim!: length_Suc_exE)
qed (simp_all add: enc_eth_def dec_eth_def sizeof_eth_def nth_append le16_def)


interpretation ip: codec enc_ip dec_ip sizeof_ip "\<lambda>_. True"
proof unfold_locales
  fix bs :: bytes
  assume "length bs = sizeof_ip"
  then show "enc_ip (dec_ip bs) = bs"
    by (simp add: sizeof_ip_def numeral_eq_Suc, elim length_Suc_exE)
      (simp add: enc_ip_def dec_ip_def nibbles)
qed (simp_all add: enc_ip_def dec_ip_def sizeof_ip_def nth_append le16_def le32_def
    nibble_lo nibble_hi)

interpretation icmp: codec enc_icmp dec_icmp sizeof_icmp "\<lambda>_. True"
proof unfold_locales
  fix bs :: bytes
  assume "length bs = sizeof_icmp"
  then show "enc_icmp (dec_icmp bs) = bs"
    by (auto simp: sizeof_icmp_def numeral_eq_Suc enc_icmp_def dec_icmp_def elim!: length_Suc_exE)
qed (simp_all add: enc_icmp_def dec_icmp_def sizeof_icmp_def le16_def)

interpretation t3: codec enc_t3 dec_t3 sizeof_icmp_t3 "\<lambda>h. length (t3_data h) = ICMP_DATA_SIZE"
proof unfold_locales
  fix bs :: bytes
  assume "length bs = sizeof_icmp_t3"
  then show "enc_t3 (dec_t3 bs) = bs"
    by (auto simp: sizeof_icmp_t3_def numeral_eq_Suc enc_t3_def dec_t3_def elim!: length_Suc_exE)
qed (simp_all add: enc_t3_def dec_t3_def sizeof_icmp_t3_def ICMP_DATA_SIZE_def le16_def)

interpretation arp: codec enc_arp dec_arp sizeof_arp "\<lambda>_. True"
proof unfold_locales
  fix bs :: bytes
  assume "length bs = sizeof_arp"
  then show "enc_arp (dec_arp bs) = bs"
    by (auto simp: sizeof_arp_def numeral_eq_Suc enc_arp_def dec_arp_def dec_mac_def
        elim!: length_Suc_exE)
qed (simp_all add: enc_arp_def dec_arp_def sizeof_arp_def nth_append le16_def le32_def)

text \<open>The pointer casts of the handlers: one struct at one offset of a frame.\<close>

abbreviation ld_eth :: "bytes \<Rightarrow> sr_ethernet_hdr res" where
  "ld_eth buf \<equiv> ld dec_eth sizeof_eth buf 0"
abbreviation ld_ip :: "bytes \<Rightarrow> sr_ip_hdr res" where
  "ld_ip buf \<equiv> ld dec_ip sizeof_ip buf sizeof_eth"
abbreviation ld_arp :: "bytes \<Rightarrow> sr_arp_hdr res" where
  "ld_arp buf \<equiv> ld dec_arp sizeof_arp buf sizeof_eth"
abbreviation ld_icmp :: "bytes \<Rightarrow> sr_icmp_hdr res" where
  "ld_icmp buf \<equiv> ld dec_icmp sizeof_icmp buf (sizeof_eth + sizeof_ip)"
abbreviation st_eth :: "bytes \<Rightarrow> sr_ethernet_hdr \<Rightarrow> bytes res" where
  "st_eth buf h \<equiv> st enc_eth buf 0 h"
abbreviation st_ip :: "bytes \<Rightarrow> sr_ip_hdr \<Rightarrow> bytes res" where
  "st_ip buf h \<equiv> st enc_ip buf sizeof_eth h"
abbreviation st_arp :: "bytes \<Rightarrow> sr_arp_hdr \<Rightarrow> bytes res" where
  "st_arp buf h \<equiv> st enc_arp buf sizeof_eth h"
abbreviation st_icmp :: "bytes \<Rightarrow> sr_icmp_hdr \<Rightarrow> bytes res" where
  "st_icmp buf h \<equiv> st enc_icmp buf (sizeof_eth + sizeof_ip) h"
abbreviation st_t3 :: "bytes \<Rightarrow> sr_icmp_t3_hdr \<Rightarrow> bytes res" where
  "st_t3 buf h \<equiv> st enc_t3 buf (sizeof_eth + sizeof_ip) h"

text \<open>The headers of a frame that is long enough to have them.\<close>

abbreviation frame_eth :: "bytes \<Rightarrow> sr_ethernet_hdr" where
  "frame_eth buf \<equiv> dec_eth (take sizeof_eth buf)"
abbreviation frame_ip :: "bytes \<Rightarrow> sr_ip_hdr" where
  "frame_ip buf \<equiv> dec_ip (take sizeof_ip (drop sizeof_eth buf))"
abbreviation frame_arp :: "bytes \<Rightarrow> sr_arp_hdr" where
  "frame_arp buf \<equiv> dec_arp (take sizeof_arp (drop sizeof_eth buf))"

section \<open>Property\<close>

text \<open>the four headers the handlers rewrite survive the trip through memory: reading a struct back
  from the bytes it was written to gives every field again, bit-fields included.\<close>

theorem header_roundtrip:
  "dec_eth (enc_eth e) = e \<and> dec_ip (enc_ip i) = i \<and> dec_icmp (enc_icmp c) = c
     \<and> dec_arp (enc_arp a) = a"
  by (simp add: eth.dec_enc ip.dec_enc icmp.dec_enc arp.dec_enc)

end
