(* ===== verification/Sr_Utils.thy ===== *)
theory Sr_Utils
  imports Sr_Protocol
begin

text \<open>
  \<open>sr_utils.c\<close>: the Internet checksum, the two field readers and the header printers. The checksum
  is related to the ones' complement arithmetic of RFC 1071 (\<open>rfc_sum\<close>, \<open>oc_fold\<close>), on which the
  receivers of the router's packets rely.
\<close>

section \<open>The checksum\<close>

text \<open>
  \<open>data\<close> is the \<open>len\<close> bytes the pointer is followed for. The accumulator is a \<open>uint32_t\<close> and wraps.
\<close>

fun cksum_loop :: "u32 \<Rightarrow> bytes \<Rightarrow> u32" where
  "cksum_loop sm (a # b # data) = cksum_loop (sm + (push_bit 8 (ucast a) OR ucast b)) data"
| "cksum_loop sm [a] = sm + push_bit 8 (ucast a)"
| "cksum_loop sm [] = sm"

lemma unat_low16: "unat ((s :: u32) AND 0xFFFF) = unat s mod 65536"
proof -
  have "s AND 0xFFFF = take_bit 16 s"
    by (simp add: take_bit_eq_mask mask_eq_exp_minus_1)
  then show ?thesis by (simp add: take_bit_eq_mod unat_mod)
qed

lemma unat_high16: "unat (drop_bit 16 (s :: u32)) = unat s div 65536"
  by (simp add: unsigned_drop_bit_eq drop_bit_eq_div unat_div)

lemma unat_fold_step:
  "unat (drop_bit 16 s + ((s :: u32) AND 0xFFFF)) = unat s div 65536 + unat s mod 65536"
proof -
  have "unat s div 65536 < 65536"
    using unat_u32_less [of s] by (simp add: less_mult_imp_div_less)
  moreover have "unat s mod 65536 < 65536" by simp
  ultimately have "unat s div 65536 + unat s mod 65536 < 4294967296" by linarith
  then show ?thesis
    by (simp only: unat_word_ariths unat_low16 unat_high16) simp
qed

lemma carry_less:
  assumes "65536 \<le> (n :: nat)"
  shows "n div 65536 + n mod 65536 < n"
proof -
  have "1 \<le> n div 65536" using assms by (simp add: Suc_le_eq div_greater_zero_iff)
  moreover have "n = n div 65536 * 65536 + n mod 65536" by simp
  ultimately show ?thesis by linarith
qed

function cksum_fold :: "u32 \<Rightarrow> u32" where
  "cksum_fold sm =
     (if sm > 0xFFFF then cksum_fold (drop_bit 16 sm + (sm AND 0xFFFF)) else sm)"
  by pat_completeness auto
termination
proof (relation "measure unat")
  fix sm :: u32
  assume "0xFFFF < sm"
  then have "unat (0xFFFF :: u32) < unat sm" by (simp add: word_less_nat_alt)
  then have "65536 \<le> unat sm" by simp
  then have "unat sm div 65536 + unat sm mod 65536 < unat sm" by (rule carry_less)
  then show "(drop_bit 16 sm + (sm AND 0xFFFF), sm) \<in> measure unat"
    by (simp only: in_measure unat_fold_step)
qed simp

declare cksum_fold.simps [simp del]

definition cksum :: "bytes \<Rightarrow> u16" where
  "cksum data =
     (let sm = htons (ucast (NOT (cksum_fold (cksum_loop 0 data))))
      in if sm \<noteq> 0 then sm else 0xFFFF)"

section \<open>Ones' complement arithmetic\<close>

text \<open>The sum of the big-endian 16-bit words of the data, the last byte padded with 0.\<close>

fun rfc_sum :: "bytes \<Rightarrow> nat" where
  "rfc_sum (a # b # data) = 256 * unat a + unat b + rfc_sum data"
| "rfc_sum [a] = 256 * unat a"
| "rfc_sum [] = 0"

text \<open>The end-around carry: the residue modulo 65535, with 65535 for a non-zero multiple.\<close>

definition oc_fold :: "nat \<Rightarrow> nat" where
  "oc_fold n = (if n = 0 then 0 else (n - 1) mod 65535 + 1)"

text \<open>A receiver accepts data whose ones' complement sum, checksum included, is all ones.\<close>

definition rfc1071_valid :: "bytes \<Rightarrow> bool" where
  "rfc1071_valid data \<longleftrightarrow> oc_fold (rfc_sum data) = 65535"

lemma rfc_sum_bound: "rfc_sum data \<le> 65535 * ((length data + 1) div 2)"
proof (induction data rule: rfc_sum.induct)
  case (1 a b data)
  have "unat a \<le> 255" "unat b \<le> 255" by (rule unat_u8_le)+
  moreover have "(length (a # b # data) + 1) div 2 = Suc ((length data + 1) div 2)" by simp
  ultimately show ?case using 1 by simp
next
  case (2 a)
  have "unat a \<le> 255" by (rule unat_u8_le)
  then show ?case by simp
qed simp

lemma rfc_sum_append: "even (length xs) \<Longrightarrow> rfc_sum (xs @ ys) = rfc_sum xs + rfc_sum ys"
  by (induction xs rule: rfc_sum.induct) auto

lemma oc_fold_small: "n \<le> 65535 \<Longrightarrow> oc_fold n = n"
  by (auto simp: oc_fold_def)

lemma oc_fold_range: "oc_fold n \<le> 65535"
proof -
  have "(n - 1) mod 65535 < 65535" by simp
  then show ?thesis unfolding oc_fold_def by (auto simp del: mod_less_divisor)
qed

lemma oc_fold_carry: "65535 < n \<Longrightarrow> oc_fold (n div 65536 + n mod 65536) = oc_fold n"
proof -
  assume n: "65535 < n"
  define h l where "h = n div 65536" and "l = n mod 65536"
  have nhl: "n = 65536 * h + l" by (simp add: h_def l_def)
  have "h \<noteq> 0" using n by (auto simp: h_def)
  then have eq: "n - 1 = (h + l - 1) + 65535 * h" using nhl by simp
  have "(n - 1) mod 65535 = (h + l - 1) mod 65535" unfolding eq by (rule mod_mult_self2)
  with \<open>h \<noteq> 0\<close> n show ?thesis unfolding oc_fold_def h_def [symmetric] l_def [symmetric] by simp
qed

lemma cksum_loop_sum:
  "unat s + rfc_sum data < 2 ^ 32 \<Longrightarrow> unat (cksum_loop s data) = unat s + rfc_sum data"
proof (induction s data rule: cksum_loop.induct)
  case (1 s a b data)
  have eq: "unat (s + (push_bit 8 (ucast a) OR ucast b)) = unat s + (256 * unat a + unat b)"
    using "1.prems" by (simp add: unat_word_ariths unat_be_word32)
  then show ?case using "1.prems" by (simp add: "1.IH" eq)
next
  case (2 s a)
  have "unat (push_bit 8 (ucast a) :: u32) = 256 * unat a"
    using unat_be_word32 [of a 0] by simp
  then show ?case using 2 by (simp add: unat_word_ariths)
qed simp

lemma cksum_fold_oc: "unat (cksum_fold s) = oc_fold (unat s)"
proof (induction s rule: cksum_fold.induct)
  case (1 s)
  show ?case
  proof (cases "s > 0xFFFF")
    case True
    then have "65535 < unat s" by (simp add: word_less_nat_alt)
    then show ?thesis
      using 1 True by (subst cksum_fold.simps) (simp add: unat_fold_step oc_fold_carry)
  next
    case False
    then have "unat s \<le> 65535" by (simp add: word_less_nat_alt)
    then show ?thesis using False by (subst cksum_fold.simps) (simp add: oc_fold_small)
  qed
qed

text \<open>
  The returned half-word, read in network order, is the complement of the folded sum, except that
  0 is replaced by 0xFFFF.
\<close>

lemma unat_not_low16: "unat (s :: u32) \<le> 65535 \<Longrightarrow> unat (ucast (NOT s) :: u16) = 65535 - unat s"
proof -
  assume s: "unat s \<le> 65535"
  have "ucast (NOT s) = (NOT (ucast s) :: u16)"
    by (rule bit_word_eqI) (auto simp: bit_simps)
  moreover have "unat (ucast s :: u16) = unat s"
    using s by (simp add: unsigned_ucast_eq take_bit_eq_mod)
  moreover have "unat (NOT w) = 65535 - unat w" for w :: u16
  proof -
    have "NOT w = - 1 - w" by (simp add: not_eq_complement)
    moreover have "w \<le> - 1" by simp
    ultimately have "unat (NOT w) = unat (- 1 :: u16) - unat w" by (simp only: unat_sub)
    then show ?thesis by (simp add: unsigned_minus_1_eq_mask mask_eq_exp_minus_1)
  qed
  ultimately show ?thesis by simp
qed

lemma unat_ntohs_cksum:
  assumes "rfc_sum data < 2 ^ 32"
  shows "unat (ntohs (cksum data)) =
    (if oc_fold (rfc_sum data) = 65535 then 65535 else 65535 - oc_fold (rfc_sum data))"
proof -
  define f where "f = cksum_fold (cksum_loop 0 data)"
  have f: "unat f = oc_fold (rfc_sum data)"
    unfolding f_def using assms by (simp add: cksum_fold_oc cksum_loop_sum)
  have n: "unat (ucast (NOT f) :: u16) = 65535 - oc_fold (rfc_sum data)"
    using oc_fold_range [of "rfc_sum data"] by (simp add: unat_not_low16 f)
  have z: "htons w = 0 \<longleftrightarrow> unat w = 0" for w :: u16
  proof -
    have "htons w = 0 \<longleftrightarrow> htons w = htons 0" by (simp add: htons_def)
    then show ?thesis by (simp add: unat_eq_0)
  qed
  have "cksum data = (if 65535 - oc_fold (rfc_sum data) = 0 then 0xFFFF else htons (ucast (NOT f)))"
    unfolding cksum_def f_def [symmetric] Let_def z n by simp
  moreover have "ntohs 0xFFFF = (0xFFFF :: u16)"
    by (simp add: ntohs_def htons_def)
  ultimately show ?thesis
    using oc_fold_range [of "rfc_sum data"] n by auto
qed

lemma oc_fold_full: "oc_fold n = 65535 \<longleftrightarrow> 0 < n \<and> n mod 65535 = 0"
proof (cases n)
  case (Suc m)
  have "m mod 65535 = 65534 \<longleftrightarrow> Suc m mod 65535 = 0"
    by (simp add: mod_Suc)
  then show ?thesis by (simp add: oc_fold_def Suc)
qed (simp add: oc_fold_def)

lemma oc_fold_mod: "oc_fold n mod 65535 = n mod 65535"
  by (cases n) (auto simp: oc_fold_def mod_Suc_eq)

lemma oc_fold_add_full: "oc_fold a = 65535 \<Longrightarrow> oc_fold (a + b) = 65535 \<longleftrightarrow> b mod 65535 = 0"
proof -
  assume "oc_fold a = 65535"
  then have "0 < a" "a mod 65535 = 0" by (simp_all only: oc_fold_full)
  moreover have "(a + b) mod 65535 = (a mod 65535 + b) mod 65535" by (rule mod_add_left_eq [symmetric])
  ultimately show ?thesis by (simp only: oc_fold_full add_gr_0 simp_thms add_0)
qed

text \<open>
  The heart of the checksum: among the half-words other than 0, exactly one completes a sum to all
  ones, and it is the one the code computes.
\<close>

lemma complement_unique:
  assumes "0 < c" "c \<le> 65535" "f = oc_fold n"
  shows "oc_fold (n + c) = 65535 \<longleftrightarrow> c = (if f = 65535 then 65535 else 65535 - f)"
proof -
  have f: "f \<le> 65535" using oc_fold_range assms(3) by simp
  have "oc_fold (n + c) = 65535 \<longleftrightarrow> (f + c) mod 65535 = 0"
    using assms(1) unfolding oc_fold_full assms(3) by (metis add_gr_0 mod_add_left_eq oc_fold_mod)
  also have "\<dots> \<longleftrightarrow> f + c = 65535 \<or> f + c = 131070"
  proof
    assume "(f + c) mod 65535 = 0"
    then obtain k where k: "f + c = 65535 * k" by (auto simp: mod_eq_0_iff_dvd elim: dvdE)
    with f assms(1,2) have "65535 * k \<le> 131070" "0 < k" by (auto intro: gr0I)
    then have "k = 1 \<or> k = 2" by linarith
    with k show "f + c = 65535 \<or> f + c = 131070" by auto
  qed auto
  also have "\<dots> \<longleftrightarrow> c = (if f = 65535 then 65535 else 65535 - f)"
    using f assms(1,2) by auto
  finally show ?thesis .
qed

section \<open>The checksum of an IP header\<close>

text \<open>
  \<open>iphdr->ip_sum = 0; iphdr->ip_sum = cksum(iphdr, sizeof(sr_ip_hdr_t));\<close> as every sender of the
  router writes it.
\<close>

definition set_ip_cksum :: "sr_ip_hdr \<Rightarrow> sr_ip_hdr" where
  "set_ip_cksum h = h\<lparr>ip_sum := cksum (enc_ip (h\<lparr>ip_sum := 0\<rparr>))\<rparr>"

lemma set_ip_cksum_sels [simp]:
  "ip_hl (set_ip_cksum h) = ip_hl h" "ip_v (set_ip_cksum h) = ip_v h"
  "ip_tos (set_ip_cksum h) = ip_tos h" "ip_len (set_ip_cksum h) = ip_len h"
  "ip_id (set_ip_cksum h) = ip_id h" "ip_off (set_ip_cksum h) = ip_off h"
  "ip_ttl (set_ip_cksum h) = ip_ttl h" "ip_p (set_ip_cksum h) = ip_p h"
  "ip_src (set_ip_cksum h) = ip_src h" "ip_dst (set_ip_cksum h) = ip_dst h"
  "ip_sum (set_ip_cksum h) = cksum (enc_ip (h\<lparr>ip_sum := 0\<rparr>))"
  by (simp_all add: set_ip_cksum_def)

lemma cksum_nonzero [simp]: "cksum data \<noteq> 0"
  by (simp add: cksum_def Let_def)

lemma rfc_sum_enc_ip:
  "rfc_sum (enc_ip h) = rfc_sum (enc_ip (h\<lparr>ip_sum := 0\<rparr>)) + unat (ntohs (ip_sum h))"
  by (simp add: enc_ip_def le16_def le32_def ntohs_def unat_htons)

lemma rfc_sum_enc_ip_bound: "rfc_sum (enc_ip h) < 2 ^ 32"
  using rfc_sum_bound [of "enc_ip h"] by (simp add: ip.length_enc sizeof_ip_def)

lemma unat_ntohs_eq_0 [simp]: "unat (ntohs w) = 0 \<longleftrightarrow> w = 0"
  by (metis htons_htons ntohs_def unat_eq_0 unat_0 htons_def push_bit_of_0 drop_bit_of_0 or.right_neutral)

text \<open>Any data with its checksum added to the sum is accepted.\<close>

lemma cksum_completes:
  assumes "rfc_sum data < 2 ^ 32"
  shows "oc_fold (rfc_sum data + unat (ntohs (cksum data))) = 65535"
proof -
  have "0 < unat (ntohs (cksum data))" "unat (ntohs (cksum data)) \<le> 65535"
    using unat_ntohs_eq_0 [of "cksum data"] unat_u16_le by (simp_all del: unat_ntohs_eq_0)
  then show ?thesis
    using complement_unique [OF _ _ refl, of "unat (ntohs (cksum data))" "rfc_sum data"]
      unat_ntohs_cksum [OF assms] by simp
qed

text \<open>What the recomputation in \<open>validate_checksum\<close> accepts, for any header.\<close>

lemma ip_cksum_iff_rfc1071:
  "cksum (enc_ip (h\<lparr>ip_sum := 0\<rparr>)) = ip_sum h \<longleftrightarrow> rfc1071_valid (enc_ip h) \<and> ip_sum h \<noteq> 0"
proof (cases "ip_sum h = 0")
  case False
  let ?z = "enc_ip (h\<lparr>ip_sum := 0\<rparr>)" and ?c = "unat (ntohs (ip_sum h))"
  have c: "0 < ?c" "?c \<le> 65535"
    using False unat_ntohs_eq_0 [of "ip_sum h"] unat_u16_le [of "ntohs (ip_sum h)"]
    by (simp_all del: unat_ntohs_eq_0)
  have "rfc1071_valid (enc_ip h) \<longleftrightarrow> oc_fold (rfc_sum ?z + ?c) = 65535"
    unfolding rfc1071_valid_def by (simp only: rfc_sum_enc_ip [of h])
  also have "\<dots> \<longleftrightarrow> ?c = unat (ntohs (cksum ?z))"
    unfolding unat_ntohs_cksum [OF rfc_sum_enc_ip_bound] by (rule complement_unique [OF c refl])
  also have "\<dots> \<longleftrightarrow> cksum ?z = ip_sum h"
    by (auto simp: ntohs_def dest: word_unat_eq_iff [THEN iffD2])
  finally show ?thesis using False by simp
qed simp

lemma rfc1071_set_ip_cksum: "rfc1071_valid (enc_ip (set_ip_cksum h))"
  using ip_cksum_iff_rfc1071 [of "set_ip_cksum h"] by (simp add: set_ip_cksum_def)

section \<open>Field readers and printers\<close>

definition ethertype :: "bytes \<Rightarrow> u16 res" where
  "ethertype buf = rbind (ld_eth buf) (\<lambda>ehdr. Inr (ntohs (ether_type ehdr)))"

definition ip_protocol :: "bytes \<Rightarrow> u8 res" where
  "ip_protocol buf = rbind (ld dec_ip sizeof_ip buf 0) (\<lambda>iphdr. Inr (ip_p iphdr))"

text \<open>
  The printers write to \<open>stderr\<close>; the model returns what they print, one item per value: a label
  and a number, a label and a dotted or coloned address, or a message.
\<close>

datatype out = Num string nat | Octets string "nat list" | Msg string

definition print_addr_eth :: "mac \<Rightarrow> nat list" where
  "print_addr_eth addr = map unat (enc_mac addr)"

definition print_addr_ip_int :: "u32 \<Rightarrow> nat list" where
  "print_addr_ip_int ip =
     [unat (drop_bit 24 ip), unat (drop_bit 24 (push_bit 8 ip)),
      unat (drop_bit 24 (push_bit 16 ip)), unat (drop_bit 24 (push_bit 24 ip))]"

definition print_hdr_eth :: "bytes \<Rightarrow> out list res" where
  "print_hdr_eth buf = rbind (ld_eth buf) (\<lambda>ehdr. Inr
     [Msg ''ETHERNET header:'',
      Octets ''destination'' (print_addr_eth (ether_dhost ehdr)),
      Octets ''source'' (print_addr_eth (ether_shost ehdr)),
      Num ''type'' (unat (ntohs (ether_type ehdr)))])"

definition print_hdr_ip :: "bytes \<Rightarrow> out list res" where
  "print_hdr_ip buf = rbind (ld dec_ip sizeof_ip buf 0) (\<lambda>iphdr. Inr
     ([Msg ''IP header:'',
       Num ''version'' (unat (ip_v iphdr)), Num ''header length'' (unat (ip_hl iphdr)),
       Num ''type of service'' (unat (ip_tos iphdr)), Num ''length'' (unat (ntohs (ip_len iphdr))),
       Num ''id'' (unat (ntohs (ip_id iphdr)))]
      @ (if ntohs (ip_off iphdr) AND IP_DF \<noteq> 0 then [Msg ''fragment flag: DF'']
         else if ntohs (ip_off iphdr) AND IP_MF \<noteq> 0 then [Msg ''fragment flag: MF'']
         else if ntohs (ip_off iphdr) AND IP_RF \<noteq> 0 then [Msg ''fragment flag: R'']
         else [])
      @ [Num ''fragment offset'' (unat (ntohs (ip_off iphdr) AND IP_OFFMASK)),
         Num ''TTL'' (unat (ip_ttl iphdr)), Num ''protocol'' (unat (ip_p iphdr)),
         Num ''checksum'' (unat (ip_sum iphdr)),
         Octets ''source'' (print_addr_ip_int (ntohl (ip_src iphdr))),
         Octets ''destination'' (print_addr_ip_int (ntohl (ip_dst iphdr)))]))"

definition print_hdr_icmp :: "bytes \<Rightarrow> out list res" where
  "print_hdr_icmp buf = rbind (ld dec_icmp sizeof_icmp buf 0) (\<lambda>icmp_hdr. Inr
     [Msg ''ICMP header:'', Num ''type'' (unat (icmp_type icmp_hdr)),
      Num ''code'' (unat (icmp_code icmp_hdr)), Num ''checksum'' (unat (icmp_sum icmp_hdr))])"

definition print_hdr_arp :: "bytes \<Rightarrow> out list res" where
  "print_hdr_arp buf = rbind (ld dec_arp sizeof_arp buf 0) (\<lambda>arp_hdr. Inr
     [Msg ''ARP header'', Num ''hardware type'' (unat (ntohs (ar_hrd arp_hdr))),
      Num ''protocol type'' (unat (ntohs (ar_pro arp_hdr))),
      Num ''hardware address length'' (unat (ar_hln arp_hdr)),
      Num ''protocol address length'' (unat (ar_pln arp_hdr)),
      Num ''opcode'' (unat (ntohs (ar_op arp_hdr))),
      Octets ''sender hardware address'' (print_addr_eth (ar_sha arp_hdr)),
      Octets ''sender ip address'' (print_addr_ip_int (ntohl (ar_sip arp_hdr))),
      Octets ''target hardware address'' (print_addr_eth (ar_tha arp_hdr)),
      Octets ''target ip address'' (print_addr_ip_int (ntohl (ar_tip arp_hdr)))])"

definition print_hdrs :: "bytes \<Rightarrow> u32 \<Rightarrow> out list res" where
  "print_hdrs buf len =
     (if unat len < sizeof_eth
      then Inr [Msg ''Failed to print ETHERNET header, insufficient length'']
      else rbind (ethertype buf) (\<lambda>ethtype.
        rbind (print_hdr_eth buf) (\<lambda>eth.
        if ethtype = ethertype_ip then
          if unat len < sizeof_eth + sizeof_ip
          then Inr (eth @ [Msg ''Failed to print IP header, insufficient length''])
          else rbind (print_hdr_ip (drop sizeof_eth buf)) (\<lambda>ip.
            rbind (ip_protocol (drop sizeof_eth buf)) (\<lambda>ip_proto.
            if ip_proto = ip_protocol_icmp then
              if unat len < sizeof_eth + sizeof_ip + sizeof_icmp
              then Inr (eth @ ip @ [Msg ''Failed to print ICMP header, insufficient length''])
              else rbind (print_hdr_icmp (drop (sizeof_eth + sizeof_ip) buf)) (\<lambda>icmp.
                Inr (eth @ ip @ icmp))
            else Inr (eth @ ip)))
        else if ethtype = ethertype_arp then
          if unat len < sizeof_eth + sizeof_arp
          then Inr (eth @ [Msg ''Failed to print ARP header, insufficient length''])
          else rbind (print_hdr_arp (drop sizeof_eth buf)) (\<lambda>arp. Inr (eth @ arp))
        else Inr (eth @ [Num ''Unrecognized Ethernet Type'' (unat ethtype)]))))"

lemma ethertype_ok:
  "sizeof_eth \<le> length buf \<Longrightarrow> ethertype buf = Inr (ntohs (ether_type (dec_eth (take sizeof_eth buf))))"
  by (simp add: ethertype_def eth.ld_ok)

lemma ethertype_oob: "length buf < sizeof_eth \<Longrightarrow> ethertype buf = Inl OutOfBounds"
  by (simp add: ethertype_def eth.ld_oob)

text \<open>
  The printers never read past the length they are given, so the calls to them in the handlers
  cannot fault: this is why the handlers' models leave them out.
\<close>

lemma print_hdrs_total:
  assumes "unat len \<le> length buf"
  shows "\<exists>out. print_hdrs buf len = Inr out"
  using assms
  by (auto simp: print_hdrs_def ethertype_def ip_protocol_def print_hdr_eth_def print_hdr_ip_def
      print_hdr_icmp_def print_hdr_arp_def rbind_def ld_def rd_def sizeof_defs)

section \<open>Properties\<close>

text \<open>C25: the value of \<open>cksum\<close> on up to 131072 bytes is the ones' complement of the RFC 1071 sum of the
  data's big-endian half-words, in network order, with 0 replaced by 0xFFFF; the 32-bit accumulator
  does not overflow.\<close>

theorem cksum_is_rfc1071:
  assumes "length data \<le> 131072"
  shows "unat (ntohs (cksum data)) =
    (if oc_fold (rfc_sum data) = 65535 then 65535 else 65535 - oc_fold (rfc_sum data))"
proof (rule unat_ntohs_cksum)
  have "(length data + 1) div 2 \<le> 65536" using assms by simp
  then have "rfc_sum data \<le> 65535 * 65536"
    using rfc_sum_bound [of data] by linarith
  then show "rfc_sum data < 2 ^ 32" by simp
qed

theorem cksum_is_rfc1071_witness:
  "unat (ntohs (cksum [69, 0, 0, 20])) = 47851"
proof -
  have "oc_fold (rfc_sum [69, 0, 0, 20]) = 17684" by (simp add: oc_fold_def)
  then show ?thesis using cksum_is_rfc1071 [of "[69, 0, 0, 20]"] by simp
qed

text \<open>After the router recomputes the checksum of an IP header, a receiver that follows RFC 1071
  accepts the header, and no other field has changed.\<close>

theorem recomputed_header_valid:
  "rfc1071_valid (enc_ip (set_ip_cksum h)) \<and> (set_ip_cksum h)\<lparr>ip_sum := ip_sum h\<rparr> = h"
  by (simp add: rfc1071_set_ip_cksum)

text \<open>the header printer the handlers call on every frame reads no byte past the length it is
  given, whatever the headers say.\<close>

theorem print_hdrs_in_bounds:
  assumes "unat len \<le> length buf"
  shows "print_hdrs buf len \<noteq> Inl e"
  using print_hdrs_total [OF assms] by auto

theorem print_hdrs_in_bounds_witness: "print_hdrs [1, 2, 3] 3 \<noteq> Inl OutOfBounds"
  by (rule print_hdrs_in_bounds) simp

text \<open>An address in network order is printed as its four bytes in the order they are sent.\<close>

theorem printed_address: "print_addr_ip_int (ntohl (of_le32 a b c d)) = map unat [a, b, c, d]"
proof -
  have "drop_bit 24 (of_le32 d c b a) = ucast a"
    "drop_bit 24 (push_bit 8 (of_le32 d c b a)) = ucast b"
    "drop_bit 24 (push_bit 16 (of_le32 d c b a)) = ucast c"
    "drop_bit 24 (push_bit 24 (of_le32 d c b a)) = ucast d"
    by (rule bit_word_eqI; auto simp: of_le32_def bit_simps dest: bit_u8_D)+
  then show ?thesis by (simp add: print_addr_ip_int_def ntohl_def htonl_of_le32)
qed

end
