(* ===== verification/Sr_Types.thy ===== *)
theory Sr_Types
  imports Sr_Utils
begin

text \<open>
  The router's data: the structs of \<open>sr_if.h\<close>, \<open>sr_rt.h\<close>, \<open>sr_arpcache.h\<close> and \<open>sr_router.h\<close>, and the
  environment a handler runs in. A linked list is the list of its nodes in \<open>next\<close> order. A node
  whose address the code keeps (an ARP request) carries that address as \<open>rq_id\<close>.
\<close>

record sr_if =
  if_name :: bytes
  if_addr :: mac
  if_ip :: u32
  if_speed :: u32

record sr_rt =
  rt_dest :: u32
  rt_gw :: u32
  rt_mask :: u32
  rt_interface :: bytes

definition SR_ARPCACHE_SZ :: nat where "SR_ARPCACHE_SZ = 100"
definition SR_ARPCACHE_TO :: int where "SR_ARPCACHE_TO = 15"

record sr_packet =
  pk_buf :: bytes
  pk_len :: u32
  pk_iface :: bytes

text \<open>\<open>valid\<close> is an \<open>int\<close> used as a truth value; \<open>time_t\<close> is seconds as an integer.\<close>

record sr_arpentry =
  ae_mac :: mac
  ae_ip :: u32
  ae_added :: int
  ae_valid :: bool

record sr_arpreq =
  rq_id :: nat
  rq_ip :: u32
  rq_sent :: int
  rq_times_sent :: u32
  rq_packets :: "sr_packet list"

text \<open>
  \<open>brk\<close> is the address the next request node gets: \<open>malloc\<close> returns a block different from every
  live one, and the model never reuses an address.
\<close>

record sr_arpcache =
  entries :: "sr_arpentry list"
  requests :: "sr_arpreq list"
  brk :: nat

text \<open>
  \<open>wire\<close> is what has been written to \<open>sockfd\<close>, one byte string for each \<open>write\<close>; \<open>logfile\<close> is the
  contents of the packet log, when one is open.
\<close>

record sr_instance =
  user :: bytes
  host :: bytes
  template :: bytes
  topo_id :: u16
  if_list :: "sr_if list"
  routing_table :: "sr_rt list"
  cache :: sr_arpcache
  logfile :: "bytes option"
  wire :: "bytes list"

text \<open>
  What a handler's run takes from outside the program: the clock (\<open>time\<close> and \<open>gettimeofday\<close>, read
  once a run), the bytes \<open>malloc\<close> leaves in the one header field the code never writes, the value of
  the field \<open>ip_dst\<close> found by following an integer used as a pointer to an IP header (\<open>None\<close> when
  nothing is mapped there), and how many bytes \<open>write\<close> takes of a message (\<open>-1\<close> for an error).
\<close>

record env =
  now :: int
  tv :: "u32 \<times> u32"
  junk_mtu :: u16
  peek :: "u32 \<Rightarrow> u32 option"
  sock_write :: "bytes \<Rightarrow> int"

end
