(* ===== verification/Sr_Example.thy ===== *)
theory Sr_Example
  imports Sr_Types
begin

text \<open>
  A small router on which the theorems are instantiated: two interfaces, a host route behind each,
  an empty ARP cache. Frames are given as the bytes that arrive.
\<close>

definition ex_if1 :: sr_if where
  "ex_if1 = \<lparr> if_name = [101, 116, 104, 49], if_addr = Mac 2 0 0 0 0 1,
              if_ip = of_le32 10 0 1 1, if_speed = 0 \<rparr>"

definition ex_if2 :: sr_if where
  "ex_if2 = \<lparr> if_name = [101, 116, 104, 50], if_addr = Mac 2 0 0 0 0 2,
              if_ip = of_le32 10 0 2 1, if_speed = 0 \<rparr>"

definition ex_rt1 :: sr_rt where
  "ex_rt1 = \<lparr> rt_dest = of_le32 10 0 1 2, rt_gw = of_le32 10 0 1 2, rt_mask = 0xFFFFFFFF,
              rt_interface = [101, 116, 104, 49] \<rparr>"

definition ex_rt2 :: sr_rt where
  "ex_rt2 = \<lparr> rt_dest = of_le32 10 0 2 2, rt_gw = of_le32 10 0 2 2, rt_mask = 0xFFFFFFFF,
              rt_interface = [101, 116, 104, 50] \<rparr>"

definition ex_free :: sr_arpentry where
  "ex_free = \<lparr> ae_mac = 0, ae_ip = 0, ae_added = 0, ae_valid = False \<rparr>"

definition ex_cache :: sr_arpcache where
  "ex_cache = \<lparr> entries = replicate 100 ex_free, requests = [], brk = 0 \<rparr>"

definition ex_router :: sr_instance where
  "ex_router = \<lparr> user = 117 # replicate 31 0, host = 104 # replicate 31 0, template = replicate 30 0, topo_id = 1,
     if_list = [ex_if1, ex_if2], routing_table = [ex_rt1, ex_rt2], cache = ex_cache,
     logfile = None, wire = [] \<rparr>"

text \<open>At second 100, with nothing mapped at small addresses and a socket that takes everything.\<close>

definition ex_env :: env where
  "ex_env = \<lparr> now = 100, tv = (0, 0), junk_mtu = 0, peek = (\<lambda>_. None),
              sock_write = (\<lambda>m. int (length m)) \<rparr>"

text \<open>The neighbour 10.0.2.2 in the first entry of the cache.\<close>

definition ex_entry :: sr_arpentry where
  "ex_entry = \<lparr> ae_mac = Mac 2 0 0 0 0 8, ae_ip = of_le32 10 0 2 2, ae_added = 95, ae_valid = True \<rparr>"

definition ex_router_arp :: sr_instance where
  "ex_router_arp = ex_router\<lparr>cache := ex_cache\<lparr>entries := ex_entry # replicate 99 ex_free\<rparr>\<rparr>"

text \<open>A UDP packet from 10.0.1.2 to 10.0.2.2, TTL 64, with 0 bytes of data.\<close>

definition ex_udp :: bytes where
  "ex_udp = [2, 0, 0, 0, 0, 1, 2, 0, 0, 0, 0, 9, 8, 0,
     69, 0, 0, 20, 0, 1, 0, 0, 64, 17, 99, 213, 10, 0, 1, 2, 10, 0, 2, 2]"

text \<open>The same packet waiting for the address of 10.0.2.2.\<close>

definition ex_waiting :: sr_packet where
  "ex_waiting = \<lparr> pk_buf = ex_udp, pk_len = 34, pk_iface = [101, 116, 104, 49] @ replicate 28 0 \<rparr>"

definition ex_request :: "int \<Rightarrow> u32 \<Rightarrow> sr_packet list \<Rightarrow> sr_arpreq" where
  "ex_request t n ps = \<lparr> rq_id = 0, rq_ip = of_le32 10 0 2 2, rq_sent = t, rq_times_sent = n,
                         rq_packets = ps \<rparr>"

definition ex_router_req :: "int \<Rightarrow> u32 \<Rightarrow> sr_packet list \<Rightarrow> sr_instance" where
  "ex_router_req t n ps = ex_router\<lparr>cache := ex_cache\<lparr>requests := [ex_request t n ps], brk := 1\<rparr>\<rparr>"

text \<open>An ARP request for 10.0.1.1 from 10.0.1.2, and the ARP reply of 10.0.2.2 to the router.\<close>

definition ex_arp_request :: bytes where
  "ex_arp_request = [255, 255, 255, 255, 255, 255, 2, 0, 0, 0, 0, 9, 8, 6,
     0, 1, 8, 0, 6, 4, 0, 1, 2, 0, 0, 0, 0, 9, 10, 0, 1, 2, 0, 0, 0, 0, 0, 0, 10, 0, 1, 1]"

definition ex_arp_reply :: bytes where
  "ex_arp_reply = [2, 0, 0, 0, 0, 2, 2, 0, 0, 0, 0, 8, 8, 6,
     0, 1, 8, 0, 6, 4, 0, 2, 2, 0, 0, 0, 0, 8, 10, 0, 2, 2, 2, 0, 0, 0, 0, 2, 10, 0, 2, 1]"

text \<open>An ICMP echo request from 10.0.1.2 to 10.0.1.1, with 4 bytes after the ICMP header.\<close>

definition ex_echo :: bytes where
  "ex_echo = [2, 0, 0, 0, 0, 1, 2, 0, 0, 0, 0, 9, 8, 0,
     69, 0, 0, 28, 0, 1, 0, 0, 64, 1, 100, 222, 10, 0, 1, 2, 10, 0, 1, 1,
     8, 0, 247, 253, 0, 1, 0, 1]"

text \<open>A UDP packet from 10.0.1.2 to 10.0.2.2 with TTL 1 and an 8-byte UDP header.\<close>

definition ex_ttl1 :: bytes where
  "ex_ttl1 = [2, 0, 0, 0, 0, 1, 2, 0, 0, 0, 0, 9, 8, 0,
     69, 0, 0, 28, 0, 1, 0, 0, 1, 17, 162, 205, 10, 0, 1, 2, 10, 0, 2, 2,
     0, 7, 0, 7, 0, 8, 0, 0]"

end
