(* ===== verification/Sr_If.thy ===== *)
theory Sr_If
  imports Sr_Example
begin

text \<open>
  \<open>sr_if.c\<close>: the interface list. Interfaces are added at the end by the hardware information of the
  server and found by name; the two setters write the last interface.
\<close>

definition sr_get_interface :: "sr_instance \<Rightarrow> bytes \<Rightarrow> sr_if option" where
  "sr_get_interface sr name =
     find (\<lambda>if_walker. c_strncmp_eq sr_IFACE_NAMELEN (if_name if_walker) name) (if_list sr)"

text \<open>\<open>fresh\<close> is the contents of the block \<open>malloc\<close> returns; only its name is written.\<close>

definition sr_add_interface :: "sr_if \<Rightarrow> sr_instance \<Rightarrow> bytes \<Rightarrow> sr_instance" where
  "sr_add_interface fresh sr name =
     (let new = fresh\<lparr>if_name := c_strncpy sr_IFACE_NAMELEN name\<rparr>
      in case if_list sr of
           [] \<Rightarrow> sr\<lparr>if_list := [new]\<rparr>
         | _ # _ \<Rightarrow> sr\<lparr>if_list := if_list sr @ [new]\<rparr>)"

definition sr_set_ether_addr :: "sr_instance \<Rightarrow> mac \<Rightarrow> sr_instance res" where
  "sr_set_ether_addr sr addr =
     (case if_list sr of
        [] \<Rightarrow> Inl AssertFailed
      | l \<Rightarrow> Inr (sr\<lparr>if_list := butlast l @ [(last l)\<lparr>if_addr := addr\<rparr>]\<rparr>))"

definition sr_set_ether_ip :: "sr_instance \<Rightarrow> u32 \<Rightarrow> sr_instance res" where
  "sr_set_ether_ip sr ip_nbo =
     (case if_list sr of
        [] \<Rightarrow> Inl AssertFailed
      | l \<Rightarrow> Inr (sr\<lparr>if_list := butlast l @ [(last l)\<lparr>if_ip := ip_nbo\<rparr>]\<rparr>))"

text \<open>The list printers: name, hardware address and IP address of every interface, in order.\<close>

definition sr_print_if :: "sr_if \<Rightarrow> bytes \<times> nat list \<times> nat list" where
  "sr_print_if iface = (cstr (if_name iface), print_addr_eth (if_addr iface),
     print_addr_ip_int (ntohl (if_ip iface)))"

definition sr_print_if_list :: "sr_instance \<Rightarrow> (bytes \<times> nat list \<times> nat list) list" where
  "sr_print_if_list sr = (case if_list sr of [] \<Rightarrow> [] | l \<Rightarrow> map sr_print_if l)"

lemma sr_add_interface_list:
  "if_list (sr_add_interface fresh sr name)
     = if_list sr @ [fresh\<lparr>if_name := c_strncpy sr_IFACE_NAMELEN name\<rparr>]"
  by (simp add: sr_add_interface_def Let_def split: list.split)

lemma sr_get_interface_Some:
  "sr_get_interface sr name = Some i \<Longrightarrow>
   i \<in> set (if_list sr) \<and> c_strncmp_eq sr_IFACE_NAMELEN (if_name i) name"
  unfolding sr_get_interface_def by (drule find_Some_iff_set) simp

text \<open>Looking up the name an interface already has finds the same interface.\<close>

lemma sr_get_interface_own_name:
  assumes "sr_get_interface sr name = Some i"
  shows "sr_get_interface sr (if_name i) = Some i"
proof -
  from sr_get_interface_Some [OF assms] have "c_strncmp_eq sr_IFACE_NAMELEN (if_name i) name" by simp
  then have "find (\<lambda>w. c_strncmp_eq sr_IFACE_NAMELEN (if_name w) (if_name i)) (if_list sr)
      = find (\<lambda>w. c_strncmp_eq sr_IFACE_NAMELEN (if_name w) name) (if_list sr)"
    by (auto simp: c_strncmp_eq_def)
  then show ?thesis using assms by (simp add: sr_get_interface_def)
qed

lemma sr_get_interface_cong:
  "if_list sr' = if_list sr \<Longrightarrow> sr_get_interface sr' = sr_get_interface sr"
  by (simp add: sr_get_interface_def fun_eq_iff)

text \<open>Configuring an interface: add it, then set its address and its IP.\<close>

definition configure :: "sr_if \<Rightarrow> sr_instance \<Rightarrow> bytes \<Rightarrow> mac \<Rightarrow> u32 \<Rightarrow> sr_instance res" where
  "configure fresh sr name addr ip =
     rbind (sr_set_ether_addr (sr_add_interface fresh sr name) addr) (\<lambda>sr.
     sr_set_ether_ip sr ip)"

section \<open>Property\<close>

text \<open>After the calls the server's hardware information makes for a new interface, a lookup by
  its name finds it with both its addresses, and every interface that was found before still is.\<close>

theorem configured_interface_found:
  assumes "sr_get_interface sr name = None"
  shows "\<exists>sr'. configure fresh sr name addr ip = Inr sr'
    \<and> (\<exists>i. sr_get_interface sr' name = Some i \<and> if_addr i = addr \<and> if_ip i = ip)
    \<and> (\<forall>n j. sr_get_interface sr n = Some j \<longrightarrow> sr_get_interface sr' n = Some j)"
proof -
  let ?i = "fresh\<lparr>if_name := c_strncpy sr_IFACE_NAMELEN name, if_addr := addr, if_ip := ip\<rparr>"
  have c: "configure fresh sr name addr ip = Inr (sr\<lparr>if_list := if_list sr @ [?i]\<rparr>)"
    by (cases "if_list sr")
      (simp_all add: configure_def sr_set_ether_addr_def sr_set_ether_ip_def sr_add_interface_def
        Let_def)
  have "sr_get_interface (sr\<lparr>if_list := if_list sr @ [?i]\<rparr>) name = Some ?i"
    using assms by (simp add: sr_get_interface_def find_append)
  with c show ?thesis
    by (auto simp: sr_get_interface_def find_append)
qed

theorem configured_interface_found_witness:
  "\<exists>sr'. configure ex_if1 ex_router [101, 116, 104, 51] (Mac 2 0 0 0 0 3) 7 = Inr sr'"
proof -
  have "sr_get_interface ex_router [101, 116, 104, 51] = None" by code_simp
  from configured_interface_found [OF this, of ex_if1 "Mac 2 0 0 0 0 3" 7] show ?thesis by blast
qed

end
