(* ===== verification/Sr_Rt.thy ===== *)
theory Sr_Rt
  imports Sr_If
begin

text \<open>
  The routing table: \<open>sr_add_rt_entry\<close> of \<open>sr_rt.c\<close>, the lookup \<open>longest_prefix_sum\<close> of \<open>sr_ip.c\<close> and
  the consistency check \<open>sr_verify_routing_table\<close> of \<open>sr_main.c\<close>. The lookup is compared with
  longest-prefix matching, which its name and the README promise.
\<close>

definition sr_add_rt_entry :: "sr_instance \<Rightarrow> u32 \<Rightarrow> u32 \<Rightarrow> u32 \<Rightarrow> bytes \<Rightarrow> sr_instance" where
  "sr_add_rt_entry sr dest gw msk name =
     (let new = \<lparr> rt_dest = dest, rt_gw = gw, rt_mask = msk,
                  rt_interface = c_strncpy sr_IFACE_NAMELEN name \<rparr>
      in case routing_table sr of
           [] \<Rightarrow> sr\<lparr>routing_table := [new]\<rparr>
         | _ # _ \<Rightarrow> sr\<lparr>routing_table := routing_table sr @ [new]\<rparr>)"

text \<open>The walk tests every node but the last in its loop, and the last after it.\<close>

fun lps_walk :: "u32 \<Rightarrow> sr_rt list \<Rightarrow> sr_rt option" where
  "lps_walk addr [] = None"
| "lps_walk addr [r] = (if addr = rt_dest r then Some r else None)"
| "lps_walk addr (r # r' # rs) = (if addr = rt_dest r then Some r else lps_walk addr (r' # rs))"

definition longest_prefix_sum :: "sr_instance \<Rightarrow> u32 \<Rightarrow> sr_rt option" where
  "longest_prefix_sum sr dst = lps_walk dst (routing_table sr)"

text \<open>What \<open>print_routing_dest_address\<close> prints, and the printers of \<open>sr_rt.c\<close>.\<close>

definition print_routing_dest_address :: "sr_instance \<Rightarrow> nat list list" where
  "print_routing_dest_address sr =
     map (\<lambda>r. print_addr_ip_int (ntohl (rt_dest r))) (routing_table sr)"

definition sr_print_routing_entry :: "sr_rt \<Rightarrow> nat list \<times> nat list \<times> nat list \<times> bytes" where
  "sr_print_routing_entry e =
     (print_addr_ip_int (ntohl (rt_dest e)), print_addr_ip_int (ntohl (rt_gw e)),
      print_addr_ip_int (ntohl (rt_mask e)), cstr (rt_interface e))"

definition sr_print_routing_table ::
    "sr_instance \<Rightarrow> (nat list \<times> nat list \<times> nat list \<times> bytes) list" where
  "sr_print_routing_table sr =
     (case routing_table sr of [] \<Rightarrow> [] | l \<Rightarrow> map sr_print_routing_entry l)"

text \<open>The number of routes whose interface does not exist; 999 when either list is empty.\<close>

fun verify_walk :: "sr_instance \<Rightarrow> sr_rt list \<Rightarrow> nat" where
  "verify_walk sr [] = 0"
| "verify_walk sr (r # rs) =
     (case find (\<lambda>i. c_strncmp_eq sr_IFACE_NAMELEN (if_name i) (rt_interface r)) (if_list sr) of
        None \<Rightarrow> Suc (verify_walk sr rs)
      | Some _ \<Rightarrow> verify_walk sr rs)"

definition sr_verify_routing_table :: "sr_instance \<Rightarrow> nat" where
  "sr_verify_routing_table sr =
     (if if_list sr = [] \<or> routing_table sr = [] then 999 else verify_walk sr (routing_table sr))"

section \<open>The lookup\<close>

lemma lps_walk_find: "lps_walk a rs = find (\<lambda>r. rt_dest r = a) rs"
  by (induction a rs rule: lps_walk.induct) auto

lemma longest_prefix_sum_find: "longest_prefix_sum sr a = find (\<lambda>r. rt_dest r = a) (routing_table sr)"
  by (simp add: longest_prefix_sum_def lps_walk_find)

lemma longest_prefix_sum_Some:
  "longest_prefix_sum sr a = Some r \<Longrightarrow> r \<in> set (routing_table sr) \<and> rt_dest r = a"
  unfolding longest_prefix_sum_find by (drule find_Some_iff_set) simp

lemma longest_prefix_sum_None:
  "longest_prefix_sum sr a = None \<longleftrightarrow> (\<forall>r\<in>set (routing_table sr). rt_dest r \<noteq> a)"
  by (auto simp: longest_prefix_sum_find find_None_iff)

lemma longest_prefix_sum_cong:
  "routing_table sr' = routing_table sr \<Longrightarrow> longest_prefix_sum sr' = longest_prefix_sum sr"
  by (simp add: longest_prefix_sum_def fun_eq_iff)

text \<open>
  Longest-prefix matching: among the routes that agree with the destination on the bits of their
  mask, one with the largest mask (in host order).
\<close>

definition route_matches :: "u32 \<Rightarrow> sr_rt \<Rightarrow> bool" where
  "route_matches a r \<longleftrightarrow> a AND rt_mask r = rt_dest r AND rt_mask r"

definition is_lpm :: "sr_rt list \<Rightarrow> u32 \<Rightarrow> sr_rt \<Rightarrow> bool" where
  "is_lpm rt a r \<longleftrightarrow> r \<in> set rt \<and> route_matches a r
     \<and> (\<forall>r'\<in>set rt. route_matches a r' \<longrightarrow> ntohl (rt_mask r') \<le> ntohl (rt_mask r))"

definition host_routes :: "sr_rt list \<Rightarrow> bool" where
  "host_routes rt \<longleftrightarrow> (\<forall>r\<in>set rt. rt_mask r = 0xFFFFFFFF)"

lemma route_matches_host: "rt_mask r = 0xFFFFFFFF \<Longrightarrow> route_matches a r \<longleftrightarrow> a = rt_dest r"
proof -
  assume "rt_mask r = 0xFFFFFFFF"
  then have "rt_mask r = - 1" by simp
  then show ?thesis by (simp add: route_matches_def)
qed

section \<open>The consistency check\<close>

lemma verify_walk_0:
  "verify_walk sr rs = 0 \<longleftrightarrow> (\<forall>r\<in>set rs. sr_get_interface sr (rt_interface r) \<noteq> None)"
  by (induction rs) (auto simp: sr_get_interface_def split: option.splits)

lemma verify_walk_count:
  "verify_walk sr rs = length (filter (\<lambda>r. sr_get_interface sr (rt_interface r) = None) rs)"
  by (induction rs) (auto simp: sr_get_interface_def split: option.splits)

text \<open>Every route leads to an interface: what a run past the check can rely on.\<close>

definition routes_ok :: "sr_instance \<Rightarrow> bool" where
  "routes_ok sr \<longleftrightarrow> (\<forall>r\<in>set (routing_table sr). sr_get_interface sr (rt_interface r) \<noteq> None)"

lemma sr_verify_routing_table_0: "sr_verify_routing_table sr = 0 \<Longrightarrow> routes_ok sr"
  by (auto simp: sr_verify_routing_table_def routes_ok_def verify_walk_0 split: if_splits)

lemma routes_okD:
  "routes_ok sr \<Longrightarrow> longest_prefix_sum sr a = Some r \<Longrightarrow>
   \<exists>i. sr_get_interface sr (rt_interface r) = Some i"
  by (auto simp: routes_ok_def dest!: longest_prefix_sum_Some)

section \<open>Properties\<close>

text \<open>the routing lookup is exact: it returns the first route whose destination equals the
  packet's, and fails when there is none; masks and gateways play no part.\<close>

theorem lookup_is_exact_match:
  "(longest_prefix_sum sr a = None \<longleftrightarrow> (\<forall>r\<in>set (routing_table sr). rt_dest r \<noteq> a))
   \<and> (longest_prefix_sum sr a = Some r \<longleftrightarrow>
        (\<exists>i<length (routing_table sr). routing_table sr ! i = r \<and> rt_dest r = a
           \<and> (\<forall>j<i. rt_dest (routing_table sr ! j) \<noteq> a)))"
  by (auto simp: longest_prefix_sum_find find_Some_iff find_None_iff)

theorem lookup_is_exact_match_witness: "longest_prefix_sum ex_router (of_le32 10 0 2 2) = Some ex_rt2"
proof -
  have "1 < length (routing_table ex_router) \<and> routing_table ex_router ! 1 = ex_rt2
    \<and> rt_dest ex_rt2 = of_le32 10 0 2 2
    \<and> (\<forall>j<1. rt_dest (routing_table ex_router ! j) \<noteq> of_le32 10 0 2 2)" by code_simp
  then show ?thesis
    using lookup_is_exact_match [of ex_router "of_le32 10 0 2 2" ex_rt2] by blast
qed

text \<open>C40: for a table of host routes the lookup is longest-prefix matching: it finds a longest match
  when one exists and fails only when no route matches.\<close>

theorem lookup_is_lpm_on_host_routes:
  assumes "host_routes (routing_table sr)"
  shows "(\<forall>r. longest_prefix_sum sr a = Some r \<longrightarrow> is_lpm (routing_table sr) a r)
    \<and> (longest_prefix_sum sr a = None \<longrightarrow> (\<forall>r\<in>set (routing_table sr). \<not> route_matches a r))"
  using assms
  by (auto simp: is_lpm_def host_routes_def route_matches_host longest_prefix_sum_None
      dest!: longest_prefix_sum_Some)

theorem lookup_is_lpm_on_host_routes_witness:
  "is_lpm (routing_table ex_router) (of_le32 10 0 2 2) ex_rt2"
proof -
  have "host_routes (routing_table ex_router)" by code_simp
  moreover have "longest_prefix_sum ex_router (of_le32 10 0 2 2) = Some ex_rt2" by code_simp
  ultimately show ?thesis using lookup_is_lpm_on_host_routes [of ex_router "of_le32 10 0 2 2"] by blast
qed

text \<open>A default route is never used: it is the longest match for every address when it is the only
  route, but the lookup finds it for the address 0.0.0.0 alone.\<close>

theorem default_route_ignored:
  assumes "routing_table sr = [r]" "rt_dest r = 0" "rt_mask r = 0" "a \<noteq> 0"
  shows "is_lpm (routing_table sr) a r \<and> longest_prefix_sum sr a = None"
  using assms by (auto simp: is_lpm_def route_matches_def longest_prefix_sum_None)

theorem default_route_ignored_witness:
  "longest_prefix_sum (ex_router\<lparr>routing_table := [ex_rt1\<lparr>rt_dest := 0, rt_mask := 0\<rparr>]\<rparr>) 1 = None"
  using default_route_ignored
    [of "ex_router\<lparr>routing_table := [ex_rt1\<lparr>rt_dest := 0, rt_mask := 0\<rparr>]\<rparr>"
      "ex_rt1\<lparr>rt_dest := 0, rt_mask := 0\<rparr>" 1] by simp

text \<open>The check run when the hardware information arrives counts the routes without an interface;
  it passes exactly when both tables are non-empty and every route has one.\<close>

theorem verify_routing_table_correct:
  "(sr_verify_routing_table sr = 0 \<longleftrightarrow> if_list sr \<noteq> [] \<and> routing_table sr \<noteq> [] \<and> routes_ok sr)
   \<and> (if_list sr = [] \<or> routing_table sr = []
      \<or> sr_verify_routing_table sr =
          length (filter (\<lambda>r. sr_get_interface sr (rt_interface r) = None) (routing_table sr)))"
proof (rule conjI)
  show "sr_verify_routing_table sr = 0 \<longleftrightarrow> if_list sr \<noteq> [] \<and> routing_table sr \<noteq> [] \<and> routes_ok sr"
    by (auto simp: sr_verify_routing_table_def routes_ok_def verify_walk_0)
qed (auto simp: sr_verify_routing_table_def verify_walk_count)

end
