(* ===== verification/Sr_Arpcache.thy ===== *)
theory Sr_Arpcache
  imports Sr_Example
begin

text \<open>
  \<open>sr_arpcache.c\<close>: the ARP cache entries, the request queue and the ageing of the entries, with the
  contracts the forwarding code relies on as two locales: \<open>neighbour_cache\<close> for the entries and
  \<open>pending_queue\<close> for the requests and the packets waiting on them.
\<close>

section \<open>Operations\<close>

text \<open>\<open>memset\<close> of the entries to 0 and an empty queue.\<close>

definition sr_arpcache_init :: "sr_arpcache \<Rightarrow> sr_arpcache" where
  "sr_arpcache_init c = c\<lparr>
     entries := replicate SR_ARPCACHE_SZ \<lparr> ae_mac = 0, ae_ip = 0, ae_added = 0, ae_valid = False \<rparr>,
     requests := [] \<rparr>"

text \<open>The loop does not stop at a match: the last matching entry wins.\<close>

definition sr_arpcache_lookup :: "sr_arpcache \<Rightarrow> u32 \<Rightarrow> sr_arpentry option" where
  "sr_arpcache_lookup c ip =
     foldl (\<lambda>entry e. if ae_valid e \<and> ae_ip e = ip then Some e else entry) None (entries c)"

text \<open>A write through the pointer to the request node at address \<open>a\<close>.\<close>

definition upd_req :: "nat \<Rightarrow> (sr_arpreq \<Rightarrow> sr_arpreq) \<Rightarrow> sr_arpcache \<Rightarrow> sr_arpcache" where
  "upd_req a f c = c\<lparr>requests := map (\<lambda>r. if rq_id r = a then f r else r) (requests c)\<rparr>"

definition get_req :: "nat \<Rightarrow> sr_arpcache \<Rightarrow> sr_arpreq option" where
  "get_req a c = find (\<lambda>r. rq_id r = a) (requests c)"

text \<open>
  A new request is pushed at the front of the queue, a packet at the front of its request's list.
  The address of the request is returned.
\<close>

definition sr_arpcache_queuereq ::
    "sr_arpcache \<Rightarrow> u32 \<Rightarrow> bytes \<Rightarrow> u32 \<Rightarrow> bytes \<Rightarrow> (sr_arpcache \<times> nat) res" where
  "sr_arpcache_queuereq c ip packet packet_len iface =
     (let (c1, a) = (case find (\<lambda>r. rq_ip r = ip) (requests c) of
            Some r \<Rightarrow> (c, rq_id r)
          | None \<Rightarrow>
              (c\<lparr>requests := \<lparr> rq_id = brk c, rq_ip = ip, rq_sent = 0, rq_times_sent = 0,
                               rq_packets = [] \<rparr> # requests c,
                 brk := Suc (brk c)\<rparr>, brk c))
      in if packet_len \<noteq> 0 then
           rbind (rd packet 0 (unat packet_len)) (\<lambda>buf.
           let new_pkt = \<lparr> pk_buf = buf, pk_len = packet_len,
                           pk_iface = c_strncpy sr_IFACE_NAMELEN iface \<rparr>
           in Inr (upd_req a (\<lambda>r. r\<lparr>rq_packets := new_pkt # rq_packets r\<rparr>) c1, a))
         else Inr (c1, a))"

text \<open>Unlinking the first node that satisfies \<open>P\<close>.\<close>

fun unlink_first :: "('a \<Rightarrow> bool) \<Rightarrow> 'a list \<Rightarrow> 'a list" where
  "unlink_first P [] = []"
| "unlink_first P (x # xs) = (if P x then xs else x # unlink_first P xs)"

text \<open>The mapping goes into the first free slot; with no free slot it is dropped.\<close>

definition sr_arpcache_insert ::
    "int \<Rightarrow> sr_arpcache \<Rightarrow> mac \<Rightarrow> u32 \<Rightarrow> sr_arpcache \<times> sr_arpreq option" where
  "sr_arpcache_insert t c m ip =
     (let req = find (\<lambda>r. rq_ip r = ip) (requests c);
          reqs = unlink_first (\<lambda>r. rq_ip r = ip) (requests c);
          i = length (takeWhile ae_valid (entries c));
          es = (if i \<noteq> SR_ARPCACHE_SZ
                then (entries c)[i := \<lparr> ae_mac = m, ae_ip = ip, ae_added = t, ae_valid = True \<rparr>]
                else entries c)
      in (c\<lparr>entries := es, requests := reqs\<rparr>, req))"

definition sr_arpreq_destroy :: "sr_arpcache \<Rightarrow> nat \<Rightarrow> sr_arpcache" where
  "sr_arpreq_destroy c a = c\<lparr>requests := unlink_first (\<lambda>r. rq_id r = a) (requests c)\<rparr>"

text \<open>The ageing loop of \<open>sr_arpcache_timeout\<close>; the sweep of the requests is in \<open>Sr_Router\<close>.\<close>

definition arpcache_expire :: "int \<Rightarrow> sr_arpcache \<Rightarrow> sr_arpcache" where
  "arpcache_expire curtime c = c\<lparr>entries :=
     map (\<lambda>e. if ae_valid e \<and> curtime - ae_added e > SR_ARPCACHE_TO
              then e\<lparr>ae_valid := False\<rparr> else e) (entries c)\<rparr>"

definition sr_arpcache_dump :: "sr_arpcache \<Rightarrow> (nat list \<times> nat \<times> int \<times> bool) list" where
  "sr_arpcache_dump c = map (\<lambda>cur. (map unat (enc_mac (ae_mac cur)), unat (ntohl (ae_ip cur)),
     ae_added cur, ae_valid cur)) (entries c)"

section \<open>Invariant\<close>

definition packet_ok :: "sr_packet \<Rightarrow> bool" where
  "packet_ok p \<longleftrightarrow> unat (pk_len p) = length (pk_buf p) \<and> pk_buf p \<noteq> []
     \<and> length (pk_iface p) = sr_IFACE_NAMELEN"

definition req_ok :: "sr_arpreq \<Rightarrow> bool" where
  "req_ok r \<longleftrightarrow> rq_times_sent r \<le> 5 \<and> list_all packet_ok (rq_packets r)"

definition cache_inv :: "sr_arpcache \<Rightarrow> bool" where
  "cache_inv c \<longleftrightarrow> length (entries c) = SR_ARPCACHE_SZ
     \<and> distinct (map rq_id (requests c)) \<and> (\<forall>r\<in>set (requests c). rq_id r < brk c)
     \<and> distinct (map rq_ip (requests c)) \<and> list_all req_ok (requests c)"

lemma cache_inv_init: "cache_inv (sr_arpcache_init c)"
  by (simp add: cache_inv_def sr_arpcache_init_def)

lemma map_unlink_first:
  "map f (unlink_first (\<lambda>x. f x = k) xs) = remove1 k (map f xs)"
  by (induction xs) auto

lemma set_unlink_first: "set (unlink_first P xs) \<subseteq> set xs"
  by (induction xs) auto

lemma unlink_first_distinct: "distinct (map f xs) \<Longrightarrow> distinct (map f (unlink_first P xs))"
proof (induction xs)
  case (Cons x xs)
  then show ?case using set_unlink_first [of P xs] by auto
qed simp

lemma unlink_first_filter:
  "distinct (map f xs) \<Longrightarrow> unlink_first (\<lambda>x. f x = k) xs = filter (\<lambda>x. f x \<noteq> k) xs"
proof (induction xs)
  case (Cons x xs)
  show ?case
  proof (cases "f x = k")
    case True
    with Cons.prems have "k \<notin> f ` set xs" by simp
    then have "\<forall>y\<in>set xs. f y \<noteq> k" by blast
    then show ?thesis using True by (simp add: filter_id_conv)
  qed (use Cons in simp)
qed simp

lemma cache_inv_unlink:
  "cache_inv c \<Longrightarrow> cache_inv (c\<lparr>requests := unlink_first P (requests c)\<rparr>)"
  using set_unlink_first [of P "requests c"]
  by (auto simp: cache_inv_def unlink_first_distinct list_all_iff)

lemma cache_inv_destroy: "cache_inv c \<Longrightarrow> cache_inv (sr_arpreq_destroy c a)"
  unfolding sr_arpreq_destroy_def by (rule cache_inv_unlink)

lemma cache_inv_entries:
  "cache_inv c \<Longrightarrow> length es = length (entries c) \<Longrightarrow> cache_inv (c\<lparr>entries := es\<rparr>)"
  by (simp add: cache_inv_def)

lemma cache_inv_insert:
  assumes "cache_inv c" "sr_arpcache_insert t c m ip = (c', req)"
  shows "cache_inv c'"
proof -
  have "cache_inv (c\<lparr>requests := unlink_first (\<lambda>r. rq_ip r = ip) (requests c)\<rparr>\<lparr>entries := entries c'\<rparr>)"
    using assms by (intro cache_inv_entries cache_inv_unlink)
      (auto simp: sr_arpcache_insert_def Let_def)
  moreover have "c\<lparr>requests := unlink_first (\<lambda>r. rq_ip r = ip) (requests c)\<rparr>\<lparr>entries := entries c'\<rparr> = c'"
    using assms(2) by (auto simp: sr_arpcache_insert_def Let_def)
  ultimately show ?thesis by simp
qed

lemma cache_inv_expire: "cache_inv c \<Longrightarrow> cache_inv (arpcache_expire t c)"
  unfolding arpcache_expire_def by (rule cache_inv_entries) simp_all

lemma map_upd_req:
  "(\<And>r. g (f r) = g r) \<Longrightarrow> map g (map (\<lambda>r. if rq_id r = a then f r else r) rs) = map g rs"
  by (induction rs) auto

lemma cache_inv_upd_req:
  assumes "cache_inv c"
    and "\<And>r. rq_id (f r) = rq_id r" "\<And>r. rq_ip (f r) = rq_ip r"
    and "\<And>r. r \<in> set (requests c) \<Longrightarrow> rq_id r = a \<Longrightarrow> req_ok r \<Longrightarrow> req_ok (f r)"
  shows "cache_inv (upd_req a f c)"
  using assms by (auto simp: cache_inv_def upd_req_def list_all_iff map_upd_req simp del: map_map)

section \<open>The entries as a cache of neighbours\<close>

text \<open>
  The contract the forwarding code needs: what is learnt can be looked up, a full cache loses it, and
  nothing learnt about one address changes what is known about another.
\<close>

locale neighbour_cache =
  fixes lookup :: "'c \<Rightarrow> u32 \<Rightarrow> mac option"
    and learn :: "int \<Rightarrow> 'c \<Rightarrow> mac \<Rightarrow> u32 \<Rightarrow> 'c"
    and age :: "int \<Rightarrow> 'c \<Rightarrow> 'c"
    and room :: "'c \<Rightarrow> bool"
    and inv :: "'c \<Rightarrow> bool"
  assumes inv_learn: "inv c \<Longrightarrow> inv (learn t c m a)"
    and inv_age: "inv c \<Longrightarrow> inv (age t c)"
    and lookup_learn: "inv c \<Longrightarrow> room c \<Longrightarrow> lookup c a = None \<Longrightarrow> lookup (learn t c m a) a = Some m"
    and lookup_learn_other: "inv c \<Longrightarrow> b \<noteq> a \<Longrightarrow> lookup (learn t c m a) b = lookup c b"
    and learn_full: "inv c \<Longrightarrow> \<not> room c \<Longrightarrow> lookup (learn t c m a) = lookup c"
    and lookup_age: "inv c \<Longrightarrow> lookup c a = None \<Longrightarrow> lookup (age t c) a = None"
begin

text \<open>A sequence of replies from other neighbours.\<close>

primrec learn_all :: "'c \<Rightarrow> (int \<times> mac \<times> u32) list \<Rightarrow> 'c" where
  "learn_all c [] = c"
| "learn_all c (x # xs) = learn_all (learn (fst x) c (fst (snd x)) (snd (snd x))) xs"

lemma inv_learn_all: "inv c \<Longrightarrow> inv (learn_all c xs)"
  by (induction xs arbitrary: c) (auto intro: inv_learn)

lemma lookup_learn_all:
  "inv c \<Longrightarrow> (\<forall>x\<in>set xs. snd (snd x) \<noteq> a) \<Longrightarrow> lookup (learn_all c xs) a = lookup c a"
  by (induction xs arbitrary: c) (auto simp: lookup_learn_other inv_learn)

lemma learnt_stays:
  assumes "inv c" "room c" "lookup c a = None" "\<forall>x\<in>set xs. snd (snd x) \<noteq> a"
  shows "lookup (learn_all (learn t c m a) xs) a = Some m"
  using assms by (simp add: lookup_learn_all inv_learn lookup_learn)

end

definition lookup_mac :: "sr_arpcache \<Rightarrow> u32 \<Rightarrow> mac option" where
  "lookup_mac c ip = map_option ae_mac (sr_arpcache_lookup c ip)"

definition has_room :: "sr_arpcache \<Rightarrow> bool" where
  "has_room c \<longleftrightarrow> (\<exists>e\<in>set (entries c). \<not> ae_valid e)"

definition entry_for :: "u32 \<Rightarrow> sr_arpentry \<Rightarrow> bool" where
  "entry_for ip e \<longleftrightarrow> ae_valid e \<and> ae_ip e = ip"

lemma foldl_last:
  "foldl (\<lambda>acc e. if P e then Some e else acc) acc es =
     (if filter P es = [] then acc else Some (last (filter P es)))"
  by (induction es arbitrary: acc) auto

lemma last_filter: "xs \<noteq> [] \<Longrightarrow> P (last xs) \<Longrightarrow> filter P xs \<noteq> [] \<and> last (filter P xs) = last xs"
  by (induction xs rule: rev_induct) simp_all

lemma lookup_last:
  "sr_arpcache_lookup c ip = (let l = filter (entry_for ip) (entries c)
     in if l = [] then None else Some (last l))"
proof -
  have "sr_arpcache_lookup c ip =
      foldl (\<lambda>acc e. if entry_for ip e then Some e else acc) None (entries c)"
    by (simp add: sr_arpcache_lookup_def entry_for_def)
  then show ?thesis by (simp add: foldl_last Let_def)
qed

lemma lookup_None: "sr_arpcache_lookup c ip = None \<longleftrightarrow> (\<forall>e\<in>set (entries c). \<not> entry_for ip e)"
  by (auto simp: lookup_last Let_def filter_empty_conv)

lemma lookup_Some:
  "sr_arpcache_lookup c ip = Some e \<Longrightarrow> e \<in> set (entries c) \<and> ae_valid e \<and> ae_ip e = ip"
proof -
  assume "sr_arpcache_lookup c ip = Some e"
  then have "filter (entry_for ip) (entries c) \<noteq> []" "e = last (filter (entry_for ip) (entries c))"
    by (auto simp: lookup_last Let_def split: if_splits)
  then have "e \<in> set (filter (entry_for ip) (entries c))" by (metis last_in_set)
  then show ?thesis by (simp add: entry_for_def)
qed

lemma insert_entries:
  "cache_inv c \<Longrightarrow> entries (fst (sr_arpcache_insert t c m ip)) =
     (if has_room c
      then takeWhile ae_valid (entries c)
             @ \<lparr> ae_mac = m, ae_ip = ip, ae_added = t, ae_valid = True \<rparr>
             # tl (dropWhile ae_valid (entries c))
      else entries c)"
proof -
  assume inv: "cache_inv c"
  let ?es = "entries c" and ?i = "length (takeWhile ae_valid (entries c))"
  have room: "has_room c \<longleftrightarrow> ?i \<noteq> SR_ARPCACHE_SZ"
  proof -
    have "?i = length ?es \<longleftrightarrow> takeWhile ae_valid ?es = ?es"
      by (metis takeWhile_eq_take take_all_iff order_refl)
    also have "\<dots> \<longleftrightarrow> (\<forall>e\<in>set ?es. ae_valid e)" by (auto simp: takeWhile_eq_all_conv)
    finally show ?thesis using inv by (auto simp: cache_inv_def has_room_def)
  qed
  show ?thesis
  proof (cases "has_room c")
    case True
    then have "dropWhile ae_valid ?es \<noteq> []" by (auto simp: has_room_def)
    then obtain d ds where d: "dropWhile ae_valid ?es = d # ds" by (cases "dropWhile ae_valid ?es") auto
    have "?es[?i := x] = takeWhile ae_valid ?es @ x # ds" for x
    proof -
      have "(takeWhile ae_valid ?es @ d # ds)[?i := x] = takeWhile ae_valid ?es @ x # ds"
        by (rule list_update_length)
      then show ?thesis using d by (metis takeWhile_dropWhile_id)
    qed
    then show ?thesis using True room d by (simp add: sr_arpcache_insert_def Let_def)
  qed (use room in \<open>simp add: sr_arpcache_insert_def Let_def\<close>)
qed

lemma filter_entries_split:
  assumes "has_room c"
  shows "filter (entry_for ip) (entries c) = filter (entry_for ip) (takeWhile ae_valid (entries c))
    @ filter (entry_for ip) (tl (dropWhile ae_valid (entries c)))"
proof -
  from assms have "dropWhile ae_valid (entries c) \<noteq> []" by (auto simp: has_room_def)
  then obtain d ds where d: "dropWhile ae_valid (entries c) = d # ds" "\<not> ae_valid d"
    by (metis hd_dropWhile list.collapse)
  have nd: "\<not> entry_for ip d" using d(2) by (simp add: entry_for_def)
  have "takeWhile ae_valid (entries c) @ d # ds = entries c"
    using d(1) by (metis takeWhile_dropWhile_id)
  then have "filter (entry_for ip) (entries c)
      = filter (entry_for ip) (takeWhile ae_valid (entries c) @ d # ds)"
    by (simp only:)
  then show ?thesis using nd d(1) by (simp only: filter_append filter.simps if_False list.sel)
qed

text \<open>
  After an insert with a free slot the lookup gives the new mapping, unless a later slot still holds
  a valid entry for the same address: that stale entry wins.
\<close>

lemma lookup_insert_same:
  assumes "cache_inv c" "has_room c"
  shows "sr_arpcache_lookup (fst (sr_arpcache_insert t c m ip)) ip =
    (let later = filter (entry_for ip) (tl (dropWhile ae_valid (entries c)))
     in if later = [] then Some \<lparr> ae_mac = m, ae_ip = ip, ae_added = t, ae_valid = True \<rparr>
        else Some (last later))"
  using assms by (simp add: lookup_last insert_entries Let_def entry_for_def)

lemma lookup_insert_other:
  assumes "cache_inv c" "ip' \<noteq> ip"
  shows "sr_arpcache_lookup (fst (sr_arpcache_insert t c m ip)) ip' = sr_arpcache_lookup c ip'"
proof (cases "has_room c")
  case True
  have "filter (entry_for ip') (entries (fst (sr_arpcache_insert t c m ip)))
      = filter (entry_for ip') (entries c)"
    using assms True filter_entries_split [OF True, of ip']
    by (simp add: insert_entries entry_for_def)
  then show ?thesis by (simp add: lookup_last)
qed (use assms in \<open>simp add: lookup_last insert_entries\<close>)

lemma lookup_insert_fresh:
  assumes "cache_inv c" "has_room c" "sr_arpcache_lookup c ip = None"
  shows "sr_arpcache_lookup (fst (sr_arpcache_insert t c m ip)) ip =
    Some \<lparr> ae_mac = m, ae_ip = ip, ae_added = t, ae_valid = True \<rparr>"
proof -
  have "filter (entry_for ip) (entries c) = []"
    using assms(3) by (simp add: lookup_None filter_empty_conv)
  then have "filter (entry_for ip) (tl (dropWhile ae_valid (entries c))) = []"
    by (simp add: filter_entries_split [OF assms(2)])
  then show ?thesis by (simp add: lookup_insert_same assms)
qed

lemma lookup_insert_full:
  "cache_inv c \<Longrightarrow> \<not> has_room c \<Longrightarrow>
   sr_arpcache_lookup (fst (sr_arpcache_insert t c m ip)) = sr_arpcache_lookup c"
  by (simp add: fun_eq_iff lookup_last insert_entries)

lemma lookup_expire_None:
  "sr_arpcache_lookup c ip = None \<Longrightarrow> sr_arpcache_lookup (arpcache_expire t c) ip = None"
  by (auto simp: lookup_None arpcache_expire_def entry_for_def split: if_splits)

text \<open>After a pass of the ageing loop every entry that is found is at most 15 seconds old.\<close>

lemma lookup_expire_Some:
  assumes "sr_arpcache_lookup (arpcache_expire t c) ip = Some e"
  shows "e \<in> set (entries c)" and "t - ae_added e \<le> SR_ARPCACHE_TO"
  using lookup_Some [OF assms] by (auto simp: arpcache_expire_def split: if_splits)

interpretation arpcache: neighbour_cache lookup_mac
  "\<lambda>t c m ip. fst (sr_arpcache_insert t c m ip)" arpcache_expire has_room cache_inv
proof unfold_locales
  fix c t m a
  show "cache_inv c \<Longrightarrow> cache_inv (fst (sr_arpcache_insert t c m a))"
    by (metis cache_inv_insert prod.collapse)
qed (simp_all add: cache_inv_expire lookup_mac_def fun_eq_iff lookup_insert_fresh
    lookup_insert_other lookup_insert_full lookup_expire_None)

section \<open>The request queue\<close>

text \<open>
  The contract of the queue: a packet queued for an address waits there, in front of the earlier
  ones; taking an address' packets leaves the packets of every other address.
\<close>

locale pending_queue =
  fixes enq :: "'q \<Rightarrow> u32 \<Rightarrow> 'p \<Rightarrow> 'q"
    and take_out :: "'q \<Rightarrow> u32 \<Rightarrow> 'q"
    and waiting :: "'q \<Rightarrow> u32 \<Rightarrow> 'p list"
    and okp :: "'p \<Rightarrow> bool"
    and inv :: "'q \<Rightarrow> bool"
  assumes inv_enq: "inv q \<Longrightarrow> okp p \<Longrightarrow> inv (enq q a p)"
    and inv_take_out: "inv q \<Longrightarrow> inv (take_out q a)"
    and waiting_enq: "inv q \<Longrightarrow> okp p \<Longrightarrow>
      waiting (enq q a p) b = (if b = a then p # waiting q a else waiting q b)"
    and waiting_take_out: "inv q \<Longrightarrow>
      waiting (take_out q a) b = (if b = a then [] else waiting q b)"
begin

primrec enq_all :: "'q \<Rightarrow> (u32 \<times> 'p) list \<Rightarrow> 'q" where
  "enq_all q [] = q"
| "enq_all q (x # xs) = enq_all (enq q (fst x) (snd x)) xs"

lemma inv_enq_all: "inv q \<Longrightarrow> (\<forall>x\<in>set xs. okp (snd x)) \<Longrightarrow> inv (enq_all q xs)"
  by (induction xs arbitrary: q) (auto intro: inv_enq)

text \<open>No packet is lost or moved to another address: each address has its own, newest first.\<close>

lemma waiting_enq_all:
  "inv q \<Longrightarrow> (\<forall>x\<in>set xs. okp (snd x)) \<Longrightarrow>
   waiting (enq_all q xs) a = rev (map snd (filter (\<lambda>x. fst x = a) xs)) @ waiting q a"
  by (induction xs arbitrary: q) (auto simp: waiting_enq inv_enq)

lemma waiting_enq_all_take_out:
  "inv q \<Longrightarrow> (\<forall>x\<in>set xs. okp (snd x)) \<Longrightarrow> a \<noteq> b \<Longrightarrow>
   waiting (take_out (enq_all q xs) b) a = waiting (enq_all q xs) a"
  by (simp add: waiting_take_out inv_enq_all)

end

definition waiting :: "sr_arpcache \<Rightarrow> u32 \<Rightarrow> sr_packet list" where
  "waiting c ip = (case find (\<lambda>r. rq_ip r = ip) (requests c) of
     None \<Rightarrow> [] | Some r \<Rightarrow> rq_packets r)"

text \<open>A packet as the queue stores it: its own copy of the bytes, the name padded to the array.\<close>

definition storable :: "sr_packet \<Rightarrow> bool" where
  "storable p \<longleftrightarrow> packet_ok p \<and> c_strncpy sr_IFACE_NAMELEN (pk_iface p) = pk_iface p"

definition queue_packet :: "sr_arpcache \<Rightarrow> u32 \<Rightarrow> sr_packet \<Rightarrow> sr_arpcache" where
  "queue_packet c ip p = (case sr_arpcache_queuereq c ip (pk_buf p) (pk_len p) (pk_iface p) of
     Inl _ \<Rightarrow> c | Inr (c', _) \<Rightarrow> c')"

lemma req_by_id: "distinct (map rq_id rs) \<Longrightarrow> r \<in> set rs \<Longrightarrow> find (\<lambda>r'. rq_id r' = rq_id r) rs = Some r"
  by (induction rs) (auto simp: image_iff)

lemma req_by_ip: "distinct (map rq_ip rs) \<Longrightarrow> r \<in> set rs \<Longrightarrow> find (\<lambda>r'. rq_ip r' = rq_ip r) rs = Some r"
  by (induction rs) (auto simp: image_iff)

lemma cache_inv_new_req:
  assumes "cache_inv c" "find (\<lambda>r. rq_ip r = ip) (requests c) = None"
  shows "cache_inv (c\<lparr>requests := \<lparr> rq_id = brk c, rq_ip = ip, rq_sent = 0, rq_times_sent = 0,
    rq_packets = [] \<rparr> # requests c, brk := Suc (brk c)\<rparr>)"
  using assms by (auto simp: cache_inv_def find_None_iff req_ok_def less_Suc_eq)

text \<open>What queuing does: the request of the address, new or old, has the packet in front.\<close>

lemma queuereq_spec:
  fixes c :: sr_arpcache and len :: u32 and packet iface :: bytes and ip :: u32
  assumes inv: "cache_inv c" and len: "len \<noteq> 0" "unat len \<le> length packet"
  defines "p \<equiv> \<lparr> pk_buf = take (unat len) packet, pk_len = len,
                 pk_iface = c_strncpy sr_IFACE_NAMELEN iface \<rparr>"
  obtains c' a r where "sr_arpcache_queuereq c ip packet len iface = Inr (c', a)"
    and "cache_inv c'" "get_req a c' = Some r" "rq_ip r = ip" "rq_packets r = p # waiting c ip"
    and "entries c' = entries c"
    and "\<And>b. waiting c' b = (if b = ip then p # waiting c ip else waiting c b)"
    and "case find (\<lambda>r. rq_ip r = ip) (requests c) of
           Some r0 \<Rightarrow> rq_sent r = rq_sent r0 \<and> rq_times_sent r = rq_times_sent r0
         | None \<Rightarrow> rq_sent r = 0 \<and> rq_times_sent r = 0"
proof -
  define c1 where "c1 = (case find (\<lambda>r. rq_ip r = ip) (requests c) of Some r \<Rightarrow> c | None \<Rightarrow>
    c\<lparr>requests := \<lparr> rq_id = brk c, rq_ip = ip, rq_sent = 0, rq_times_sent = 0,
                    rq_packets = [] \<rparr> # requests c, brk := Suc (brk c)\<rparr>)"
  define f where "f = (\<lambda>r :: sr_arpreq. r\<lparr>rq_packets := p # rq_packets r\<rparr>)"
  obtain r1 where r1: "find (\<lambda>r. rq_ip r = ip) (requests c1) = Some r1"
    by (cases "find (\<lambda>r. rq_ip r = ip) (requests c)") (auto simp: c1_def)
  then have r1': "r1 \<in> set (requests c1)" "rq_ip r1 = ip" by (auto dest!: find_Some_iff_set)
  have inv1: "cache_inv c1"
    using inv cache_inv_new_req [OF inv, of ip]
    by (auto simp: c1_def split: option.split)
  have w1: "waiting c1 b = waiting c b" for b
    by (auto simp: c1_def waiting_def split: option.split)
  have pok: "packet_ok p"
    using len by (auto simp: packet_ok_def p_def unat_eq_0)
  have q: "sr_arpcache_queuereq c ip packet len iface = Inr (upd_req (rq_id r1) f c1, rq_id r1)"
    using len r1 by (cases "find (\<lambda>r. rq_ip r = ip) (requests c)")
      (auto simp: sr_arpcache_queuereq_def c1_def rd_def p_def f_def)
  have inv2: "cache_inv (upd_req (rq_id r1) f c1)"
    using inv1 pok by (intro cache_inv_upd_req) (auto simp: f_def req_ok_def)
  have dist: "distinct (map rq_id (requests c1))" using inv1 by (simp add: cache_inv_def)
  have fnd: "find (\<lambda>r. rq_ip r = b) (requests (upd_req (rq_id r1) f c1))
      = map_option (\<lambda>r. if rq_id r = rq_id r1 then f r else r) (find (\<lambda>r. rq_ip r = b) (requests c1))" for b
    unfolding f_def by (simp add: upd_req_def find_map_same)
  have wip: "waiting c1 ip = rq_packets r1" by (simp add: waiting_def r1)
  have get: "get_req (rq_id r1) (upd_req (rq_id r1) f c1) = Some (f r1)"
  proof -
    have "f r1 \<in> set (requests (upd_req (rq_id r1) f c1))"
      using r1'(1) by (auto simp: upd_req_def)
    moreover have "rq_id (f r1) = rq_id r1" by (simp add: f_def)
    ultimately show ?thesis
      using inv2 req_by_id [of "requests (upd_req (rq_id r1) f c1)" "f r1"]
      by (simp add: get_req_def cache_inv_def)
  qed
  have wait: "waiting (upd_req (rq_id r1) f c1) b = (if b = ip then p # waiting c ip else waiting c b)" for b
  proof (cases "find (\<lambda>r. rq_ip r = b) (requests c1)")
    case None
    then have "b \<noteq> ip" using r1 by auto
    then show ?thesis using None fnd [of b] w1 [of b] by (simp add: waiting_def)
  next
    case (Some r)
    then have "r \<in> set (requests c1)" "rq_ip r = b" by (auto dest!: find_Some_iff_set)
    then have "rq_id r = rq_id r1 \<longleftrightarrow> r = r1"
      using req_by_id [OF dist r1'(1)] req_by_id [OF dist, of r] by (metis option.inject)
    also have "\<dots> \<longleftrightarrow> b = ip"
      using Some r1 r1'(2) \<open>rq_ip r = b\<close> by (metis option.inject)
    finally have iff: "rq_id r = rq_id r1 \<longleftrightarrow> b = ip" .
    have "waiting (upd_req (rq_id r1) f c1) b = rq_packets (if rq_id r = rq_id r1 then f r else r)"
      by (simp add: waiting_def fnd Some)
    also have "\<dots> = (if b = ip then p # rq_packets r else rq_packets r)"
      by (simp add: iff f_def)
    also have "rq_packets r = waiting c b" using w1 [of b] by (simp add: waiting_def Some)
    finally show ?thesis by auto
  qed
  show ?thesis
  proof (rule that [OF q inv2 get])
    show "rq_packets (f r1) = p # waiting c ip" using wip w1 [of ip] by (simp add: f_def)
    show "entries (upd_req (rq_id r1) f c1) = entries c"
      by (auto simp: upd_req_def c1_def split: option.split)
    show "case find (\<lambda>r. rq_ip r = ip) (requests c) of
        Some r0 \<Rightarrow> rq_sent (f r1) = rq_sent r0 \<and> rq_times_sent (f r1) = rq_times_sent r0
      | None \<Rightarrow> rq_sent (f r1) = 0 \<and> rq_times_sent (f r1) = 0"
      using r1 by (auto simp: c1_def f_def split: option.splits)
  qed (use r1' wait in \<open>simp_all add: f_def\<close>)
qed

lemma queuereq_inv:
  assumes "cache_inv c" "sr_arpcache_queuereq c ip packet len iface = Inr (c', a)"
  shows "cache_inv c'"
proof (cases "len = 0")
  case True
  then show ?thesis
    using assms cache_inv_new_req [OF assms(1), of ip]
    by (auto simp: sr_arpcache_queuereq_def split: option.splits)
next
  case False
  then have "unat len \<le> length packet"
    using assms(2) by (auto simp: sr_arpcache_queuereq_def rd_def split: option.splits if_splits)
  then obtain c'' a' where "sr_arpcache_queuereq c ip packet len iface = Inr (c'', a')" "cache_inv c''"
    by (rule queuereq_spec [OF assms(1) False, where iface = iface and ip = ip])
  then show ?thesis using assms(2) by simp
qed

lemma waiting_insert:
  assumes "cache_inv c"
  shows "waiting (fst (sr_arpcache_insert t c m ip)) b = (if b = ip then [] else waiting c b)"
proof -
  have "requests (fst (sr_arpcache_insert t c m ip)) = filter (\<lambda>r. rq_ip r \<noteq> ip) (requests c)"
    using assms by (simp add: sr_arpcache_insert_def Let_def cache_inv_def unlink_first_filter)
  then show ?thesis by (simp add: waiting_def find_filter_key)
qed

lemma insert_req:
  assumes "sr_arpcache_insert t c m ip = (c', req)"
  shows "req = find (\<lambda>r. rq_ip r = ip) (requests c)"
    and "waiting c ip = (case req of None \<Rightarrow> [] | Some r \<Rightarrow> rq_packets r)"
  using assms by (auto simp: sr_arpcache_insert_def Let_def waiting_def)

interpretation arpqueue: pending_queue queue_packet
  "\<lambda>c ip. fst (sr_arpcache_insert 0 c 0 ip)" waiting storable cache_inv
proof unfold_locales
  fix c p a b
  assume c: "cache_inv c" and p: "storable p"
  then have len: "pk_len p \<noteq> 0" "unat (pk_len p) \<le> length (pk_buf p)"
    by (auto simp: storable_def packet_ok_def)
  have copy: "\<lparr> pk_buf = take (unat (pk_len p)) (pk_buf p), pk_len = pk_len p,
      pk_iface = c_strncpy sr_IFACE_NAMELEN (pk_iface p) \<rparr> = p"
    using p by (simp add: storable_def packet_ok_def)
  obtain c' x r where q: "sr_arpcache_queuereq c a (pk_buf p) (pk_len p) (pk_iface p) = Inr (c', x)"
    and "cache_inv c'"
    and "\<And>b. waiting c' b = (if b = a then p # waiting c a else waiting c b)"
    by (rule queuereq_spec [OF c len, where iface = "pk_iface p" and ip = a]) (simp add: copy)
  then show "cache_inv (queue_packet c a p)"
    and "waiting (queue_packet c a p) b = (if b = a then p # waiting c a else waiting c b)"
    by (simp_all add: queue_packet_def)
next
  fix c a b
  show "cache_inv c \<Longrightarrow> cache_inv (fst (sr_arpcache_insert 0 c 0 a))"
    by (rule arpcache.inv_learn)
qed (simp add: waiting_insert)

section \<open>Properties\<close>

lemma learn_all_foldl: "arpcache.learn_all c xs =
    foldl (\<lambda>c x. fst (sr_arpcache_insert (fst x) c (fst (snd x)) (snd (snd x)))) c xs"
  by (induction xs arbitrary: c) simp_all

lemma filter_expire: "filter (entry_for ip) (entries (arpcache_expire t c))
    = filter (\<lambda>e. t - ae_added e \<le> SR_ARPCACHE_TO) (filter (entry_for ip) (entries c))"
proof -
  have "filter (entry_for ip) (map (\<lambda>e. if ae_valid e \<and> SR_ARPCACHE_TO < t - ae_added e
        then e\<lparr>ae_valid := False\<rparr> else e) es)
      = filter (\<lambda>e. t - ae_added e \<le> SR_ARPCACHE_TO) (filter (entry_for ip) es)" for es
    by (induction es) (auto simp: entry_for_def)
  then show ?thesis by (simp add: arpcache_expire_def)
qed

lemma enq_all_foldl: "arpqueue.enq_all c xs = foldl (\<lambda>c x. queue_packet c (fst x) (snd x)) c xs"
  by (induction xs arbitrary: c) simp_all

text \<open>an address that was not in the cache and is learnt while there is a free slot is found from
  then on, whatever other addresses are learnt after it and however full the cache gets.\<close>

theorem neighbour_stays_learnt:
  assumes "cache_inv c" "has_room c" "lookup_mac c a = None" "\<forall>x\<in>set xs. snd (snd x) \<noteq> a"
  shows "lookup_mac (foldl (\<lambda>c x. fst (sr_arpcache_insert (fst x) c (fst (snd x)) (snd (snd x))))
    (fst (sr_arpcache_insert t c m a)) xs) a = Some m"
  unfolding learn_all_foldl [symmetric] using assms by (rule arpcache.learnt_stays)

theorem neighbour_stays_learnt_witness:
  "lookup_mac (fst (sr_arpcache_insert 1 (fst (sr_arpcache_insert 0 ex_cache (if_addr ex_if1) 5)) 0 6)) 5
    = Some (if_addr ex_if1)"
proof -
  have "cache_inv ex_cache" "has_room ex_cache" "lookup_mac ex_cache 5 = None" by code_simp+
  from neighbour_stays_learnt [OF this, of "[(1, 0, 6)]" 0 "if_addr ex_if1"] show ?thesis by simp
qed

text \<open>C39: learning an address that is still in the cache does not replace the old entry: when a later
  slot holds it, the lookup keeps returning the old one.\<close>

theorem stale_entry_wins:
  assumes "cache_inv c" "has_room c"
  shows "sr_arpcache_lookup (fst (sr_arpcache_insert t c m ip)) ip =
    (if \<exists>e\<in>set (tl (dropWhile ae_valid (entries c))). entry_for ip e then sr_arpcache_lookup c ip
     else Some \<lparr> ae_mac = m, ae_ip = ip, ae_added = t, ae_valid = True \<rparr>)"
proof -
  let ?later = "filter (entry_for ip) (tl (dropWhile ae_valid (entries c)))"
  have "(\<exists>e\<in>set (tl (dropWhile ae_valid (entries c))). entry_for ip e) \<longleftrightarrow> ?later \<noteq> []"
    by (auto simp: filter_empty_conv)
  moreover have "?later \<noteq> [] \<Longrightarrow> sr_arpcache_lookup c ip = Some (last ?later)"
    by (simp add: lookup_last Let_def filter_entries_split [OF assms(2)])
  ultimately show ?thesis by (simp add: lookup_insert_same [OF assms] Let_def)
qed

theorem stale_entry_wins_witness:
  "sr_arpcache_lookup (fst (sr_arpcache_insert 9 (ex_cache\<lparr>entries := ex_free # ex_entry # replicate 98 ex_free\<rparr>)
     0 (of_le32 10 0 2 2))) (of_le32 10 0 2 2) = Some ex_entry"
proof -
  let ?c = "ex_cache\<lparr>entries := ex_free # ex_entry # replicate 98 ex_free\<rparr>"
  have "cache_inv ?c" "has_room ?c" by code_simp+
  moreover have "\<exists>e\<in>set (tl (dropWhile ae_valid (entries ?c))). entry_for (of_le32 10 0 2 2) e"
    by code_simp
  moreover have "sr_arpcache_lookup ?c (of_le32 10 0 2 2) = Some ex_entry" by code_simp
  ultimately show ?thesis using stale_entry_wins [of ?c 9 0 "of_le32 10 0 2 2"] by simp
qed

text \<open>With no free slot nothing is learnt, but the request the reply answers is taken off the queue
  all the same.\<close>

theorem full_cache_learns_nothing:
  assumes "cache_inv c" "\<not> has_room c"
  shows "sr_arpcache_lookup (fst (sr_arpcache_insert t c m ip)) = sr_arpcache_lookup c
    \<and> waiting (fst (sr_arpcache_insert t c m ip)) ip = []"
  using assms by (simp add: lookup_insert_full waiting_insert)

theorem full_cache_learns_nothing_witness:
  "sr_arpcache_lookup (fst (sr_arpcache_insert 9 (ex_cache\<lparr>entries := replicate 100 ex_entry\<rparr>) 0 5)) 5 = None"
proof -
  let ?c = "ex_cache\<lparr>entries := replicate 100 ex_entry\<rparr>"
  have "cache_inv ?c" "\<not> has_room ?c" "sr_arpcache_lookup ?c 5 = None" by code_simp+
  then show ?thesis using full_cache_learns_nothing [of ?c 9 0 5] by simp
qed

text \<open>after a turn of the ageing loop every entry that is found is at most 15 seconds old, and an
  entry that is found and at most 15 seconds old stays.\<close>

theorem ageing_bound:
  "(\<forall>e. sr_arpcache_lookup (arpcache_expire t c) ip = Some e \<longrightarrow>
      t - ae_added e \<le> 15 \<and> e \<in> set (entries c))
   \<and> (\<forall>e. sr_arpcache_lookup c ip = Some e \<and> t - ae_added e \<le> 15 \<longrightarrow>
      sr_arpcache_lookup (arpcache_expire t c) ip = Some e)"
proof (intro conjI allI impI)
  fix e
  assume "sr_arpcache_lookup (arpcache_expire t c) ip = Some e"
  then show "t - ae_added e \<le> 15" "e \<in> set (entries c)"
    using lookup_expire_Some [of t c ip e] by (simp_all add: SR_ARPCACHE_TO_def)
next
  fix e
  assume e: "sr_arpcache_lookup c ip = Some e \<and> t - ae_added e \<le> 15"
  then have "filter (entry_for ip) (entries c) \<noteq> []" "last (filter (entry_for ip) (entries c)) = e"
    by (auto simp: lookup_last Let_def split: if_splits)
  moreover have "filter (entry_for ip) (entries (arpcache_expire t c))
      = filter (\<lambda>e. t - ae_added e \<le> 15) (filter (entry_for ip) (entries c))"
    by (simp add: filter_expire SR_ARPCACHE_TO_def)
  ultimately show "sr_arpcache_lookup (arpcache_expire t c) ip = Some e"
    using e by (simp add: lookup_last Let_def last_filter del: filter_filter)
qed

theorem ageing_bound_witness:
  "sr_arpcache_lookup (arpcache_expire 110 (ex_cache\<lparr>entries := [ex_entry]\<rparr>)) (of_le32 10 0 2 2) = Some ex_entry"
proof -
  have "sr_arpcache_lookup (ex_cache\<lparr>entries := [ex_entry]\<rparr>) (of_le32 10 0 2 2) = Some ex_entry"
    "110 - ae_added ex_entry \<le> 15" by code_simp+
  then show ?thesis
    using ageing_bound [of 110 "ex_cache\<lparr>entries := [ex_entry]\<rparr>" "of_le32 10 0 2 2"] by blast
qed

text \<open>no waiting packet is lost or moved to another address: after any packets are queued and the
  requests of another address are taken out, each address has its own packets, newest first.\<close>

theorem queued_packets_kept:
  assumes "cache_inv c" "\<forall>x\<in>set xs. storable (snd x)" "a \<noteq> b"
  shows "waiting (fst (sr_arpcache_insert 0 (foldl (\<lambda>c x. queue_packet c (fst x) (snd x)) c xs) 0 b)) a
    = rev (map snd (filter (\<lambda>x. fst x = a) xs)) @ waiting c a"
  using arpqueue.waiting_enq_all_take_out [OF assms] arpqueue.waiting_enq_all [OF assms(1,2)]
  by (simp add: enq_all_foldl)

theorem queued_packets_kept_witness:
  "waiting (fst (sr_arpcache_insert 0
     (foldl (\<lambda>c x. queue_packet c (fst x) (snd x)) ex_cache [(5, ex_waiting), (6, ex_waiting)]) 0 6)) 5
   = [ex_waiting]"
proof -
  have "cache_inv ex_cache" "\<forall>x\<in>set [(5, ex_waiting), (6, ex_waiting)]. storable (snd x)" "(5 :: u32) \<noteq> 6"
    "waiting ex_cache 5 = []"
    by code_simp+
  from queued_packets_kept [OF this(1-3)] this(4) show ?thesis by simp
qed

end
