(* ===== verification/Sr_Vns_Comm.thy ===== *)
theory Sr_Vns_Comm
  imports Sr_Rt Sr_Arpcache
begin

text \<open>
  The sending half of \<open>sr_vns_comm.c\<close> with the packet log of \<open>sr_dumper.c\<close>, and the contract every
  packet handler of the router keeps (\<open>good_step\<close>, the locale \<open>handler\<close>): the cache invariant, an
  unchanged configuration, and only well-addressed messages on the wire.
\<close>

section \<open>The packet log\<close>

definition PACKET_DUMP_SIZE :: nat where "PACKET_DUMP_SIZE = 1024"

text \<open>The file header of \<open>sf_write_header\<close>, in host byte order.\<close>

definition sf_write_header :: "u32 \<Rightarrow> u32 \<Rightarrow> u32 \<Rightarrow> bytes" where
  "sf_write_header linktype thiszone snaplen =
     le32 0xa1b2c3d4 @ le16 2 @ le16 4 @ le32 thiszone @ le32 0 @ le32 snaplen @ le32 linktype"

definition sr_dump_open :: "u32 \<Rightarrow> u32 \<Rightarrow> bytes" where
  "sr_dump_open thiszone snaplen = sf_write_header 1 thiszone snaplen"

record pcap_pkthdr =
  ph_ts :: "u32 \<times> u32"
  ph_caplen :: u32
  ph_len :: u32

definition sr_dump :: "bytes \<Rightarrow> pcap_pkthdr \<Rightarrow> bytes \<Rightarrow> bytes res" where
  "sr_dump fp h sp = rbind (rd sp 0 (unat (ph_caplen h))) (\<lambda>data.
     Inr (fp @ le32 (fst (ph_ts h)) @ le32 (snd (ph_ts h)) @ le32 (ph_caplen h) @ le32 (ph_len h)
          @ data))"

text \<open>\<open>len\<close> is an \<open>int\<close> here: the comparison in \<open>min\<close> is signed.\<close>

definition sr_log_packet :: "env \<Rightarrow> sr_instance \<Rightarrow> bytes \<Rightarrow> u32 \<Rightarrow> sr_instance res" where
  "sr_log_packet E sr buf len =
     (case logfile sr of
        None \<Rightarrow> Inr sr
      | Some fp \<Rightarrow>
          let size = (if int PACKET_DUMP_SIZE < sint len then of_nat PACKET_DUMP_SIZE else len);
              h = \<lparr> ph_ts = tv E, ph_caplen = size,
                    ph_len = (if sint size < int PACKET_DUMP_SIZE then size
                              else of_nat PACKET_DUMP_SIZE) \<rparr>
          in rbind (sr_dump fp h buf) (\<lambda>fp'. Inr (sr\<lparr>logfile := Some fp'\<rparr>)))"

section \<open>Sending a packet\<close>

definition sizeof_packet_header :: nat where "sizeof_packet_header = 24"
definition VNSPACKET :: u32 where "VNSPACKET = 4"

text \<open>1 when the frame's source address is the address of the interface it leaves by.\<close>

definition sr_ether_addrs_match_interface :: "sr_instance \<Rightarrow> bytes \<Rightarrow> bytes \<Rightarrow> bool res" where
  "sr_ether_addrs_match_interface sr buf name =
     (case sr_get_interface sr name of
        None \<Rightarrow> Inr False
      | Some iface \<Rightarrow> rbind (ld_eth buf) (\<lambda>ether_hdr. Inr (ether_shost ether_hdr = if_addr iface)))"

text \<open>The message of \<open>c_packet_header\<close> and the frame, as laid out by \<open>sr_send_packet\<close>.\<close>

definition packet_msg :: "bytes \<Rightarrow> u32 \<Rightarrow> bytes \<Rightarrow> bytes" where
  "packet_msg iface len frame =
     le32 (htonl (len + of_nat sizeof_packet_header)) @ le32 (htonl VNSPACKET)
       @ c_strncpy 16 iface @ frame"

definition sr_send_packet ::
    "env \<Rightarrow> sr_instance \<Rightarrow> bytes \<Rightarrow> u32 \<Rightarrow> bytes \<Rightarrow> (sr_instance \<times> int) res" where
  "sr_send_packet E sr buf len iface =
     (let total_len = len + of_nat sizeof_packet_header in
      if unat len < sizeof_eth then Inr (sr, -1)
      else rbind (rd buf 0 (unat len)) (\<lambda>frame.
        let sr_pkt = packet_msg iface len frame in
        rbind (sr_log_packet E sr buf len) (\<lambda>sr.
        rbind (sr_ether_addrs_match_interface sr buf iface) (\<lambda>match.
        if \<not> match then Inr (sr, -1)
        else
          let n = sock_write E sr_pkt;
              sr = sr\<lparr>wire := wire sr @ (if 0 < n then [take (nat n) sr_pkt] else [])\<rparr>
          in if n < int (unat total_len) then Inr (sr, -1) else Inr (sr, 0)))))"

text \<open>An ARP request that asks for an address the receiving interface does not have.\<close>

definition sr_arp_req_not_for_us :: "sr_instance \<Rightarrow> bytes \<Rightarrow> u32 \<Rightarrow> bytes \<Rightarrow> bool res" where
  "sr_arp_req_not_for_us sr packet len interface =
     (let iface = sr_get_interface sr interface in
      if unat len < sizeof_eth + sizeof_arp then Inr False
      else case iface of
        None \<Rightarrow> Inl AssertFailed
      | Some i \<Rightarrow>
          rbind (ld_eth packet) (\<lambda>e_hdr.
          rbind (ld_arp packet) (\<lambda>a_hdr.
          Inr (ether_type e_hdr = htons ethertype_arp \<and> ar_op a_hdr = htons arp_op_request
               \<and> ar_tip a_hdr \<noteq> if_ip i))))"

section \<open>The contract of a handler\<close>

text \<open>
  A message on the wire is (the written part of) a \<open>VNSPACKET\<close> that names an interface of the router
  and carries a frame whose source address is that interface's.
\<close>

definition wire_msg_ok :: "sr_instance \<Rightarrow> bytes \<Rightarrow> bool" where
  "wire_msg_ok sr m \<longleftrightarrow> (\<exists>n name len frame i.
     m = take n (packet_msg name len frame) \<and> 0 < n \<and> unat len = length frame
     \<and> sizeof_eth \<le> length frame \<and> sr_get_interface sr name = Some i
     \<and> ether_shost (dec_eth (take sizeof_eth frame)) = if_addr i)"

definition good_step :: "sr_instance \<Rightarrow> sr_instance \<Rightarrow> bool" where
  "good_step sr sr' \<longleftrightarrow>
     (cache_inv (cache sr) \<longrightarrow> cache_inv (cache sr'))
     \<and> if_list sr' = if_list sr \<and> routing_table sr' = routing_table sr
     \<and> user sr' = user sr \<and> host sr' = host sr \<and> template sr' = template sr \<and> topo_id sr' = topo_id sr
     \<and> (\<exists>ms. wire sr' = wire sr @ ms \<and> list_all (wire_msg_ok sr) ms)"

lemma wire_msg_ok_cong: "if_list sr' = if_list sr \<Longrightarrow> wire_msg_ok sr' = wire_msg_ok sr"
  by (simp add: wire_msg_ok_def fun_eq_iff sr_get_interface_def)

lemma good_step_refl [simp]: "good_step sr sr"
  by (simp add: good_step_def)

lemma good_step_trans:
  assumes "good_step sr1 sr2" "good_step sr2 sr3"
  shows "good_step sr1 sr3"
proof -
  obtain ms where "wire sr2 = wire sr1 @ ms" "list_all (wire_msg_ok sr1) ms"
    using assms(1) by (auto simp: good_step_def)
  moreover obtain ns where "wire sr3 = wire sr2 @ ns" "list_all (wire_msg_ok sr2) ns"
    using assms(2) by (auto simp: good_step_def)
  moreover have "wire_msg_ok sr2 = wire_msg_ok sr1"
    using assms(1) by (intro wire_msg_ok_cong) (simp add: good_step_def)
  ultimately have "wire sr3 = wire sr1 @ (ms @ ns)" "list_all (wire_msg_ok sr1) (ms @ ns)"
    by simp_all
  then have "\<exists>ms. wire sr3 = wire sr1 @ ms \<and> list_all (wire_msg_ok sr1) ms" by blast
  with assms show ?thesis by (simp add: good_step_def)
qed

text \<open>Steps that touch neither the configuration nor the wire.\<close>

lemma good_step_cache:
  "(cache_inv (cache sr) \<Longrightarrow> cache_inv c) \<Longrightarrow> good_step sr (sr\<lparr>cache := c\<rparr>)"
  by (auto simp: good_step_def)

locale handler =
  fixes h :: "sr_instance \<Rightarrow> sr_instance res"
  assumes good: "cache_inv (cache sr) \<Longrightarrow> h sr = Inr sr' \<Longrightarrow> good_step sr sr'"
begin

lemma keeps_inv: "cache_inv (cache sr) \<Longrightarrow> h sr = Inr sr' \<Longrightarrow> cache_inv (cache sr')"
  using good [of sr sr'] by (simp add: good_step_def)

lemma keeps_config: "cache_inv (cache sr) \<Longrightarrow> h sr = Inr sr' \<Longrightarrow>
   if_list sr' = if_list sr \<and> routing_table sr' = routing_table sr"
  using good [of sr sr'] by (simp add: good_step_def)

lemma only_adds_to_wire: "cache_inv (cache sr) \<Longrightarrow> h sr = Inr sr' \<Longrightarrow> \<exists>ms. wire sr' = wire sr @ ms"
  using good [of sr sr'] by (auto simp: good_step_def)

lemma keeps_wire_ok: "cache_inv (cache sr) \<Longrightarrow> h sr = Inr sr' \<Longrightarrow>
   list_all (wire_msg_ok sr) (wire sr) \<Longrightarrow> list_all (wire_msg_ok sr') (wire sr')"
  using wire_msg_ok_cong [of sr' sr] good [of sr sr'] by (auto simp: good_step_def)

lemma keeps_routes: "cache_inv (cache sr) \<Longrightarrow> h sr = Inr sr' \<Longrightarrow> routes_ok sr \<Longrightarrow> routes_ok sr'"
  using keeps_config [of sr sr'] by (simp add: routes_ok_def sr_get_interface_def)

text \<open>Handlers run one after the other are a handler.\<close>

lemma then_handler:
  assumes "handler g"
  shows "handler (\<lambda>sr. rbind (h sr) g)"
proof
  fix sr sr'
  assume inv: "cache_inv (cache sr)" and "rbind (h sr) g = Inr sr'"
  then obtain sr1 where 1: "h sr = Inr sr1" and 2: "g sr1 = Inr sr'"
    by (auto simp: rbind_eq_Inr)
  have "good_step sr sr1" using inv 1 by (rule good)
  moreover have "good_step sr1 sr'"
    using keeps_inv [OF inv 1] 2 by (rule handler.good [OF assms])
  ultimately show "good_step sr sr'" by (rule good_step_trans)
qed

end

lemma sr_log_packet_frame:
  assumes "sr_log_packet E sr buf len = Inr sr'"
  shows "\<exists>l. sr' = sr\<lparr>logfile := l\<rparr>"
proof (cases "logfile sr")
  case None
  then have "sr' = sr\<lparr>logfile := logfile sr\<rparr>" using assms by (simp add: sr_log_packet_def)
  then show ?thesis ..
qed (use assms in \<open>auto simp: sr_log_packet_def Let_def rbind_eq_Inr\<close>)

lemma sr_send_packet_good:
  assumes "sr_send_packet E sr buf len iface = Inr (sr', ret)"
  shows "good_step sr sr'" "cache sr' = cache sr"
proof -
  have "good_step sr sr' \<and> cache sr' = cache sr"
  proof (cases "unat len < sizeof_eth")
    case True
    then show ?thesis using assms by (simp add: sr_send_packet_def)
  next
    case False
    then obtain frame sr1 match where rd: "rd buf 0 (unat len) = Inr frame"
      and log: "sr_log_packet E sr buf len = Inr sr1"
      and match: "sr_ether_addrs_match_interface sr1 buf iface = Inr match"
      using assms by (auto simp: sr_send_packet_def rbind_eq_Inr Let_def)
    obtain l where sr1: "sr1 = sr\<lparr>logfile := l\<rparr>" using sr_log_packet_frame [OF log] ..
    define n where "n = sock_write E (packet_msg iface len frame)"
    show ?thesis
    proof (cases match)
      case False
      then have "sr' = sr1"
        using assms rd log match \<open>\<not> unat len < sizeof_eth\<close>
        by (simp add: sr_send_packet_def Let_def)
      then show ?thesis by (simp add: sr1 good_step_def)
    next
      case True
      then have sr': "sr' = sr1\<lparr>wire := wire sr1 @ (if 0 < n then [take (nat n) (packet_msg iface len frame)] else [])\<rparr>"
        using assms rd log match \<open>\<not> unat len < sizeof_eth\<close>
        by (auto simp: sr_send_packet_def Let_def n_def split: if_splits)
      have "sr_get_interface sr1 iface = sr_get_interface sr iface"
        by (simp add: sr1 sr_get_interface_def)
      then obtain i where i: "sr_get_interface sr iface = Some i"
        and sh: "ether_shost (dec_eth (take sizeof_eth buf)) = if_addr i"
        using match True
        by (auto simp: sr_ether_addrs_match_interface_def ld_def rd_def rbind_eq_Inr
            split: option.splits if_splits)
      have fr: "frame = take (unat len) buf" "unat len \<le> length buf"
        using rd by (auto simp: rd_def split: if_splits)
      then have "take sizeof_eth frame = take sizeof_eth buf" using \<open>\<not> unat len < sizeof_eth\<close>
        by (simp add: min_def)
      then have "0 < n \<Longrightarrow> wire_msg_ok sr (take (nat n) (packet_msg iface len frame))"
        unfolding wire_msg_ok_def using i sh fr \<open>\<not> unat len < sizeof_eth\<close>
        by (intro exI [of _ "nat n"] exI [of _ iface] exI [of _ len] exI [of _ frame] exI [of _ i])
          (simp add: min_def)
      then show ?thesis by (simp add: good_step_def sr' sr1)
    qed
  qed
  then show "good_step sr sr'" "cache sr' = cache sr" by simp_all
qed

text \<open>
  The full behaviour of a send for a buffer of the stated length: nothing is written for a frame
  shorter than an Ethernet header, an unknown interface or a foreign source address; otherwise the
  whole message goes to the socket.
\<close>

definition source_ok :: "sr_instance \<Rightarrow> bytes \<Rightarrow> bytes \<Rightarrow> bool" where
  "source_ok sr frame iface \<longleftrightarrow> sizeof_eth \<le> length frame
     \<and> (\<exists>i. sr_get_interface sr iface = Some i
            \<and> ether_shost (dec_eth (take sizeof_eth frame)) = if_addr i)"

text \<open>The record the log gets for a frame.\<close>

definition log_frame :: "env \<Rightarrow> sr_instance \<Rightarrow> bytes \<Rightarrow> sr_instance" where
  "log_frame E sr frame = (case logfile sr of None \<Rightarrow> sr | Some fp \<Rightarrow>
     let n = min PACKET_DUMP_SIZE (length frame)
     in sr\<lparr>logfile := Some (fp @ le32 (fst (tv E)) @ le32 (snd (tv E)) @ le32 (of_nat n)
            @ le32 (of_nat n) @ take n frame)\<rparr>)"

lemma log_frame_sels [simp]:
  "if_list (log_frame E sr f) = if_list sr" "routing_table (log_frame E sr f) = routing_table sr"
  "cache (log_frame E sr f) = cache sr" "wire (log_frame E sr f) = wire sr"
  "user (log_frame E sr f) = user sr"
  by (simp_all add: log_frame_def Let_def split: option.split)

lemma log_frame_none: "logfile sr = None \<Longrightarrow> log_frame E sr f = sr"
  by (simp add: log_frame_def)

lemma sint_small: "n < 2 ^ 31 \<Longrightarrow> sint (of_nat n :: u32) = int n"
  by (simp add: signed_of_nat signed_take_bit_int_eq_self)

lemma sr_log_packet_frame_spec:
  assumes "unat len \<le> length buf" "unat len < 2 ^ 31"
  shows "sr_log_packet E sr buf len = Inr (log_frame E sr (take (unat len) buf))"
proof (cases "logfile sr")
  case (Some fp)
  define n where "n = min PACKET_DUMP_SIZE (unat len)"
  have n: "n \<le> 1024" "n \<le> unat len" "n = min PACKET_DUMP_SIZE (length (take (unat len) buf))"
    using assms(1) by (auto simp: n_def PACKET_DUMP_SIZE_def)
  have len: "sint len = int (unat len)" using sint_small [OF assms(2)] by simp
  have size: "(if int PACKET_DUMP_SIZE < sint len then of_nat PACKET_DUMP_SIZE else len) = of_nat n"
  proof (cases "PACKET_DUMP_SIZE < unat len")
    case True
    then have "int PACKET_DUMP_SIZE < sint len" unfolding len by (simp only: of_nat_less_iff)
    moreover have "n = PACKET_DUMP_SIZE" using True by (simp add: n_def)
    ultimately show ?thesis by simp
  next
    case False
    then have "\<not> int PACKET_DUMP_SIZE < sint len"
      unfolding len by (simp only: of_nat_less_iff not_False_eq_True)
    moreover have "n = unat len" using False by (simp add: n_def)
    ultimately show ?thesis by simp
  qed
  have "sint (of_nat n :: u32) = int n" using n(1) by (intro sint_small) simp
  then have len': "(if sint (of_nat n :: u32) < int PACKET_DUMP_SIZE then of_nat n
      else of_nat PACKET_DUMP_SIZE) = (of_nat n :: u32)"
    using n(1) by (auto simp: PACKET_DUMP_SIZE_def)
  have u: "unat (of_nat n :: u32) = n" using n(1) by (simp add: unat_of_nat)
  have t: "take n (take (unat len) buf) = take n buf" using n(2) by (simp add: min_def)
  show ?thesis
    using Some n(2) assms(1)
    unfolding sr_log_packet_def sr_dump_def log_frame_def Let_def size len' n(3) [symmetric] t
    by (simp add: rd_def u)
qed (simp add: sr_log_packet_def log_frame_def)

lemma sr_send_packet_spec:
  fixes buf iface :: bytes
  assumes "unat len \<le> length buf" "unat len < 2 ^ 31"
  defines "frame \<equiv> take (unat len) buf" and "m \<equiv> packet_msg iface len (take (unat len) buf)"
  assumes "sizeof_eth \<le> unat len"
  shows "sr_send_packet E sr buf len iface = Inr
    (if source_ok sr frame iface
     then ((log_frame E sr frame)\<lparr>wire := wire sr @
             (if 0 < sock_write E m then [take (nat (sock_write E m)) m] else [])\<rparr>,
           if sock_write E m < int (unat (len + of_nat sizeof_packet_header)) then -1 else 0)
     else (log_frame E sr frame, -1))"
proof -
  have g: "sr_get_interface (log_frame E sr frame) = sr_get_interface sr"
    by (rule sr_get_interface_cong) simp
  have t: "take sizeof_eth frame = take sizeof_eth buf" "sizeof_eth \<le> length frame"
    using assms(1,5) by (simp_all add: frame_def min_def)
  have "sr_ether_addrs_match_interface (log_frame E sr frame) buf iface = Inr (source_ok sr frame iface)"
    using assms(1,5) t
    by (auto simp: sr_ether_addrs_match_interface_def source_ok_def g eth.ld_ok split: option.split)
  then show ?thesis
    using assms(5) sr_log_packet_frame_spec [OF assms(1,2)] assms(1)
    by (auto simp: sr_send_packet_def rd_def Let_def m_def simp flip: frame_def)
qed

text \<open>
  The state after a frame with a proper source address has been sent: it is logged, and the socket
  takes as much of its message as \<open>write\<close> accepts.
\<close>

definition emit :: "env \<Rightarrow> bytes \<Rightarrow> bytes \<Rightarrow> sr_instance \<Rightarrow> sr_instance" where
  "emit E iface frame sr =
     (let m = packet_msg iface (of_nat (length frame)) frame; n = sock_write E m
      in (log_frame E sr frame)\<lparr>wire := wire sr @ (if 0 < n then [take (nat n) m] else [])\<rparr>)"

text \<open>A socket that takes every message whole.\<close>

definition full_write :: "env \<Rightarrow> bool" where
  "full_write E \<longleftrightarrow> (\<forall>m. sock_write E m = int (length m))"

lemma length_packet_msg [simp]: "length (packet_msg iface len frame) = sizeof_packet_header + length frame"
  by (simp add: packet_msg_def sizeof_packet_header_def)

lemma emit_sels [simp]:
  "if_list (emit E iface f sr) = if_list sr" "routing_table (emit E iface f sr) = routing_table sr"
  "cache (emit E iface f sr) = cache sr"
  by (simp_all add: emit_def Let_def)

lemma wire_emit:
  "full_write E \<Longrightarrow> wire (emit E iface f sr) = wire sr @ [packet_msg iface (of_nat (length f)) f]"
  by (simp add: emit_def full_write_def Let_def packet_msg_def le32_def)

lemma send_emit:
  assumes "unat len \<le> length buf" "unat len < 2 ^ 31" "source_ok sr (take (unat len) buf) iface"
  shows "rbind (sr_send_packet E sr buf len iface) (\<lambda>(sr, _). Inr sr)
    = Inr (emit E iface (take (unat len) buf) sr)"
proof -
  have "sizeof_eth \<le> unat len" using assms(1,3) by (simp add: source_ok_def)
  moreover have "length (take (unat len) buf) = unat len" using assms(1) by simp
  ultimately show ?thesis
    using assms by (simp add: sr_send_packet_spec emit_def Let_def)
qed

lemma send_oob:
  assumes "length buf < unat len" "sizeof_eth \<le> length buf"
  shows "sr_send_packet E sr buf len iface = Inl OutOfBounds"
  using assms by (simp add: sr_send_packet_def rd_def Let_def)

section \<open>Property\<close>

text \<open>C36: \<open>sr_send_packet\<close> never puts a frame with a foreign source address, a frame for an unknown
  interface or a frame without a whole Ethernet header on the wire, and says so by returning -1; any
  other frame is written once, with its \<open>VNSPACKET\<close> header, and 0 is returned.\<close>

theorem send_packet_effect:
  assumes "unat len \<le> length buf" "unat len < 2 ^ 31" "full_write E"
  shows "\<exists>sr'. sr_send_packet E sr buf len iface =
      Inr (sr', if source_ok sr (take (unat len) buf) iface then 0 else -1)
    \<and> wire sr' = wire sr @ (if source_ok sr (take (unat len) buf) iface
        then [packet_msg iface len (take (unat len) buf)] else [])
    \<and> cache sr' = cache sr"
proof (cases "sizeof_eth \<le> unat len")
  case True
  have total: "unat (len + of_nat sizeof_packet_header) = unat len + 24"
    using assms(2) by (simp add: sizeof_packet_header_def unat_word_ariths)
  define m where "m = packet_msg iface len (take (unat len) buf)"
  have lm: "length m = unat len + 24"
    using assms(1) by (simp add: m_def sizeof_packet_header_def)
  have sw: "sock_write E m = int (length m)" using assms(3) by (simp add: full_write_def)
  have "take (nat (sock_write E m)) m = m" unfolding sw nat_int by simp
  moreover have "0 < length m" by (simp add: lm)
  then have "0 < sock_write E m" unfolding sw by (simp only: of_nat_0_less_iff)
  moreover have "\<not> sock_write E m < int (unat (len + of_nat sizeof_packet_header))"
    unfolding sw total lm by (simp only: less_irrefl not_False_eq_True)
  ultimately have "take (nat (sock_write E m)) m = m" "0 < sock_write E m"
    "\<not> sock_write E m < int (unat (len + of_nat sizeof_packet_header))" by blast+
  then show ?thesis
    using sr_send_packet_spec [OF assms(1,2) True, of E sr iface] by (auto simp flip: m_def)
next
  case False
  then show ?thesis by (auto simp: sr_send_packet_def source_ok_def)
qed

theorem send_packet_effect_witness:
  "\<exists>sr'. sr_send_packet ex_env ex_router ex_udp 34 (if_name ex_if1) = Inr (sr', -1)"
proof -
  have "unat (34 :: u32) \<le> length ex_udp" "unat (34 :: u32) < 2 ^ 31" by (simp_all add: ex_udp_def)
  moreover have "full_write ex_env" by (simp add: full_write_def ex_env_def)
  moreover have "\<not> source_ok ex_router (take (unat (34 :: u32)) ex_udp) (if_name ex_if1)"
  proof -
    have "sr_get_interface ex_router (if_name ex_if1) = Some ex_if1"
      "ether_shost (dec_eth (take sizeof_eth (take (unat (34 :: u32)) ex_udp))) \<noteq> if_addr ex_if1"
      by code_simp+
    then show ?thesis by (simp add: source_ok_def)
  qed
  ultimately show ?thesis
    using send_packet_effect [of 34 ex_udp ex_env ex_router "if_name ex_if1"] by auto
qed

end
