(* ===== verification/Sr_Icmp.thy ===== *)
theory Sr_Icmp
  imports Sr_Vns_Comm
begin

text \<open>
  \<open>sr_icmp.c\<close>: the echo reply, which rewrites the received packet in place, and the four error
  messages. Three of the errors are built in a fresh 70-byte block, with the same code but for the
  ICMP type and code and the decrement of the TTL; \<open>icmp_error\<close> is that code. All of them send \<open>len\<close>
  bytes, the length of the packet received, whatever the length of the message built.
\<close>

definition Echo_Reply ::
    "env \<Rightarrow> bytes \<Rightarrow> sr_instance \<Rightarrow> bytes \<Rightarrow> u32 \<Rightarrow> sr_instance res" where
  "Echo_Reply E packet sr interface len =
     rbind (ld_eth packet) (\<lambda>ehdr.
     rbind (deref (sr_get_interface sr interface)) (\<lambda>get_interface.
     rbind (st_eth packet (ehdr\<lparr>ether_shost := if_addr get_interface,
                                ether_dhost := ether_shost ehdr\<rparr>)) (\<lambda>packet.
     rbind (ld_ip packet) (\<lambda>iphdr.
     let iphdr = iphdr\<lparr>ip_dst := ip_src iphdr, ip_src := if_ip get_interface\<rparr> in
     rbind (ld_icmp packet) (\<lambda>icmp_hdr.
     let icmp_hdr = icmp_hdr\<lparr>icmp_type := 0\<rparr> in
     rbind (st_ip packet (set_ip_cksum iphdr)) (\<lambda>packet.
     let icmp_hdr = icmp_hdr\<lparr>icmp_sum := 0\<rparr>;
         icmp_hdr = icmp_hdr\<lparr>icmp_sum := cksum (enc_icmp icmp_hdr)\<rparr> in
     rbind (st_icmp packet icmp_hdr) (\<lambda>packet.
     rbind (sr_send_packet E sr packet len interface) (\<lambda>(sr, _). Inr sr))))))))"

text \<open>The three headers of an error message, from those of the packet it answers.\<close>

definition error_eth :: "sr_if \<Rightarrow> sr_ethernet_hdr \<Rightarrow> sr_ethernet_hdr" where
  "error_eth i ehdr_old = \<lparr> ether_dhost = ether_shost ehdr_old, ether_shost = if_addr i,
                            ether_type = ether_type ehdr_old \<rparr>"

definition error_ip :: "sr_if \<Rightarrow> sr_ip_hdr \<Rightarrow> u8 \<Rightarrow> sr_ip_hdr" where
  "error_ip i iphdr_old ttl = set_ip_cksum
     \<lparr> ip_hl = 5, ip_v = 4, ip_tos = ip_tos iphdr_old,
       ip_len = htons (of_nat (sizeof_ip + sizeof_icmp_t3)), ip_id = ip_id iphdr_old,
       ip_off = ip_off iphdr_old, ip_ttl = ttl, ip_p = 1, ip_sum = 0,
       ip_src = if_ip i, ip_dst = ip_src iphdr_old \<rparr>"

definition error_icmp :: "env \<Rightarrow> u8 \<Rightarrow> u8 \<Rightarrow> bytes \<Rightarrow> sr_icmp_t3_hdr" where
  "error_icmp E type code data =
     (let icmp_hdr = \<lparr> t3_type = type, t3_code = code, t3_sum = 0, t3_unused = 0,
                       t3_next_mtu = junk_mtu E, t3_data = data \<rparr>
      in icmp_hdr\<lparr>t3_sum := cksum (enc_t3 icmp_hdr)\<rparr>)"

definition icmp_error ::
    "env \<Rightarrow> bytes \<Rightarrow> sr_instance \<Rightarrow> bytes \<Rightarrow> u32 \<Rightarrow> u8 \<Rightarrow> u8 \<Rightarrow> (u8 \<Rightarrow> u8) \<Rightarrow> sr_instance res" where
  "icmp_error E packet sr interface len type code new_ttl =
     rbind (ld_eth packet) (\<lambda>ehdr_old.
     rbind (deref (sr_get_interface sr interface)) (\<lambda>get_interface.
     rbind (ld_ip packet) (\<lambda>iphdr_old.
     rbind (rd packet sizeof_eth ICMP_DATA_SIZE) (\<lambda>data.
     let buff = enc_eth (error_eth get_interface ehdr_old)
          @ enc_ip (error_ip get_interface iphdr_old (new_ttl (ip_ttl iphdr_old)))
          @ enc_t3 (error_icmp E type code data) in
     rbind (sr_send_packet E sr buff len interface) (\<lambda>(sr, _). Inr sr)))))"

definition Time_Exceeded ::
    "env \<Rightarrow> bytes \<Rightarrow> sr_instance \<Rightarrow> bytes \<Rightarrow> u32 \<Rightarrow> sr_instance res" where
  "Time_Exceeded E packet sr interface len =
     icmp_error E packet sr interface len 11 0 (\<lambda>ttl. ttl - 1)"

definition dest_host_unreach ::
    "env \<Rightarrow> bytes \<Rightarrow> sr_instance \<Rightarrow> bytes \<Rightarrow> u32 \<Rightarrow> sr_instance res" where
  "dest_host_unreach E packet sr interface len =
     icmp_error E packet sr interface len 3 1 (\<lambda>ttl. ttl)"

definition Port_unreach ::
    "env \<Rightarrow> bytes \<Rightarrow> sr_instance \<Rightarrow> bytes \<Rightarrow> u32 \<Rightarrow> sr_instance res" where
  "Port_unreach E packet sr interface len =
     icmp_error E packet sr interface len 3 3 (\<lambda>ttl. ttl)"

text \<open>
  The in-place version, which no handler calls: the received packet must have room for the type-3
  header, and the data is copied before the headers are rewritten.
\<close>

definition Dest_net_unreach ::
    "env \<Rightarrow> bytes \<Rightarrow> sr_instance \<Rightarrow> bytes \<Rightarrow> u32 \<Rightarrow> sr_instance res" where
  "Dest_net_unreach E packet sr interface len =
     rbind (ld_eth packet) (\<lambda>ehdr.
     rbind (rd packet sizeof_eth ICMP_DATA_SIZE) (\<lambda>data.
     rbind (ld dec_t3 sizeof_icmp_t3 packet (sizeof_eth + sizeof_ip)) (\<lambda>icmp_hdr.
     rbind (deref (sr_get_interface sr interface)) (\<lambda>get_interface.
     rbind (st_t3 packet (icmp_hdr\<lparr>t3_data := data\<rparr>)) (\<lambda>packet.
     rbind (st_eth packet (ehdr\<lparr>ether_shost := if_addr get_interface,
                                ether_dhost := ether_shost ehdr\<rparr>)) (\<lambda>packet.
     rbind (ld_ip packet) (\<lambda>iphdr.
     let iphdr = iphdr\<lparr>ip_dst := ip_src iphdr, ip_src := if_ip get_interface\<rparr> in
     rbind (st_ip packet (set_ip_cksum iphdr)) (\<lambda>packet.
     let icmp_hdr = icmp_hdr\<lparr>t3_data := data, t3_type := 3, t3_code := 0, t3_sum := 0\<rparr>;
         icmp_hdr = icmp_hdr\<lparr>t3_sum := cksum (enc_t3 icmp_hdr)\<rparr> in
     rbind (st_t3 packet icmp_hdr) (\<lambda>packet.
     rbind (sr_send_packet E sr packet len interface) (\<lambda>(sr, _). Inr sr))))))))))"

section \<open>Every message keeps the handler contract\<close>

lemma send_then_Inr_good:
  "rbind (sr_send_packet E sr packet len iface) (\<lambda>(sr, _). Inr sr) = Inr sr' \<Longrightarrow> good_step sr sr'"
  by (auto simp: rbind_eq_Inr dest: sr_send_packet_good)

lemma icmp_error_good:
  "icmp_error E packet sr interface len type code f = Inr sr' \<Longrightarrow> good_step sr sr'"
  unfolding icmp_error_def Let_def
  by (auto simp only: rbind_eq_Inr [of "ld _ _ _ _"] rbind_eq_Inr [of "deref _"]
      rbind_eq_Inr [of "rd _ _ _"] intro: send_then_Inr_good)

lemma icmp_error_cache:
  "icmp_error E packet sr interface len type code f = Inr sr' \<Longrightarrow> cache sr' = cache sr"
  unfolding icmp_error_def Let_def
  by (auto simp: rbind_eq_Inr dest: sr_send_packet_good(2))

lemma Echo_Reply_good: "Echo_Reply E packet sr interface len = Inr sr' \<Longrightarrow> good_step sr sr'"
  unfolding Echo_Reply_def Let_def
  by (auto simp: rbind_eq_Inr dest: sr_send_packet_good(1))

lemma Echo_Reply_cache: "Echo_Reply E packet sr interface len = Inr sr' \<Longrightarrow> cache sr' = cache sr"
  unfolding Echo_Reply_def Let_def
  by (auto simp: rbind_eq_Inr dest: sr_send_packet_good(2))

lemma Dest_net_unreach_good: "Dest_net_unreach E packet sr interface len = Inr sr' \<Longrightarrow> good_step sr sr'"
  unfolding Dest_net_unreach_def Let_def
  by (auto simp: rbind_eq_Inr dest: sr_send_packet_good(1))

interpretation echo: handler "\<lambda>sr. Echo_Reply E packet sr interface len"
  for E packet interface len
  by unfold_locales (rule Echo_Reply_good)

interpretation time_exceeded: handler "\<lambda>sr. Time_Exceeded E packet sr interface len"
  for E packet interface len
  by unfold_locales (unfold Time_Exceeded_def, rule icmp_error_good)

interpretation host_unreach: handler "\<lambda>sr. dest_host_unreach E packet sr interface len"
  for E packet interface len
  by unfold_locales (unfold dest_host_unreach_def, rule icmp_error_good)

interpretation port_unreach: handler "\<lambda>sr. Port_unreach E packet sr interface len"
  for E packet interface len
  by unfold_locales (unfold Port_unreach_def, rule icmp_error_good)

interpretation net_unreach: handler "\<lambda>sr. Dest_net_unreach E packet sr interface len"
  for E packet interface len
  by unfold_locales (rule Dest_net_unreach_good)

section \<open>What is sent\<close>

text \<open>The 70 bytes of an error message.\<close>

definition error_frame :: "env \<Rightarrow> sr_if \<Rightarrow> bytes \<Rightarrow> u8 \<Rightarrow> u8 \<Rightarrow> (u8 \<Rightarrow> u8) \<Rightarrow> bytes" where
  "error_frame E i packet type code new_ttl =
     (let iphdr = dec_ip (take sizeof_ip (drop sizeof_eth packet))
      in enc_eth (error_eth i (dec_eth (take sizeof_eth packet)))
         @ enc_ip (error_ip i iphdr (new_ttl (ip_ttl iphdr)))
         @ enc_t3 (error_icmp E type code (take ICMP_DATA_SIZE (drop sizeof_eth packet))))"

lemma length_enc_t3_error:
  "length data = ICMP_DATA_SIZE \<Longrightarrow> length (enc_t3 (error_icmp E type code data)) = sizeof_icmp_t3"
  by (rule t3.length_enc) (simp add: error_icmp_def Let_def)

lemma length_error_frame:
  "sizeof_eth + ICMP_DATA_SIZE \<le> length packet \<Longrightarrow> length (error_frame E i packet type code f) = 70"
  using length_enc_t3_error [of "take ICMP_DATA_SIZE (drop sizeof_eth packet)" E type code]
  by (simp add: error_frame_def eth.length_enc ip.length_enc Let_def sizeof_defs)

lemma take_append_eth: "take sizeof_eth (enc_eth h @ bs) = enc_eth h"
  by (simp add: eth.length_enc)

lemma source_ok_eth:
  assumes "sr_get_interface sr iface = Some i" "ether_shost h = if_addr i" "sizeof_eth \<le> n"
  shows "source_ok sr (take n (enc_eth h @ bs)) iface"
proof -
  have "take sizeof_eth (take n (enc_eth h @ bs)) = enc_eth h"
    using assms(3) by (simp add: eth.length_enc min_def)
  moreover have "sizeof_eth \<le> length (take n (enc_eth h @ bs))"
    using assms(3) by (simp add: eth.length_enc)
  ultimately show ?thesis using assms by (simp add: source_ok_def eth.dec_enc)
qed

lemma icmp_error_build:
  assumes "sizeof_eth + ICMP_DATA_SIZE \<le> length packet" "sr_get_interface sr interface = Some i"
  shows "icmp_error E packet sr interface len type code f =
    rbind (sr_send_packet E sr (error_frame E i packet type code f) len interface) (\<lambda>(sr, _). Inr sr)"
  using assms
  by (simp add: icmp_error_def error_frame_def ld_def rd_def Let_def sizeof_defs ICMP_DATA_SIZE_def)

text \<open>A message for a packet of at most 70 bytes is cut to the length of the packet.\<close>

lemma icmp_error_emit:
  assumes "sizeof_eth + ICMP_DATA_SIZE \<le> length packet" "sr_get_interface sr interface = Some i"
    and "sizeof_eth \<le> unat len" "unat len \<le> 70"
  shows "icmp_error E packet sr interface len type code f =
    Inr (emit E interface (take (unat len) (error_frame E i packet type code f)) sr)"
proof -
  have "source_ok sr (take (unat len) (error_frame E i packet type code f)) interface"
    unfolding error_frame_def Let_def
    by (rule source_ok_eth) (use assms in \<open>simp_all add: error_eth_def\<close>)
  then show ?thesis
    using assms by (simp add: icmp_error_build send_emit length_error_frame)
qed

text \<open>For a longer packet the send reads past the end of the 70-byte block.\<close>

lemma icmp_error_overread:
  assumes "sizeof_eth + ICMP_DATA_SIZE \<le> length packet" "sr_get_interface sr interface = Some i"
    and "70 < unat len"
  shows "icmp_error E packet sr interface len type code f = Inl OutOfBounds"
  using assms by (simp add: icmp_error_build send_oob length_error_frame sizeof_eth_def)

text \<open>The frame an echo request is rewritten to.\<close>

definition echo_frame :: "sr_if \<Rightarrow> bytes \<Rightarrow> bytes" where
  "echo_frame i packet =
     (let ehdr = dec_eth (take sizeof_eth packet);
          iphdr = dec_ip (take sizeof_ip (drop sizeof_eth packet));
          icmp_hdr = dec_icmp (take sizeof_icmp (drop (sizeof_eth + sizeof_ip) packet));
          icmp_hdr = icmp_hdr\<lparr>icmp_type := 0, icmp_sum := 0\<rparr>
      in enc_eth (ehdr\<lparr>ether_shost := if_addr i, ether_dhost := ether_shost ehdr\<rparr>)
         @ enc_ip (set_ip_cksum (iphdr\<lparr>ip_dst := ip_src iphdr, ip_src := if_ip i\<rparr>))
         @ enc_icmp (icmp_hdr\<lparr>icmp_sum := cksum (enc_icmp icmp_hdr)\<rparr>)
         @ drop (sizeof_eth + sizeof_ip + sizeof_icmp) packet)"

lemma length_echo_frame:
  "sizeof_eth + sizeof_ip + sizeof_icmp \<le> length packet \<Longrightarrow> length (echo_frame i packet) = length packet"
  by (simp add: echo_frame_def Let_def eth.length_enc ip.length_enc icmp.length_enc sizeof_defs)

lemma Echo_Reply_emit:
  assumes "unat len = length packet" "sizeof_eth + sizeof_ip + sizeof_icmp \<le> length packet"
    and "sr_get_interface sr interface = Some i" "length packet < 2 ^ 31"
  shows "Echo_Reply E packet sr interface len = Inr (emit E interface (echo_frame i packet) sr)"
proof -
  have b: "38 \<le> length packet" using assms(2) by (simp add: sizeof_defs)
  have "Echo_Reply E packet sr interface len =
      rbind (sr_send_packet E sr (echo_frame i packet) len interface) (\<lambda>(sr, _). Inr sr)"
    using b assms(3)
    by (simp add: Echo_Reply_def echo_frame_def Let_def ld_def rd_def st_def wr_def eth.length_enc
        ip.length_enc icmp.length_enc sizeof_defs add.commute)
  moreover have "source_ok sr (take (unat len) (echo_frame i packet)) interface"
    unfolding echo_frame_def Let_def
    by (rule source_ok_eth) (use assms(1-3) in \<open>simp_all add: sizeof_defs\<close>)
  ultimately show ?thesis
    using assms length_echo_frame [OF assms(2), of i] by (simp add: send_emit)
qed

section \<open>Properties\<close>

lemma rfc_sum_enc_t3: "rfc_sum (enc_t3 h) = rfc_sum (enc_t3 (h\<lparr>t3_sum := 0\<rparr>)) + unat (ntohs (t3_sum h))"
  by (simp add: enc_t3_def le16_def ntohs_def unat_htons)

lemma rfc_sum_enc_icmp:
  "rfc_sum (enc_icmp h) = rfc_sum (enc_icmp (h\<lparr>icmp_sum := 0\<rparr>)) + unat (ntohs (icmp_sum h))"
  by (simp add: enc_icmp_def le16_def ntohs_def unat_htons)

lemma icmp_header_sum: "oc_fold (rfc_sum (enc_icmp (h\<lparr>icmp_sum := cksum (enc_icmp (h\<lparr>icmp_sum := 0\<rparr>))\<rparr>))) = 65535"
proof -
  have "rfc_sum (enc_icmp (h\<lparr>icmp_sum := 0\<rparr>)) < 2 ^ 32"
    using rfc_sum_bound [of "enc_icmp (h\<lparr>icmp_sum := 0\<rparr>)"] by (simp add: icmp.length_enc sizeof_icmp_def)
  from cksum_completes [OF this] show ?thesis
    using rfc_sum_enc_icmp [of "h\<lparr>icmp_sum := cksum (enc_icmp (h\<lparr>icmp_sum := 0\<rparr>))\<rparr>"] by simp
qed

lemma t3_sum_valid: "length data = ICMP_DATA_SIZE \<Longrightarrow> rfc1071_valid (enc_t3 (error_icmp E type code data))"
proof -
  assume len: "length data = ICMP_DATA_SIZE"
  define h where "h = \<lparr> t3_type = type, t3_code = code, t3_sum = 0, t3_unused = 0,
    t3_next_mtu = junk_mtu E, t3_data = data \<rparr>"
  have "length (enc_t3 h) = sizeof_icmp_t3" by (rule t3.length_enc) (simp add: h_def len)
  then have "rfc_sum (enc_t3 h) < 2 ^ 32"
    using rfc_sum_bound [of "enc_t3 h"] by (simp add: sizeof_icmp_t3_def)
  from cksum_completes [OF this] show ?thesis
    using rfc_sum_enc_t3 [of "h\<lparr>t3_sum := cksum (enc_t3 h)\<rparr>"]
    by (simp add: rfc1071_valid_def error_icmp_def Let_def h_def)
qed

text \<open>the error message built for any received packet of at least 42 bytes has valid checksums in
  both its headers, comes from the receiving interface and goes back to the sender.\<close>

theorem error_message_valid:
  assumes "42 \<le> length packet"
  shows "rfc1071_valid (take sizeof_ip (drop sizeof_eth (error_frame E i packet type code f)))
    \<and> rfc1071_valid (drop (sizeof_eth + sizeof_ip) (error_frame E i packet type code f))
    \<and> ip_src (frame_ip (error_frame E i packet type code f)) = if_ip i
    \<and> ip_dst (frame_ip (error_frame E i packet type code f)) = ip_src (frame_ip packet)
    \<and> ether_dhost (frame_eth (error_frame E i packet type code f)) = ether_shost (frame_eth packet)"
proof -
  let ?f = "error_frame E i packet type code f"
  let ?ip = "error_ip i (frame_ip packet) (f (ip_ttl (frame_ip packet)))"
  let ?d = "take ICMP_DATA_SIZE (drop sizeof_eth packet)"
  have "take sizeof_ip (drop sizeof_eth ?f) = enc_ip ?ip"
    "drop (sizeof_eth + sizeof_ip) ?f = enc_t3 (error_icmp E type code ?d)"
    "take sizeof_eth ?f = enc_eth (error_eth i (frame_eth packet))"
    by (simp_all add: error_frame_def Let_def eth.length_enc ip.length_enc)
  moreover have "length ?d = ICMP_DATA_SIZE" using assms by (simp add: ICMP_DATA_SIZE_def sizeof_eth_def)
  moreover have "rfc1071_valid (enc_ip ?ip)" by (simp only: error_ip_def rfc1071_set_ip_cksum)
  ultimately show ?thesis
    by (simp add: t3_sum_valid ip.dec_enc eth.dec_enc error_ip_def error_eth_def)
qed

theorem error_message_valid_witness:
  "rfc1071_valid (drop (sizeof_eth + sizeof_ip) (error_frame ex_env ex_if1 ex_echo 3 3 (\<lambda>ttl. ttl)))"
proof -
  have "42 \<le> length ex_echo" by code_simp
  from error_message_valid [OF this] show ?thesis by blast
qed

text \<open>C37: an error message is 70 bytes long, but as many bytes are sent as the received packet has:
  shorter packets get a cut message, and for longer ones the send runs past the message's block.\<close>

theorem error_message_cut:
  assumes "42 \<le> length packet" "unat len = length packet" "sr_get_interface sr interface = Some i"
  shows "Time_Exceeded E packet sr interface len =
      (if length packet \<le> 70
       then Inr (emit E interface (take (length packet) (error_frame E i packet 11 0 (\<lambda>ttl. ttl - 1))) sr)
       else Inl OutOfBounds)
    \<and> length (error_frame E i packet 11 0 (\<lambda>ttl. ttl - 1)) = 70"
proof -
  have l: "sizeof_eth + ICMP_DATA_SIZE \<le> length packet"
    using assms(1) by (simp add: sizeof_eth_def ICMP_DATA_SIZE_def)
  have "sizeof_eth \<le> unat len" using assms by (simp add: sizeof_eth_def)
  then show ?thesis
    using icmp_error_emit [OF l assms(3)] icmp_error_overread [OF l assms(3)] assms(2)
      length_error_frame [OF l]
    by (simp add: Time_Exceeded_def)
qed

theorem error_message_cut_witness:
  "length (error_frame ex_env ex_if1 ex_echo 11 0 (\<lambda>ttl. ttl - 1)) = 70"
proof -
  have "42 \<le> length ex_echo" "unat (42 :: u32) = length ex_echo"
    "sr_get_interface ex_router (if_name ex_if1) = Some ex_if1" by code_simp+
  from error_message_cut [OF this] show ?thesis by blast
qed



end
