(* ===== verification/Sr_Arp.thy ===== *)
theory Sr_Arp
  imports Sr_Icmp
begin

text \<open>
  \<open>sr_arp.c\<close>, the outgoing side: building and sending an ARP request, and \<open>handle_arpreq\<close>, which
  decides whether a pending request is sent again or given up.
\<close>

definition arp_request_send ::
    "env \<Rightarrow> sr_instance \<Rightarrow> u32 \<Rightarrow> sr_rt option \<Rightarrow> (sr_instance \<times> int) res" where
  "arp_request_send E sr request_ip dest =
     rbind (deref dest) (\<lambda>dest.
     rbind (deref (sr_get_interface sr (rt_interface dest))) (\<lambda>get_interface.
     let ehdr = \<lparr> ether_dhost = mac_broadcast, ether_shost = if_addr get_interface,
                  ether_type = htons 2054 \<rparr>;
         arp_hdr = \<lparr> ar_hrd = htons arp_hrd_ethernet, ar_pro = htons 2048,
                     ar_hln = of_nat ETHER_ADDR_LEN, ar_pln = 4, ar_op = htons 1,
                     ar_sha = if_addr get_interface, ar_sip = if_ip get_interface,
                     ar_tha = mac_broadcast, ar_tip = request_ip \<rparr>;
         packet = enc_eth ehdr @ enc_arp arp_hdr;
         sizeofpacket = of_nat (sizeof_eth + sizeof_arp)
     in sr_send_packet E sr packet sizeofpacket (if_name get_interface)))"

text \<open>
  The loop that should report an exhausted request. It passes the request's address, an integer, as
  the pointer to an IP header, and never advances: with two or more packets its condition stays true.
  \<open>None\<close> is a loop that does not end.
\<close>

definition fail_body :: "env \<Rightarrow> sr_arpreq \<Rightarrow> sr_packet \<Rightarrow> sr_instance \<Rightarrow> sr_instance res" where
  "fail_body E req p sr =
     (case peek E (rq_ip req) of
        None \<Rightarrow> Inl WildPointer
      | Some dst \<Rightarrow>
          rbind (deref (longest_prefix_sum sr dst)) (\<lambda>dest_rt.
          dest_host_unreach E (pk_buf p) sr (rt_interface dest_rt) (pk_len p)))"

partial_function (option) arpreq_fail_loop ::
    "env \<Rightarrow> sr_arpreq \<Rightarrow> sr_packet list \<Rightarrow> sr_instance \<Rightarrow> sr_instance res option" where
  "arpreq_fail_loop E req packets sr =
     (if length packets \<ge> 2
      then (case fail_body E req (hd packets) sr of
              Inl e \<Rightarrow> Some (Inl e)
            | Inr sr' \<Rightarrow> arpreq_fail_loop E req packets sr')
      else Some (Inr sr))"

text \<open>The writes \<open>req->sent = now; req->times_sent++\<close> through the pointer \<open>a\<close>.\<close>

definition mark_sent :: "env \<Rightarrow> nat \<Rightarrow> sr_instance \<Rightarrow> sr_instance res" where
  "mark_sent E a sr =
     (case get_req a (cache sr) of
        None \<Rightarrow> Inl UseAfterFree
      | Some _ \<Rightarrow> Inr (sr\<lparr>cache := upd_req a
          (\<lambda>r. r\<lparr>rq_sent := now E, rq_times_sent := rq_times_sent r + 1\<rparr>) (cache sr)\<rparr>))"

definition handle_arpreq ::
    "env \<Rightarrow> sr_instance \<Rightarrow> nat \<Rightarrow> sr_rt option \<Rightarrow> sr_instance res" where
  "handle_arpreq E sr a dest_rt =
     (case get_req a (cache sr) of
        None \<Rightarrow> Inl UseAfterFree
      | Some req \<Rightarrow>
          if now E - rq_sent req > 1 then
            if rq_times_sent req \<ge> 5 then
              (case arpreq_fail_loop E req (rq_packets req) sr of
                 None \<Rightarrow> Inl Diverges
               | Some r \<Rightarrow> rbind r (\<lambda>sr.
                   mark_sent E a (sr\<lparr>cache := sr_arpreq_destroy (cache sr) a\<rparr>)))
            else
              rbind (arp_request_send E sr (rq_ip req) dest_rt) (\<lambda>(sr, _). mark_sent E a sr)
          else Inr sr)"

section \<open>A request that is sent\<close>

text \<open>The broadcast that asks who has \<open>ip\<close>, from interface \<open>i\<close>.\<close>

definition arp_request_frame :: "sr_if \<Rightarrow> u32 \<Rightarrow> bytes" where
  "arp_request_frame i ip =
     enc_eth \<lparr> ether_dhost = mac_broadcast, ether_shost = if_addr i,
               ether_type = htons ethertype_arp \<rparr>
     @ enc_arp \<lparr> ar_hrd = htons arp_hrd_ethernet, ar_pro = htons ethertype_ip,
                 ar_hln = 6, ar_pln = 4, ar_op = htons arp_op_request,
                 ar_sha = if_addr i, ar_sip = if_ip i, ar_tha = mac_broadcast, ar_tip = ip \<rparr>"

lemma length_arp_request_frame: "length (arp_request_frame i ip) = 42"
  by (simp add: arp_request_frame_def eth.length_enc arp.length_enc sizeof_defs)

lemma arp_request_send_frame:
  "arp_request_send E sr ip (Some d) =
     rbind (deref (sr_get_interface sr (rt_interface d))) (\<lambda>i.
       sr_send_packet E sr (arp_request_frame i ip) 42 (if_name i))"
  by (simp add: arp_request_send_def arp_request_frame_def Let_def sizeof_defs ethertype_arp_def
      ethertype_ip_def arp_op_request_def ETHER_ADDR_LEN_def)

lemma arp_request_send_emit:
  assumes "sr_get_interface sr (rt_interface d) = Some i"
  shows "\<exists>ret. arp_request_send E sr ip (Some d)
    = Inr (emit E (if_name i) (arp_request_frame i ip) sr, ret)"
proof -
  have "source_ok sr (arp_request_frame i ip) (if_name i)"
  proof -
    have "source_ok sr (take 42 (arp_request_frame i ip)) (if_name i)"
      unfolding arp_request_frame_def
      by (rule source_ok_eth [OF sr_get_interface_own_name [OF assms]]) (simp_all add: sizeof_eth_def)
    then show ?thesis by (simp add: length_arp_request_frame)
  qed
  then have "rbind (sr_send_packet E sr (arp_request_frame i ip) 42 (if_name i)) (\<lambda>(sr, _). Inr sr)
      = Inr (emit E (if_name i) (arp_request_frame i ip) sr)"
    using send_emit [of 42 "arp_request_frame i ip" sr "if_name i" E]
    by (simp add: length_arp_request_frame)
  then show ?thesis using assms by (auto simp: arp_request_send_frame rbind_eq_Inr)
qed

lemma arp_request_send_good:
  assumes "arp_request_send E sr ip dest = Inr (sr', ret)"
  shows "good_step sr sr'" "cache sr' = cache sr"
  using assms
  by (auto simp: arp_request_send_def Let_def rbind_eq_Inr dest: sr_send_packet_good)

section \<open>A request that has been sent five times\<close>

lemma fail_loop_never_returns:
  assumes "arpreq_fail_loop E req packets sr = Some r" "2 \<le> length packets"
  shows "\<exists>e. r = Inl e"
proof -
  have "2 \<le> length packets \<longrightarrow> (\<exists>e. r = Inl e)"
  proof (rule arpreq_fail_loop.raw_induct
      [where P = "\<lambda>E req packets sr r. 2 \<le> length packets \<longrightarrow> (\<exists>e. r = Inl e)", OF _ assms(1)])
    fix loop E req packets sr r
    assume IH: "\<And>E req packets sr r. loop E req packets sr = Some r \<Longrightarrow>
        2 \<le> length packets \<longrightarrow> (\<exists>e. r = Inl e)"
      and eq: "(if length packets \<ge> 2
        then (case fail_body E req (hd packets) sr of Inl e \<Rightarrow> Some (Inl e)
              | Inr sr' \<Rightarrow> loop E req packets sr')
        else Some (Inr sr)) = Some (r :: sr_instance res)"
    show "2 \<le> length packets \<longrightarrow> (\<exists>e. r = Inl e)"
    proof (cases "fail_body E req (hd packets) sr")
      case (Inl e)
      show ?thesis by (intro impI exI [of _ e]) (use eq Inl in simp)
    next
      case (Inr sr')
      then show ?thesis using eq IH [of E req packets sr'] by (simp split: if_splits)
    qed
  qed
  with assms(2) show ?thesis by simp
qed

lemma get_req_destroy:
  assumes "cache_inv c"
  shows "get_req a (sr_arpreq_destroy c a) = None"
  using assms
  by (simp add: cache_inv_def get_req_def sr_arpreq_destroy_def unlink_first_filter find_None_iff)

lemma exhausted_uaf:
  assumes "cache_inv (cache sr)" "get_req a (cache sr) = Some req"
    and "now E - rq_sent req > 1" "rq_times_sent req \<ge> 5" "length (rq_packets req) < 2"
  shows "handle_arpreq E sr a dest_rt = Inl UseAfterFree"
  using assms get_req_destroy [OF assms(1), of a]
  by (simp add: handle_arpreq_def arpreq_fail_loop.simps mark_sent_def)

lemma exhausted_faults:
  assumes "cache_inv (cache sr)" "get_req a (cache sr) = Some req"
    and "now E - rq_sent req > 1" "rq_times_sent req \<ge> 5"
  shows "\<exists>e. handle_arpreq E sr a dest_rt = Inl e"
proof (cases "length (rq_packets req) < 2")
  case True
  then show ?thesis using exhausted_uaf [OF assms] by auto
next
  case False
  show ?thesis
  proof (cases "arpreq_fail_loop E req (rq_packets req) sr")
    case (Some r)
    then obtain e where "r = Inl e" using fail_loop_never_returns False by fastforce
    then show ?thesis using assms Some by (auto simp: handle_arpreq_def)
  qed (use assms in \<open>simp add: handle_arpreq_def\<close>)
qed

text \<open>
  When the wild read does give a routable address, the report of the first packet is sent and the
  loop starts again in a state where the same holds: it never ends.
\<close>

definition fail_body_runs :: "env \<Rightarrow> sr_arpreq \<Rightarrow> sr_packet \<Rightarrow> sr_instance \<Rightarrow> bool" where
  "fail_body_runs E req p sr \<longleftrightarrow> (\<exists>d rt i. peek E (rq_ip req) = Some d
     \<and> longest_prefix_sum sr d = Some rt \<and> sr_get_interface sr (rt_interface rt) = Some i
     \<and> sizeof_eth + ICMP_DATA_SIZE \<le> length (pk_buf p)
     \<and> sizeof_eth \<le> unat (pk_len p) \<and> unat (pk_len p) \<le> 70)"

lemma fail_body_runs_Inr:
  assumes "fail_body_runs E req p sr"
  shows "\<exists>sr'. fail_body E req p sr = Inr sr' \<and> fail_body_runs E req p sr'"
proof -
  from assms obtain d rt i where "peek E (rq_ip req) = Some d" "longest_prefix_sum sr d = Some rt"
    and "sr_get_interface sr (rt_interface rt) = Some i"
    and "sizeof_eth + ICMP_DATA_SIZE \<le> length (pk_buf p)"
    and "sizeof_eth \<le> unat (pk_len p)" "unat (pk_len p) \<le> 70"
    by (auto simp: fail_body_runs_def)
  then have "fail_body E req p sr = Inr (emit E (rt_interface rt)
      (take (unat (pk_len p)) (error_frame E i (pk_buf p) 3 1 (\<lambda>ttl. ttl))) sr)"
    by (simp add: fail_body_def dest_host_unreach_def icmp_error_emit)
  moreover have "fail_body_runs E req p (emit E iface f sr)" for iface f
    using assms unfolding fail_body_runs_def longest_prefix_sum_def sr_get_interface_def emit_sels .
  ultimately show ?thesis by blast
qed

lemma fail_loop_diverges:
  assumes "fail_body_runs E req (hd packets) sr" "2 \<le> length packets"
  shows "arpreq_fail_loop E req packets sr = None"
proof (rule ccontr)
  assume "arpreq_fail_loop E req packets sr \<noteq> None"
  then obtain r where r: "arpreq_fail_loop E req packets sr = Some r" by blast
  have "2 \<le> length packets \<longrightarrow> \<not> fail_body_runs E req (hd packets) sr"
  proof (rule arpreq_fail_loop.raw_induct [where P = "\<lambda>E req packets sr r.
        2 \<le> length packets \<longrightarrow> \<not> fail_body_runs E req (hd packets) sr", OF _ r])
    fix loop E req packets sr r
    assume IH: "\<And>E req packets sr r. loop E req packets sr = Some r \<Longrightarrow>
        2 \<le> length packets \<longrightarrow> \<not> fail_body_runs E req (hd packets) sr"
      and eq: "(if length packets \<ge> 2
        then (case fail_body E req (hd packets) sr of Inl e \<Rightarrow> Some (Inl e)
              | Inr sr' \<Rightarrow> loop E req packets sr')
        else Some (Inr sr)) = Some (r :: sr_instance res)"
    show "2 \<le> length packets \<longrightarrow> \<not> fail_body_runs E req (hd packets) sr"
      using eq IH fail_body_runs_Inr [of E req "hd packets" sr] by auto
  qed
  with assms show False by simp
qed

lemma exhausted_diverges:
  assumes "get_req a (cache sr) = Some req" "now E - rq_sent req > 1" "rq_times_sent req \<ge> 5"
    and "2 \<le> length (rq_packets req)" "fail_body_runs E req (hd (rq_packets req)) sr"
  shows "handle_arpreq E sr a dest_rt = Inl Diverges"
  using assms by (simp add: handle_arpreq_def fail_loop_diverges)

lemma exhausted_unmapped:
  assumes "get_req a (cache sr) = Some req" "now E - rq_sent req > 1" "rq_times_sent req \<ge> 5"
    and "2 \<le> length (rq_packets req)" "peek E (rq_ip req) = None"
  shows "handle_arpreq E sr a dest_rt = Inl WildPointer"
  using assms by (simp add: handle_arpreq_def arpreq_fail_loop.simps fail_body_def)

section \<open>A request that is sent again, or left alone\<close>

lemma handle_arpreq_Inr:
  assumes "handle_arpreq E sr a dest_rt = Inr sr'" "cache_inv (cache sr)"
  obtains req where "get_req a (cache sr) = Some req" "now E - rq_sent req \<le> 1" "sr' = sr"
  | req sr1 ret where "get_req a (cache sr) = Some req" "now E - rq_sent req > 1"
      "rq_times_sent req < 5" "arp_request_send E sr (rq_ip req) dest_rt = Inr (sr1, ret)"
      "sr' = sr1\<lparr>cache := upd_req a
          (\<lambda>r. r\<lparr>rq_sent := now E, rq_times_sent := rq_times_sent r + 1\<rparr>) (cache sr)\<rparr>"
proof -
  from assms(1) obtain req where req: "get_req a (cache sr) = Some req"
    by (auto simp: handle_arpreq_def split: option.splits)
  show thesis
  proof (cases "now E - rq_sent req > 1")
    case False
    then show thesis using that(1) [OF req] assms(1) req by (simp add: handle_arpreq_def)
  next
    case True
    then have "rq_times_sent req < 5"
      using exhausted_faults [OF assms(2) req True, of dest_rt] assms(1) by fastforce
    moreover then obtain sr1 ret where "arp_request_send E sr (rq_ip req) dest_rt = Inr (sr1, ret)"
      and "mark_sent E a sr1 = Inr sr'"
      using assms(1) req True by (auto simp: handle_arpreq_def rbind_eq_Inr not_le [symmetric])
    moreover then have "cache sr1 = cache sr" by (metis arp_request_send_good(2))
    ultimately show thesis
      using that(2) [OF req True] req by (simp add: mark_sent_def)
  qed
qed

lemma times_sent_succ: "(n :: u32) < 5 \<Longrightarrow> n + 1 \<le> 5"
  by (simp add: word_less_nat_alt word_le_nat_alt unat_word_ariths)

lemma cache_inv_mark_sent:
  assumes "cache_inv c" "get_req a c = Some req" "rq_times_sent req < 5"
  shows "cache_inv (upd_req a (\<lambda>r. r\<lparr>rq_sent := t, rq_times_sent := rq_times_sent r + 1\<rparr>) c)"
proof (rule cache_inv_upd_req [OF assms(1)])
  fix r
  assume "r \<in> set (requests c)" "rq_id r = a" "req_ok r"
  moreover then have "r = req"
    using assms(1,2) req_by_id [of "requests c" r] by (auto simp: cache_inv_def get_req_def)
  ultimately show "req_ok (r\<lparr>rq_sent := t, rq_times_sent := rq_times_sent r + 1\<rparr>)"
    using assms(3) by (simp add: req_ok_def times_sent_succ)
qed simp_all

lemma handle_arpreq_good:
  assumes "handle_arpreq E sr a dest_rt = Inr sr'" "cache_inv (cache sr)"
  shows "good_step sr sr'"
  using assms
proof (cases rule: handle_arpreq_Inr)
  case (2 req sr1 ret)
  from arp_request_send_good [OF 2(4)] have 1: "good_step sr sr1" and c: "cache sr1 = cache sr" .
  have "good_step sr1 sr'"
    unfolding 2(5) by (rule good_step_cache) (use assms(2) 2 c in \<open>simp add: cache_inv_mark_sent\<close>)
  with 1 show ?thesis by (rule good_step_trans)
qed simp

section \<open>Property\<close>

text \<open>C23: the handling of a request that is due after five sends never returns, and no host-unreachable
  report of the queue is finished: with at most one packet the freed request is written, with more the
  loop reads an integer as a pointer, and when that read succeeds it never ends.\<close>

theorem exhausted_request_never_returns:
  assumes "cache_inv (cache sr)" "get_req a (cache sr) = Some req"
    and "now E - rq_sent req > 1" "rq_times_sent req \<ge> 5"
  shows "handle_arpreq E sr a dest_rt \<noteq> Inr sr'
    \<and> (length (rq_packets req) < 2 \<longrightarrow> handle_arpreq E sr a dest_rt = Inl UseAfterFree)
    \<and> (2 \<le> length (rq_packets req) \<and> peek E (rq_ip req) = None \<longrightarrow>
        handle_arpreq E sr a dest_rt = Inl WildPointer)
    \<and> (2 \<le> length (rq_packets req) \<and> fail_body_runs E req (hd (rq_packets req)) sr \<longrightarrow>
        handle_arpreq E sr a dest_rt = Inl Diverges)"
  using exhausted_faults [OF assms, of dest_rt] exhausted_uaf [OF assms]
    exhausted_unmapped [OF assms(2-4)] exhausted_diverges [OF assms(2-4)]
  by auto

theorem exhausted_request_never_returns_witness:
  "handle_arpreq ex_env (ex_router_req 90 5 [ex_waiting]) 0 (Some ex_rt2) = Inl UseAfterFree"
proof -
  let ?sr = "ex_router_req 90 5 [ex_waiting]" and ?r = "ex_request 90 5 [ex_waiting]"
  have "cache_inv (cache ?sr)" "get_req 0 (cache ?sr) = Some ?r"
    "now ex_env - rq_sent ?r > 1" "rq_times_sent ?r \<ge> 5" "length (rq_packets ?r) < 2" by code_simp+
  then show ?thesis using exhausted_request_never_returns [of ?sr 0 ?r ex_env] by blast
qed

end
