(* ===== verification/Sr_Ip.thy ===== *)
theory Sr_Ip
  imports Sr_Arp
begin

text \<open>
  \<open>sr_ip.c\<close>: the validation of a received IP packet, the decision whether it is for the router, and
  the forwarding of a packet for another host. The packet is changed in place, but no caller looks
  at it again, nor at the result of \<open>packet_to_other_dest\<close>: the model returns the router's state.
\<close>

definition validate_IP :: "bytes \<Rightarrow> u32 \<Rightarrow> int" where
  "validate_IP buf len = (if unat len < sizeof_eth + sizeof_ip then -1 else 0)"

definition ip_packet_router_check :: "sr_instance \<Rightarrow> bytes \<Rightarrow> sr_if option res" where
  "ip_packet_router_check sr packet =
     (case if_list sr of
        [] \<Rightarrow> Inr None
      | l \<Rightarrow> rbind (ld_ip packet) (\<lambda>iphdr. Inr (find (\<lambda>if_walker. if_ip if_walker = ip_dst iphdr) l)))"

text \<open>
  The checksum field is set to 0, the checksum computed, and the field restored unless it was wrong.
  For a frame that is not IP the function ends without a return value.
\<close>

definition validate_checksum :: "bytes \<Rightarrow> u32 \<Rightarrow> (bytes \<times> int option) res" where
  "validate_checksum packet len =
     rbind (ethertype packet) (\<lambda>ethtype.
     if ethtype = ethertype_arp then Inr (packet, None)
     else if ethtype = ethertype_ip then
       rbind (ld_ip packet) (\<lambda>ip_hdr.
       rbind (st_ip packet (ip_hdr\<lparr>ip_sum := 0\<rparr>)) (\<lambda>packet.
       if cksum (enc_ip (ip_hdr\<lparr>ip_sum := 0\<rparr>)) \<noteq> ip_sum ip_hdr then Inr (packet, Some 1)
       else rbind (st_ip packet ip_hdr) (\<lambda>packet. Inr (packet, Some 0))))
     else Inr (packet, None))"

definition packet_to_other_dest ::
    "env \<Rightarrow> bytes \<Rightarrow> sr_instance \<Rightarrow> bytes \<Rightarrow> u32 \<Rightarrow> sr_instance res" where
  "packet_to_other_dest E packet sr interface len =
     rbind (ld_ip packet) (\<lambda>iphdr.
     if ip_ttl iphdr \<le> 1 then Time_Exceeded E packet sr interface len
     else case longest_prefix_sum sr (ip_dst iphdr) of
       None \<Rightarrow> dest_host_unreach E packet sr interface len
     | Some dest_rt \<Rightarrow>
        (case sr_arpcache_lookup (cache sr) (ip_dst iphdr) of
           Some entry \<Rightarrow>
             rbind (deref (sr_get_interface sr (rt_interface dest_rt))) (\<lambda>get_interface.
             rbind (ld_eth packet) (\<lambda>ehdr.
             rbind (st_eth packet (ehdr\<lparr>ether_shost := if_addr get_interface,
                                        ether_dhost := ae_mac entry\<rparr>)) (\<lambda>packet.
             rbind (st_ip packet (set_ip_cksum (iphdr\<lparr>ip_ttl := ip_ttl iphdr - 1\<rparr>))) (\<lambda>packet.
             rbind (sr_send_packet E sr packet len (if_name get_interface)) (\<lambda>(sr, _).
             Inr sr)))))
         | None \<Rightarrow>
             rbind (sr_arpcache_queuereq (cache sr) (ip_dst iphdr) packet len interface) (\<lambda>(c, req).
             handle_arpreq E (sr\<lparr>cache := c\<rparr>) req (Some dest_rt))))"

definition IP_packet :: "env \<Rightarrow> bytes \<Rightarrow> sr_instance \<Rightarrow> bytes \<Rightarrow> u32 \<Rightarrow> sr_instance res" where
  "IP_packet E packet sr interface len =
     (if validate_IP packet len \<noteq> 0 then Inr sr
      else rbind (validate_checksum packet len) (\<lambda>(packet, wrong).
        case wrong of
          None \<Rightarrow> Inl NoValue
        | Some w \<Rightarrow>
            if w \<noteq> 0 then Inr sr
            else rbind (ip_packet_router_check sr packet) (\<lambda>rt.
              case rt of
                Some _ \<Rightarrow>
                  rbind (ld_ip packet) (\<lambda>iphdr.
                  if ip_p iphdr = 1 then Echo_Reply E packet sr interface len
                  else if ip_p iphdr = 17 \<or> ip_p iphdr = 6
                  then Port_unreach E packet sr interface len
                  else Inr sr)
              | None \<Rightarrow>
                  rbind (validate_checksum packet len) (\<lambda>(packet, _).
                  packet_to_other_dest E packet sr interface len))))"

section \<open>Validation\<close>

definition ip_sum_ok :: "bytes \<Rightarrow> bool" where
  "ip_sum_ok packet \<longleftrightarrow> cksum (enc_ip ((frame_ip packet)\<lparr>ip_sum := 0\<rparr>)) = ip_sum (frame_ip packet)"

definition is_ip_frame :: "bytes \<Rightarrow> bool" where
  "is_ip_frame packet \<longleftrightarrow> sizeof_eth + sizeof_ip \<le> length packet
     \<and> ether_type (frame_eth packet) = htons ethertype_ip"

lemma is_ip_frame_len: "is_ip_frame packet \<Longrightarrow> 34 \<le> length packet"
  by (simp add: is_ip_frame_def sizeof_defs)

lemma validate_IP_frame: "is_ip_frame packet \<Longrightarrow> unat len = length packet \<Longrightarrow> validate_IP packet len = 0"
  by (simp add: validate_IP_def is_ip_frame_def)

lemma ld_ip_frame: "is_ip_frame packet \<Longrightarrow> ld_ip packet = Inr (frame_ip packet)"
  by (simp add: is_ip_frame_def ip.ld_ok)

lemma validate_checksum_frame:
  assumes "is_ip_frame packet"
  shows "ip_sum_ok packet \<Longrightarrow> validate_checksum packet len = Inr (packet, Some 0)"
    and "\<not> ip_sum_ok packet \<Longrightarrow> \<exists>packet'. validate_checksum packet len = Inr (packet', Some 1)"
proof -
  have len: "sizeof_eth + sizeof_ip \<le> length packet" "sizeof_eth \<le> length packet"
    using assms by (simp_all add: is_ip_frame_def)
  have et: "ethertype packet = Inr ethertype_ip"
    using assms by (simp add: ethertype_ok len is_ip_frame_def)
  let ?h = "frame_ip packet"
  obtain p1 where p1: "st_ip packet (?h\<lparr>ip_sum := 0\<rparr>) = Inr p1"
    using len ip.st_ok by blast
  have len1: "length p1 = length packet" using p1 by (rule ip.st_length)
  have restored: "st_ip p1 ?h = Inr packet"
  proof -
    have "st_ip packet ?h = Inr packet"
      by (rule ip.st_ld_same) (simp add: ip.ld_ok len)
    then have "take sizeof_eth packet @ enc_ip ?h @ drop (sizeof_eth + sizeof_ip) packet = packet"
      using len by (simp add: ip.st_ok)
    moreover have "p1 = take sizeof_eth packet @ enc_ip (?h\<lparr>ip_sum := 0\<rparr>)
        @ drop (sizeof_eth + sizeof_ip) packet"
      using p1 len by (simp add: ip.st_ok)
    ultimately show ?thesis using len len1 by (simp add: ip.st_ok ip.length_enc)
  qed
  have ne: "ethertype_ip \<noteq> ethertype_arp" by (simp add: ethertype_ip_def ethertype_arp_def)
  show "ip_sum_ok packet \<Longrightarrow> validate_checksum packet len = Inr (packet, Some 0)"
    and "\<not> ip_sum_ok packet \<Longrightarrow> \<exists>packet'. validate_checksum packet len = Inr (packet', Some 1)"
    using restored ne by (simp_all add: validate_checksum_def et ip.ld_ok len p1 ip_sum_ok_def)
qed

text \<open>A valid packet for another host goes to \<open>packet_to_other_dest\<close> as it was received.\<close>

lemma ip_packet_router_check_frame:
  "is_ip_frame packet \<Longrightarrow> ip_packet_router_check sr packet =
     Inr (find (\<lambda>i. if_ip i = ip_dst (frame_ip packet)) (if_list sr))"
  by (simp add: ip_packet_router_check_def ld_ip_frame split: list.split)

definition for_router :: "sr_instance \<Rightarrow> bytes \<Rightarrow> bool" where
  "for_router sr packet \<longleftrightarrow> (\<exists>i\<in>set (if_list sr). if_ip i = ip_dst (frame_ip packet))"

lemma for_router_find:
  "for_router sr packet \<longleftrightarrow> find (\<lambda>i. if_ip i = ip_dst (frame_ip packet)) (if_list sr) \<noteq> None"
  by (auto simp: for_router_def find_None_iff)

lemma IP_packet_cases:
  assumes "is_ip_frame packet" "unat len = length packet"
  shows "IP_packet E packet sr interface len =
    (if \<not> ip_sum_ok packet then Inr sr
     else if for_router sr packet then
       (if ip_p (frame_ip packet) = 1 then Echo_Reply E packet sr interface len
        else if ip_p (frame_ip packet) = 17 \<or> ip_p (frame_ip packet) = 6
        then Port_unreach E packet sr interface len else Inr sr)
     else packet_to_other_dest E packet sr interface len)"
proof (cases "ip_sum_ok packet")
  case True
  note v = validate_checksum_frame(1) [OF assms(1) True]
  show ?thesis
    using True assms
    by (cases "find (\<lambda>i. if_ip i = ip_dst (frame_ip packet)) (if_list sr)")
      (simp_all add: IP_packet_def validate_IP_frame v ip_packet_router_check_frame ld_ip_frame
        for_router_find)
next
  case False
  then obtain p where "validate_checksum packet len = Inr (p, Some 1)"
    using validate_checksum_frame(2) [OF assms(1)] by blast
  then show ?thesis using False assms by (simp add: IP_packet_def validate_IP_frame)
qed

section \<open>Forwarding\<close>

text \<open>The frame a packet is forwarded as: by interface \<open>i\<close>, to the neighbour with address \<open>m\<close>.\<close>

definition forward_frame :: "sr_if \<Rightarrow> mac \<Rightarrow> bytes \<Rightarrow> bytes" where
  "forward_frame i m packet =
     enc_eth ((frame_eth packet)\<lparr>ether_shost := if_addr i, ether_dhost := m\<rparr>)
     @ enc_ip (set_ip_cksum ((frame_ip packet)\<lparr>ip_ttl := ip_ttl (frame_ip packet) - 1\<rparr>))
     @ drop (sizeof_eth + sizeof_ip) packet"

lemma length_forward_frame:
  "sizeof_eth + sizeof_ip \<le> length packet \<Longrightarrow> length (forward_frame i m packet) = length packet"
  by (simp add: forward_frame_def eth.length_enc ip.length_enc)

text \<open>
  The four outcomes for a packet to another host: expired, no route, forwarded at once, queued until
  the next hop's address is known.
\<close>

lemma other_dest_expired:
  assumes "is_ip_frame packet" "ip_ttl (frame_ip packet) \<le> 1"
  shows "packet_to_other_dest E packet sr interface len = Time_Exceeded E packet sr interface len"
  using assms by (simp add: packet_to_other_dest_def ld_ip_frame)

lemma other_dest_no_route:
  assumes "is_ip_frame packet" "1 < ip_ttl (frame_ip packet)"
    and "longest_prefix_sum sr (ip_dst (frame_ip packet)) = None"
  shows "packet_to_other_dest E packet sr interface len = dest_host_unreach E packet sr interface len"
  using assms by (simp add: packet_to_other_dest_def ld_ip_frame not_le [symmetric])

lemma other_dest_forward:
  assumes "is_ip_frame packet" "1 < ip_ttl (frame_ip packet)" "unat len = length packet"
    and "longest_prefix_sum sr (ip_dst (frame_ip packet)) = Some rt"
    and "sr_get_interface sr (rt_interface rt) = Some i"
    and "sr_arpcache_lookup (cache sr) (ip_dst (frame_ip packet)) = Some e"
    and "length packet < 2 ^ 31"
  shows "packet_to_other_dest E packet sr interface len =
    Inr (emit E (if_name i) (forward_frame i (ae_mac e) packet) sr)"
proof -
  have len: "34 \<le> length packet" using assms(1) by (rule is_ip_frame_len)
  have b: "0 + sizeof_eth \<le> length packet" "sizeof_eth + sizeof_ip \<le> length packet"
    using len by (simp_all add: sizeof_defs)
  let ?h = "(frame_eth packet)\<lparr>ether_shost := if_addr i, ether_dhost := ae_mac e\<rparr>"
  have eth1: "ld_eth packet = Inr (frame_eth packet)" using eth.ld_ok [OF b(1)] by simp
  have eth2: "st_eth packet ?h = Inr (enc_eth ?h @ drop sizeof_eth packet)"
    using eth.st_ok [OF _ b(1), where h = ?h] by simp
  have ip2: "st_ip (enc_eth ?h @ drop sizeof_eth packet) h
      = Inr (enc_eth ?h @ enc_ip h @ drop (sizeof_eth + sizeof_ip) packet)" for h
    using b ip.st_ok [where h = h and off = sizeof_eth and buf = "enc_eth ?h @ drop sizeof_eth packet"]
    by (simp add: eth.length_enc add.commute)
  have "packet_to_other_dest E packet sr interface len =
      rbind (sr_send_packet E sr (forward_frame i (ae_mac e) packet) len (if_name i)) (\<lambda>(sr, _). Inr sr)"
    using assms(2,4-6)
    by (simp add: packet_to_other_dest_def ld_ip_frame [OF assms(1)] not_le [symmetric] eth1 eth2 ip2
        forward_frame_def)
  moreover have "source_ok sr (take (unat len) (forward_frame i (ae_mac e) packet)) (if_name i)"
    unfolding forward_frame_def
    by (rule source_ok_eth [OF sr_get_interface_own_name [OF assms(5)]])
      (use assms(3) len in \<open>simp_all add: sizeof_defs\<close>)
  moreover have "length (forward_frame i (ae_mac e) packet) = length packet"
    by (rule length_forward_frame) (use assms(1) in \<open>simp add: is_ip_frame_def\<close>)
  ultimately show ?thesis using assms(3,7) by (simp add: send_emit)
qed

text \<open>A packet as the queue keeps it while the next hop's address is asked for.\<close>

definition queued_packet :: "bytes \<Rightarrow> u32 \<Rightarrow> bytes \<Rightarrow> sr_packet" where
  "queued_packet packet len interface =
     \<lparr> pk_buf = packet, pk_len = len, pk_iface = c_strncpy sr_IFACE_NAMELEN interface \<rparr>"

lemma other_dest_miss:
  assumes "is_ip_frame packet" "1 < ip_ttl (frame_ip packet)"
    and "longest_prefix_sum sr (ip_dst (frame_ip packet)) = Some rt"
    and "sr_arpcache_lookup (cache sr) (ip_dst (frame_ip packet)) = None"
    and "sr_arpcache_queuereq (cache sr) (ip_dst (frame_ip packet)) packet len interface = Inr (c, a)"
  shows "packet_to_other_dest E packet sr interface len = handle_arpreq E (sr\<lparr>cache := c\<rparr>) a (Some rt)"
  using assms by (simp add: packet_to_other_dest_def ld_ip_frame not_le [symmetric])

lemma handle_arpreq_young:
  assumes "get_req a (cache sr) = Some r" "now E - rq_sent r > 1" "rq_times_sent r < 5"
    and "sr_get_interface sr (rt_interface rt) = Some i"
  shows "handle_arpreq E sr a (Some rt) = Inr
    ((emit E (if_name i) (arp_request_frame i (rq_ip r)) sr)\<lparr>cache := upd_req a
       (\<lambda>r. r\<lparr>rq_sent := now E, rq_times_sent := rq_times_sent r + 1\<rparr>) (cache sr)\<rparr>)"
proof -
  obtain ret where "arp_request_send E sr (rq_ip r) (Some rt) =
      Inr (emit E (if_name i) (arp_request_frame i (rq_ip r)) sr, ret)"
    using arp_request_send_emit [OF assms(4), of E "rq_ip r"] by blast
  then show ?thesis
    using assms(1-3) by (simp add: handle_arpreq_def mark_sent_def not_le [symmetric])
qed

lemma waiting_upd_req:
  assumes "\<And>r. rq_ip (f r) = rq_ip r" "\<And>r. rq_packets (f r) = rq_packets r"
  shows "waiting (upd_req a f c) b = waiting c b"
proof -
  have "find (\<lambda>r. rq_ip r = b) (requests (upd_req a f c))
      = map_option (\<lambda>r. if rq_id r = a then f r else r) (find (\<lambda>r. rq_ip r = b) (requests c))"
    unfolding upd_req_def using assms(1) by (simp add: find_map_same)
  then show ?thesis
    using assms(2) by (auto simp: waiting_def split: option.split)
qed

lemma entries_upd_req [simp]: "entries (upd_req a f c) = entries c"
  by (simp add: upd_req_def)

lemma other_dest_first_miss:
  assumes inv: "cache_inv (cache sr)" and p: "is_ip_frame packet" "1 < ip_ttl (frame_ip packet)"
    and len: "unat len = length packet"
    and rt: "longest_prefix_sum sr (ip_dst (frame_ip packet)) = Some rt"
    and i: "sr_get_interface sr (rt_interface rt) = Some i"
    and miss: "sr_arpcache_lookup (cache sr) (ip_dst (frame_ip packet)) = None"
    and new: "\<forall>r\<in>set (requests (cache sr)). rq_ip r \<noteq> ip_dst (frame_ip packet)"
    and t: "now E > 1"
  shows "\<exists>c. packet_to_other_dest E packet sr interface len = Inr
      ((emit E (if_name i) (arp_request_frame i (ip_dst (frame_ip packet))) sr)\<lparr>cache := c\<rparr>)
    \<and> cache_inv c \<and> entries c = entries (cache sr)
    \<and> (\<forall>b. waiting c b = (if b = ip_dst (frame_ip packet)
          then [queued_packet packet len interface] else waiting (cache sr) b))"
proof -
  let ?dst = "ip_dst (frame_ip packet)"
  have len0: "len \<noteq> 0" "unat len \<le> length packet"
    using is_ip_frame_len [OF p(1)] len by auto
  have none: "find (\<lambda>r. rq_ip r = ?dst) (requests (cache sr)) = None"
    unfolding find_None_iff using new by blast
  obtain c a r where q: "sr_arpcache_queuereq (cache sr) ?dst packet len interface = Inr (c, a)"
    and c: "cache_inv c" "get_req a c = Some r" "rq_ip r = ?dst" "rq_packets r =
        \<lparr> pk_buf = take (unat len) packet, pk_len = len,
          pk_iface = c_strncpy sr_IFACE_NAMELEN interface \<rparr> # waiting (cache sr) ?dst"
        "entries c = entries (cache sr)"
    and w: "\<And>b. waiting c b = (if b = ?dst then \<lparr> pk_buf = take (unat len) packet, pk_len = len,
        pk_iface = c_strncpy sr_IFACE_NAMELEN interface \<rparr> # waiting (cache sr) ?dst
        else waiting (cache sr) b)"
    and r': "case find (\<lambda>r. rq_ip r = ?dst) (requests (cache sr)) of
           Some r0 \<Rightarrow> rq_sent r = rq_sent r0 \<and> rq_times_sent r = rq_times_sent r0
         | None \<Rightarrow> rq_sent r = 0 \<and> rq_times_sent r = 0"
    by (rule queuereq_spec [OF inv len0, where ip = ?dst and iface = interface]) (rule that; assumption)
  have r: "rq_sent r = 0" "rq_times_sent r = 0" using r' unfolding none by simp_all
  let ?f = "\<lambda>r :: sr_arpreq. r\<lparr>rq_sent := now E, rq_times_sent := rq_times_sent r + 1\<rparr>"
  have "handle_arpreq E (sr\<lparr>cache := c\<rparr>) a (Some rt) = Inr
      ((emit E (if_name i) (arp_request_frame i ?dst) (sr\<lparr>cache := c\<rparr>))\<lparr>cache := upd_req a ?f c\<rparr>)"
    using c r t i handle_arpreq_young [of a "sr\<lparr>cache := c\<rparr>" r E rt i]
    by (simp add: sr_get_interface_def)
  moreover have "(emit E (if_name i) f (sr\<lparr>cache := c\<rparr>))\<lparr>cache := c'\<rparr> = (emit E (if_name i) f sr)\<lparr>cache := c'\<rparr>"
    for f c' by (simp add: emit_def log_frame_def Let_def split: option.split)
  ultimately have "packet_to_other_dest E packet sr interface len = Inr
      ((emit E (if_name i) (arp_request_frame i ?dst) sr)\<lparr>cache := upd_req a ?f c\<rparr>)"
    using other_dest_miss [OF p rt miss q] by simp
  moreover have "cache_inv (upd_req a ?f c)"
    by (rule cache_inv_mark_sent [OF c(1,2)]) (simp add: r)
  moreover have "waiting (cache sr) ?dst = []" using none by (simp add: waiting_def)
  ultimately show ?thesis
    using w c(5) len
    by (intro exI [of _ "upd_req a ?f c"]) (simp add: waiting_upd_req queued_packet_def entries_upd_req)
qed

section \<open>The handler contract\<close>

lemma packet_to_other_dest_good:
  assumes "cache_inv (cache sr)" "packet_to_other_dest E packet sr interface len = Inr sr'"
  shows "good_step sr sr'"
proof -
  obtain iphdr where iphdr: "ld_ip packet = Inr iphdr"
    using assms(2) by (auto simp: packet_to_other_dest_def rbind_eq_Inr)
  note u = assms(2) [unfolded packet_to_other_dest_def iphdr rbind_Inr]
  show ?thesis
  proof (cases "ip_ttl iphdr \<le> 1")
    case True
    then show ?thesis using u time_exceeded.good [OF assms(1)] by simp
  next
    case ttl: False
    show ?thesis
    proof (cases "longest_prefix_sum sr (ip_dst iphdr)")
      case None
      then show ?thesis using u ttl host_unreach.good [OF assms(1)] by simp
    next
      case rt: (Some rt)
      show ?thesis
      proof (cases "sr_arpcache_lookup (cache sr) (ip_dst iphdr)")
        case None
        then obtain c a where q: "sr_arpcache_queuereq (cache sr) (ip_dst iphdr) packet len interface = Inr (c, a)"
          and h: "handle_arpreq E (sr\<lparr>cache := c\<rparr>) a (Some rt) = Inr sr'"
          using u ttl rt by (auto simp: rbind_eq_Inr)
        have c: "cache_inv c" using assms(1) q by (rule queuereq_inv)
        then have "good_step (sr\<lparr>cache := c\<rparr>) sr'" using handle_arpreq_good [OF h] by simp
        moreover have "good_step sr (sr\<lparr>cache := c\<rparr>)" by (rule good_step_cache) (rule c)
        ultimately show ?thesis using good_step_trans by blast
      next
        case (Some e)
        then show ?thesis using u ttl rt by (auto simp: rbind_eq_Inr dest: sr_send_packet_good(1))
      qed
    qed
  qed
qed

interpretation other_dest: handler "\<lambda>sr. packet_to_other_dest E packet sr interface len"
  for E packet interface len
  by unfold_locales (rule packet_to_other_dest_good)

lemma IP_packet_good:
  assumes "cache_inv (cache sr)" "IP_packet E packet sr interface len = Inr sr'"
  shows "good_step sr sr'"
proof (cases "validate_IP packet len = 0")
  case True
  then obtain p w where v: "validate_checksum packet len = Inr (p, Some w)"
    using assms(2) by (auto simp: IP_packet_def rbind_eq_Inr split: option.splits)
  note u = assms(2) [unfolded IP_packet_def v, simplified, simplified True, simplified]
  show ?thesis
  proof (cases "w = 0")
    case w: True
    obtain rt where rt: "ip_packet_router_check sr p = Inr rt"
      using u w by (auto simp: rbind_eq_Inr)
    note u' = u [unfolded rt rbind_Inr]
    show ?thesis
    proof (cases rt)
      case None
      then obtain p' x where "packet_to_other_dest E p' sr interface len = Inr sr'"
        using u' w by (auto simp: rbind_eq_Inr)
      then show ?thesis by (rule packet_to_other_dest_good [OF assms(1)])
    next
      case (Some i)
      then obtain h where h: "ld_ip p = Inr h" using u' w by (auto simp: rbind_eq_Inr)
      consider "ip_p h = 1" | "ip_p h \<noteq> 1" "ip_p h = 17 \<or> ip_p h = 6"
        | "ip_p h \<noteq> 1" "\<not> (ip_p h = 17 \<or> ip_p h = 6)" by blast
      then show ?thesis
        using u' w Some h echo.good [OF assms(1), of E p interface len sr']
          port_unreach.good [OF assms(1), of E p interface len sr']
        by cases simp_all
    qed
  qed (use u in simp)
qed (use assms(2) in \<open>simp add: IP_packet_def\<close>)

interpretation ip_packet: handler "\<lambda>sr. IP_packet E packet sr interface len"
  for E packet interface len
  by unfold_locales (rule IP_packet_good)

section \<open>Properties\<close>

text \<open>C24: the checksum test accepts a header exactly when it is valid by RFC 1071 and its checksum field
  is not 0, and then leaves the packet as it was; a header whose correct checksum is 0x0000 is refused.\<close>

theorem checksum_test_exact:
  assumes "is_ip_frame packet"
  shows "if rfc1071_valid (take sizeof_ip (drop sizeof_eth packet)) \<and> ip_sum (frame_ip packet) \<noteq> 0
    then validate_checksum packet len = Inr (packet, Some 0)
    else \<exists>packet'. validate_checksum packet len = Inr (packet', Some 1)"
proof -
  have "enc_ip (frame_ip packet) = take sizeof_ip (drop sizeof_eth packet)"
    using assms by (intro ip.enc_dec) (auto simp: is_ip_frame_def min_def)
  then have ok: "ip_sum_ok packet \<longleftrightarrow>
      rfc1071_valid (take sizeof_ip (drop sizeof_eth packet)) \<and> ip_sum (frame_ip packet) \<noteq> 0"
    using ip_cksum_iff_rfc1071 [of "frame_ip packet"] by (simp add: ip_sum_ok_def)
  show ?thesis
    unfolding ok [symmetric] using validate_checksum_frame [OF assms, of len] by simp
qed

theorem checksum_test_exact_witness:
  "validate_checksum ex_udp 34 = Inr (ex_udp, Some 0)"
proof -
  have "is_ip_frame ex_udp" by code_simp
  moreover have "rfc_sum (take sizeof_ip (drop sizeof_eth ex_udp)) = 65535"
    by (simp add: ex_udp_def sizeof_defs)
  then have "rfc1071_valid (take sizeof_ip (drop sizeof_eth ex_udp))"
    by (simp add: rfc1071_valid_def oc_fold_def)
  moreover have "ip_sum (frame_ip ex_udp) \<noteq> 0" by code_simp
  ultimately show ?thesis using checksum_test_exact [of ex_udp 34] by simp
qed



text \<open>a pending request that has been sent fewer than five times is sent again, as one broadcast by
  the interface of the route, exactly when more than a second has passed; the time and the number of
  sends are then recorded.\<close>

theorem request_retry:
  assumes "get_req a (cache sr) = Some r" "rq_times_sent r < 5"
    and "sr_get_interface sr (rt_interface rt) = Some i"
  shows "handle_arpreq E sr a (Some rt) = Inr
    (if now E - rq_sent r > 1
     then (emit E (if_name i) (arp_request_frame i (rq_ip r)) sr)\<lparr>cache := upd_req a
       (\<lambda>r. r\<lparr>rq_sent := now E, rq_times_sent := rq_times_sent r + 1\<rparr>) (cache sr)\<rparr>
     else sr)"
  using handle_arpreq_young [OF assms(1) _ assms(2,3), of E] assms(1)
  by (simp add: handle_arpreq_def)

theorem request_retry_witness:
  "\<exists>sr'. handle_arpreq ex_env (ex_router_req 90 4 [ex_waiting]) 0 (Some ex_rt2) = Inr sr' \<and> length (wire sr') = 1"
proof -
  let ?sr = "ex_router_req 90 4 [ex_waiting]" and ?r = "ex_request 90 4 [ex_waiting]"
  have "get_req 0 (cache ?sr) = Some ?r" "rq_times_sent ?r < 5"
    "sr_get_interface ?sr (rt_interface ex_rt2) = Some ex_if2" "now ex_env - rq_sent ?r > 1"
    "wire ?sr = []" by code_simp+
  moreover have "full_write ex_env" by (simp add: full_write_def ex_env_def)
  ultimately show ?thesis
    using request_retry [of 0 ?sr ?r ex_rt2 ex_if2 ex_env] by (simp add: wire_emit)
qed

end
