(* ===== verification/Sr_Arp_Packet.thy ===== *)
theory Sr_Arp_Packet
  imports Sr_Ip
begin

text \<open>
  \<open>arp_packet\<close> of \<open>sr_arp.c\<close>: a request for an address of the receiving interface is answered in
  place, a reply is learnt and releases the packets that waited for it. The invariant of the queue
  (\<open>queue_ok\<close>) says which packets wait, and is what makes the release forward all of them.
\<close>

text \<open>
  The loop over the packets of the detached request: all but the last in the loop, the last after
  it. \<open>packet_to_other_dest\<close> writes into the packet's own buffer, which is then freed.
\<close>

fun send_waiting :: "env \<Rightarrow> bytes \<Rightarrow> sr_packet list \<Rightarrow> sr_instance \<Rightarrow> sr_instance res" where
  "send_waiting E interface [] sr = Inr sr"
| "send_waiting E interface [p] sr = packet_to_other_dest E (pk_buf p) sr interface (pk_len p)"
| "send_waiting E interface (p # p' # ps) sr =
     rbind (packet_to_other_dest E (pk_buf p) sr interface (pk_len p)) (\<lambda>sr.
     send_waiting E interface (p' # ps) sr)"

definition arp_packet :: "env \<Rightarrow> bytes \<Rightarrow> sr_instance \<Rightarrow> bytes \<Rightarrow> u32 \<Rightarrow> sr_instance res" where
  "arp_packet E buf sr interface len =
     rbind (ld_arp buf) (\<lambda>arp_hdr.
     rbind (deref (sr_get_interface sr interface)) (\<lambda>get_interface.
     if ar_tip arp_hdr = if_ip get_interface then
       if ntohs (ar_op arp_hdr) = 1 then
         rbind (st_arp buf (arp_hdr\<lparr>ar_op := htons 2,
                  ar_sip := if_ip get_interface, ar_tip := ar_sip arp_hdr,
                  ar_sha := if_addr get_interface, ar_tha := ar_sha arp_hdr\<rparr>)) (\<lambda>buf.
         rbind (ld_eth buf) (\<lambda>ehdr.
         rbind (st_eth buf (ehdr\<lparr>ether_dhost := ar_sha arp_hdr,
                                 ether_shost := if_addr get_interface\<rparr>)) (\<lambda>buf.
         rbind (sr_send_packet E sr buf len interface) (\<lambda>(sr, success). Inr sr))))
       else if ntohs (ar_op arp_hdr) = 2 then
         (case sr_arpcache_insert (now E) (cache sr) (ar_sha arp_hdr) (ar_sip arp_hdr) of
            (c, None) \<Rightarrow> Inr (sr\<lparr>cache := c\<rparr>)
          | (c, Some request) \<Rightarrow>
              rbind (send_waiting E interface (rq_packets request) (sr\<lparr>cache := c\<rparr>)) (\<lambda>sr.
              Inr (sr\<lparr>cache := sr_arpreq_destroy (cache sr) (rq_id request)\<rparr>)))
       else Inr sr
     else Inr sr))"

section \<open>The handler contract\<close>

lemma send_waiting_Cons:
  "send_waiting E interface (p # ps) sr =
     rbind (packet_to_other_dest E (pk_buf p) sr interface (pk_len p)) (send_waiting E interface ps)"
  by (cases ps) (auto simp: rbind_def split: sum.split)

interpretation no_packet: handler Inr
  by unfold_locales simp

lemma send_waiting_handler: "handler (send_waiting E interface ps)"
proof (induction ps)
  case Nil
  then show ?case by (simp add: no_packet.handler_axioms)
next
  case (Cons p ps)
  show ?case unfolding send_waiting_Cons using Cons.IH by (rule other_dest.then_handler)
qed

interpretation send_waiting: handler "send_waiting E interface ps" for E interface ps
  by (rule send_waiting_handler)

lemma good_step_insert:
  "sr_arpcache_insert t (cache sr) m ip = (c, r) \<Longrightarrow> good_step sr (sr\<lparr>cache := c\<rparr>)"
  by (rule good_step_cache) (rule cache_inv_insert)

lemma good_step_destroy: "good_step sr (sr\<lparr>cache := sr_arpreq_destroy (cache sr) a\<rparr>)"
  by (rule good_step_cache) (rule cache_inv_destroy)

lemma arp_packet_good:
  assumes inv: "cache_inv (cache sr)" and run: "arp_packet E buf sr interface len = Inr sr'"
  shows "good_step sr sr'"
proof -
  obtain h i where h: "ld_arp buf = Inr h" "sr_get_interface sr interface = Some i"
    using run by (auto simp: arp_packet_def rbind_eq_Inr)
  note u = run [unfolded arp_packet_def h deref_simps rbind_Inr]
  consider "ar_tip h \<noteq> if_ip i \<or> ntohs (ar_op h) \<noteq> 1 \<and> ntohs (ar_op h) \<noteq> 2"
    | "ar_tip h = if_ip i" "ntohs (ar_op h) = 1" | "ar_tip h = if_ip i" "ntohs (ar_op h) = 2"
    by blast
  then show ?thesis
  proof cases
    case 1
    then show ?thesis using u by (simp split: if_splits)
  next
    case 2
    then show ?thesis using u by (auto simp: rbind_eq_Inr dest: sr_send_packet_good(1))
  next
    case 3
    obtain c r where ins: "sr_arpcache_insert (now E) (cache sr) (ar_sha h) (ar_sip h) = (c, r)"
      by (cases "sr_arpcache_insert (now E) (cache sr) (ar_sha h) (ar_sip h)")
    note g = good_step_insert [OF ins]
    show ?thesis
    proof (cases r)
      case None
      then show ?thesis using u 3 ins g by simp
    next
      case (Some req)
      then obtain sr1 where s: "send_waiting E interface (rq_packets req) (sr\<lparr>cache := c\<rparr>) = Inr sr1"
        and sr': "sr' = sr1\<lparr>cache := sr_arpreq_destroy (cache sr1) (rq_id req)\<rparr>"
        using u 3 ins by (auto simp: rbind_eq_Inr)
      have "cache_inv (cache (sr\<lparr>cache := c\<rparr>))" using cache_inv_insert [OF inv ins] by simp
      then have "good_step (sr\<lparr>cache := c\<rparr>) sr1" using s by (rule send_waiting.good)
      then show ?thesis using g good_step_destroy unfolding sr' by (blast intro: good_step_trans)
    qed
  qed
qed

interpretation arp_packet: handler "\<lambda>sr. arp_packet E buf sr interface len"
  for E buf interface len
  by unfold_locales (rule arp_packet_good)

section \<open>Answering a request\<close>

text \<open>The reply of interface \<open>i\<close> to the request in \<open>buf\<close>: both headers are rewritten in place.\<close>

definition arp_reply_frame :: "sr_if \<Rightarrow> bytes \<Rightarrow> bytes" where
  "arp_reply_frame i buf =
     enc_eth ((frame_eth buf)\<lparr>ether_dhost := ar_sha (frame_arp buf), ether_shost := if_addr i\<rparr>)
     @ enc_arp ((frame_arp buf)\<lparr>ar_op := htons arp_op_reply,
          ar_sip := if_ip i, ar_tip := ar_sip (frame_arp buf),
          ar_sha := if_addr i, ar_tha := ar_sha (frame_arp buf)\<rparr>)
     @ drop (sizeof_eth + sizeof_arp) buf"

lemma length_arp_reply_frame:
  "sizeof_eth + sizeof_arp \<le> length buf \<Longrightarrow> length (arp_reply_frame i buf) = length buf"
  by (simp add: arp_reply_frame_def eth.length_enc arp.length_enc)

lemma arp_packet_request:
  assumes "sizeof_eth + sizeof_arp \<le> length buf" "unat len = length buf" "length buf < 2 ^ 31"
    and "sr_get_interface sr interface = Some i"
    and "ar_tip (frame_arp buf) = if_ip i" "ar_op (frame_arp buf) = htons arp_op_request"
  shows "arp_packet E buf sr interface len = Inr (emit E interface (arp_reply_frame i buf) sr)"
proof -
  let ?a = "(frame_arp buf)\<lparr>ar_op := htons arp_op_reply, ar_sip := if_ip i,
    ar_tip := ar_sip (frame_arp buf), ar_sha := if_addr i, ar_tha := ar_sha (frame_arp buf)\<rparr>"
  let ?e = "(frame_eth buf)\<lparr>ether_dhost := ar_sha (frame_arp buf), ether_shost := if_addr i\<rparr>"
  define b where "b = take sizeof_eth buf @ enc_arp ?a @ drop (sizeof_eth + sizeof_arp) buf"
  have l14: "0 + sizeof_eth \<le> length buf" using assms(1) by simp
  have 1: "ld_arp buf = Inr (frame_arp buf)" using assms(1) by (rule arp.ld_ok)
  have 2: "st_arp buf ?a = Inr b" unfolding b_def by (rule arp.st_ok) (simp_all add: assms(1))
  have tb: "take sizeof_eth b = take sizeof_eth buf"
      "drop sizeof_eth b = enc_arp ?a @ drop (sizeof_eth + sizeof_arp) buf"
    using l14 by (simp_all add: b_def)
  have lb: "0 + sizeof_eth \<le> length b" using assms(1) by (simp add: b_def arp.length_enc)
  have 3: "ld_eth b = Inr (frame_eth buf)" by (simp only: eth.ld_ok [OF lb] drop_0 tb(1))
  have 4: "st_eth b ?e = Inr (arp_reply_frame i buf)"
    using eth.st_ok [OF _ lb, where h = ?e] tb(2) by (simp add: arp_reply_frame_def)
  have "arp_packet E buf sr interface len =
      rbind (sr_send_packet E sr (arp_reply_frame i buf) len interface) (\<lambda>(sr, _). Inr sr)"
    using assms(4-6) 2 3 4
    by (simp add: arp_packet_def 1 arp_op_request_def arp_op_reply_def split_def)
  moreover have "source_ok sr (take (unat len) (arp_reply_frame i buf)) interface"
    unfolding arp_reply_frame_def
    by (rule source_ok_eth [OF assms(4)]) (use assms(1,2) in simp_all)
  moreover have "length (arp_reply_frame i buf) = length buf"
    by (rule length_arp_reply_frame) (rule assms(1))
  ultimately show ?thesis using assms(2,3) by (simp add: send_emit)
qed

text \<open>A packet for another address, or with an opcode other than 1 and 2, changes nothing.\<close>

lemma arp_packet_ignored:
  assumes "sizeof_eth + sizeof_arp \<le> length buf" "sr_get_interface sr interface = Some i"
    and "ar_tip (frame_arp buf) \<noteq> if_ip i
      \<or> ar_op (frame_arp buf) \<noteq> htons arp_op_request \<and> ar_op (frame_arp buf) \<noteq> htons arp_op_reply"
  shows "arp_packet E buf sr interface len = Inr sr"
proof -
  have "ntohs w = v \<longleftrightarrow> w = htons v" for w v by (metis ntohs_htons)
  then show ?thesis
    using assms(2,3)
    by (auto simp: arp_packet_def arp.ld_ok [OF assms(1)] arp_op_request_def arp_op_reply_def)
qed

section \<open>The packets that wait\<close>

text \<open>
  Every packet waiting for an address is an IP packet to that address, with a TTL that lets it be
  forwarded, and the address has a route.
\<close>

definition queued_ok :: "sr_instance \<Rightarrow> u32 \<Rightarrow> sr_packet \<Rightarrow> bool" where
  "queued_ok sr b p \<longleftrightarrow> unat (pk_len p) = length (pk_buf p) \<and> length (pk_buf p) < 2 ^ 31
     \<and> is_ip_frame (pk_buf p) \<and> ip_dst (frame_ip (pk_buf p)) = b
     \<and> 1 < ip_ttl (frame_ip (pk_buf p)) \<and> longest_prefix_sum sr b \<noteq> None"

definition queue_ok :: "sr_instance \<Rightarrow> bool" where
  "queue_ok sr \<longleftrightarrow> (\<forall>b. \<forall>p\<in>set (waiting (cache sr) b). queued_ok sr b p)"

lemma queued_ok_cong: "routing_table sr' = routing_table sr \<Longrightarrow> queued_ok sr' = queued_ok sr"
  by (simp add: queued_ok_def fun_eq_iff longest_prefix_sum_cong [of sr' sr])

lemma queue_ok_mono:
  assumes "queue_ok sr" "routing_table sr' = routing_table sr"
    and "\<And>b. set (waiting (cache sr') b) \<subseteq> set (waiting (cache sr) b)"
  shows "queue_ok sr'"
  using assms(1,3) queued_ok_cong [OF assms(2)] by (fastforce simp: queue_ok_def)

lemma queue_ok_good_step:
  "good_step sr sr' \<Longrightarrow> cache sr' = cache sr \<Longrightarrow> queue_ok sr \<Longrightarrow> queue_ok sr'"
  by (rule queue_ok_mono) (auto simp: good_step_def)

lemma waiting_destroy:
  assumes "cache_inv c"
  shows "set (waiting (sr_arpreq_destroy c a) b) \<subseteq> set (waiting c b)"
proof (cases "find (\<lambda>r. rq_ip r = b) (requests (sr_arpreq_destroy c a))")
  case (Some r)
  then have "r \<in> set (requests (sr_arpreq_destroy c a))" "rq_ip r = b"
    by (auto dest: find_Some_iff_set)
  then have "r \<in> set (requests c)" using set_unlink_first by (fastforce simp: sr_arpreq_destroy_def)
  then have "find (\<lambda>r. rq_ip r = b) (requests c) = Some r"
    using assms req_by_ip \<open>rq_ip r = b\<close> by (fastforce simp: cache_inv_def)
  then show ?thesis by (simp add: waiting_def Some)
qed (simp add: waiting_def)

lemma handle_arpreq_waiting:
  assumes "handle_arpreq E sr a rt = Inr sr'" "cache_inv (cache sr)"
  shows "waiting (cache sr') = waiting (cache sr)"
  using assms
proof (cases rule: handle_arpreq_Inr)
  case (2 req sr1 ret)
  then show ?thesis by (simp add: fun_eq_iff waiting_upd_req)
qed simp

lemma handle_arpreq_queue_ok:
  assumes "handle_arpreq E sr a rt = Inr sr'" "cache_inv (cache sr)" "queue_ok sr"
  shows "queue_ok sr'"
  using assms(3) handle_arpreq_good [OF assms(1,2)] handle_arpreq_waiting [OF assms(1,2)]
  by (intro queue_ok_mono [OF assms(3)]) (auto simp: good_step_def)

text \<open>What \<open>packet_to_other_dest\<close> does when it returns: send something, or queue the packet.\<close>

lemma other_dest_Inr:
  assumes "packet_to_other_dest E packet sr interface len = Inr sr'" "is_ip_frame packet"
  obtains "cache sr' = cache sr"
  | rt c a where "1 < ip_ttl (frame_ip packet)"
      "longest_prefix_sum sr (ip_dst (frame_ip packet)) = Some rt"
      "sr_arpcache_lookup (cache sr) (ip_dst (frame_ip packet)) = None"
      "sr_arpcache_queuereq (cache sr) (ip_dst (frame_ip packet)) packet len interface = Inr (c, a)"
      "handle_arpreq E (sr\<lparr>cache := c\<rparr>) a (Some rt) = Inr sr'"
proof (cases "ip_ttl (frame_ip packet) \<le> 1 \<or> longest_prefix_sum sr (ip_dst (frame_ip packet)) = None
    \<or> sr_arpcache_lookup (cache sr) (ip_dst (frame_ip packet)) \<noteq> None")
  case True
  then have "cache sr' = cache sr"
    using assms(1)
    by (auto simp: packet_to_other_dest_def ld_ip_frame [OF assms(2)] Time_Exceeded_def
        dest_host_unreach_def rbind_eq_Inr split: if_splits option.splits
        dest: icmp_error_cache sr_send_packet_good(2))
  then show thesis by (rule that(1))
next
  case False
  then obtain rt where "1 < ip_ttl (frame_ip packet)"
    and rt: "longest_prefix_sum sr (ip_dst (frame_ip packet)) = Some rt"
    and "sr_arpcache_lookup (cache sr) (ip_dst (frame_ip packet)) = None" by auto
  moreover from calculation obtain c a where
    "sr_arpcache_queuereq (cache sr) (ip_dst (frame_ip packet)) packet len interface = Inr (c, a)"
    "handle_arpreq E (sr\<lparr>cache := c\<rparr>) a (Some rt) = Inr sr'"
    using assms(1)
    by (auto simp: packet_to_other_dest_def ld_ip_frame [OF assms(2)] rbind_eq_Inr
        not_le [symmetric])
  ultimately show thesis by (rule that(2))
qed

lemma queuereq_queue_ok:
  assumes run: "sr_arpcache_queuereq (cache sr) (ip_dst (frame_ip packet)) packet len interface = Inr (c, a)"
    and inv: "cache_inv (cache sr)" and q: "queue_ok sr"
    and p: "is_ip_frame packet" "unat len = length packet" "length packet < 2 ^ 31"
    and fwd: "1 < ip_ttl (frame_ip packet)" "longest_prefix_sum sr (ip_dst (frame_ip packet)) = Some rt"
  shows "queue_ok (sr\<lparr>cache := c\<rparr>)"
proof -
  have len: "len \<noteq> 0" "unat len \<le> length packet" using is_ip_frame_len [OF p(1)] p(2) by auto
  let ?p = "\<lparr> pk_buf = take (unat len) packet, pk_len = len,
      pk_iface = c_strncpy sr_IFACE_NAMELEN interface \<rparr>"
  have w: "waiting c b = (if b = ip_dst (frame_ip packet)
      then ?p # waiting (cache sr) (ip_dst (frame_ip packet)) else waiting (cache sr) b)" for b
    by (rule queuereq_spec [OF inv len, where ip = "ip_dst (frame_ip packet)" and iface = interface])
      (use run in auto)
  have new: "queued_ok sr (ip_dst (frame_ip packet)) ?p"
    using fwd p by (simp add: queued_ok_def)
  then show ?thesis
    using q w queued_ok_cong [of "sr\<lparr>cache := c\<rparr>" sr] by (auto simp: queue_ok_def)
qed

lemma other_dest_queue_ok:
  assumes run: "packet_to_other_dest E packet sr interface len = Inr sr'"
    and inv: "cache_inv (cache sr)" and q: "queue_ok sr"
    and p: "is_ip_frame packet" "unat len = length packet" "length packet < 2 ^ 31"
  shows "queue_ok sr'"
  using run p(1)
proof (cases rule: other_dest_Inr)
  case 1
  show ?thesis using other_dest.good [OF inv run] 1 q by (rule queue_ok_good_step)
next
  case (2 rt c a)
  have "queue_ok (sr\<lparr>cache := c\<rparr>)" by (rule queuereq_queue_ok [OF 2(4) inv q p 2(1,2)])
  with 2(5) show ?thesis
    using queuereq_inv [OF inv 2(4)] by (auto intro: handle_arpreq_queue_ok)
qed

lemma send_waiting_queue_ok:
  assumes "send_waiting E interface ps sr = Inr sr'" "cache_inv (cache sr)" "queue_ok sr"
    and "\<forall>p\<in>set ps. queued_ok sr b p"
  shows "queue_ok sr'"
  using assms
proof (induction ps arbitrary: sr)
  case (Cons p ps)
  from Cons.prems(1) obtain sr1 where
    1: "packet_to_other_dest E (pk_buf p) sr interface (pk_len p) = Inr sr1"
    and 2: "send_waiting E interface ps sr1 = Inr sr'"
    by (auto simp: send_waiting_Cons rbind_eq_Inr)
  have p: "is_ip_frame (pk_buf p)" "unat (pk_len p) = length (pk_buf p)" "length (pk_buf p) < 2 ^ 31"
    using Cons.prems(4) by (simp_all add: queued_ok_def)
  have "queue_ok sr1" using 1 Cons.prems(2,3) p by (rule other_dest_queue_ok)
  moreover have "cache_inv (cache sr1)" using Cons.prems(2) 1 by (rule other_dest.keeps_inv)
  moreover have rt: "routing_table sr1 = routing_table sr"
    using other_dest.keeps_config [OF Cons.prems(2) 1] by simp
  have "\<forall>p\<in>set ps. queued_ok sr1 b p" unfolding queued_ok_cong [OF rt] using Cons.prems(4) by simp
  ultimately show ?case by (intro Cons.IH [OF 2])
qed simp

text \<open>Learning a neighbour takes its request, with the packets that wait, out of the queue.\<close>

lemma insert_queue_ok:
  assumes ins: "sr_arpcache_insert t (cache sr) m ip = (c, r)" and inv: "cache_inv (cache sr)" and q: "queue_ok sr"
  shows "queue_ok (sr\<lparr>cache := c\<rparr>)" "r = Some req \<Longrightarrow> \<forall>p\<in>set (rq_packets req). queued_ok (sr\<lparr>cache := c\<rparr>) ip p"
proof -
  have w: "waiting c b = (if b = ip then [] else waiting (cache sr) b)" for b
    using waiting_insert [OF inv, of t m ip b] ins by simp
  show "queue_ok (sr\<lparr>cache := c\<rparr>)" by (rule queue_ok_mono [OF q]) (simp_all add: w)
  show "\<forall>p\<in>set (rq_packets req). queued_ok (sr\<lparr>cache := c\<rparr>) ip p" if "r = Some req"
    using q insert_req(2) [OF ins] that queued_ok_cong [of "sr\<lparr>cache := c\<rparr>" sr] by (auto simp: queue_ok_def)
qed

lemma arp_packet_queue_ok:
  assumes run: "arp_packet E buf sr interface len = Inr sr'"
    and inv: "cache_inv (cache sr)" and q: "queue_ok sr"
  shows "queue_ok sr'"
proof -
  note good = arp_packet_good [OF inv run]
  obtain h i where h: "ld_arp buf = Inr h" "sr_get_interface sr interface = Some i"
    using run by (auto simp: arp_packet_def rbind_eq_Inr)
  note u = run [unfolded arp_packet_def h deref_simps rbind_Inr]
  show ?thesis
  proof (cases "ar_tip h = if_ip i \<and> ntohs (ar_op h) = 2")
    case False
    have "cache sr' = cache sr"
    proof (cases "ar_tip h = if_ip i \<and> ntohs (ar_op h) = 1")
      case True
      then show ?thesis using u by (auto simp: rbind_eq_Inr dest: sr_send_packet_good(2))
    next
      case not_req: False
      show ?thesis using u False not_req by (simp split: if_splits)
    qed
    from good this q show ?thesis by (rule queue_ok_good_step)
  next
    case True
    obtain c r where ins: "sr_arpcache_insert (now E) (cache sr) (ar_sha h) (ar_sip h) = (c, r)"
      by (cases "sr_arpcache_insert (now E) (cache sr) (ar_sha h) (ar_sip h)")
    have qc: "queue_ok (sr\<lparr>cache := c\<rparr>)" by (rule insert_queue_ok(1) [OF ins inv q])
    show ?thesis
    proof (cases r)
      case None
      then show ?thesis using u True ins qc by simp
    next
      case (Some req)
      then obtain sr1 where s: "send_waiting E interface (rq_packets req) (sr\<lparr>cache := c\<rparr>) = Inr sr1"
        and sr': "sr' = sr1\<lparr>cache := sr_arpreq_destroy (cache sr1) (rq_id req)\<rparr>"
        using u True ins by (auto simp: rbind_eq_Inr)
      have ic: "cache_inv (cache (sr\<lparr>cache := c\<rparr>))" using cache_inv_insert [OF inv ins] by simp
      have ps: "\<forall>p\<in>set (rq_packets req). queued_ok (sr\<lparr>cache := c\<rparr>) (ar_sip h) p"
        using insert_queue_ok(2) [OF ins inv q] Some by blast
      have q1: "queue_ok sr1" using s ic qc ps by (rule send_waiting_queue_ok)
      have i1: "cache_inv (cache sr1)" using ic s by (rule send_waiting.keeps_inv)
      show ?thesis unfolding sr'
        by (rule queue_ok_mono [OF q1]) (simp_all add: waiting_destroy [OF i1])
    qed
  qed
qed

section \<open>Releasing the packets\<close>

text \<open>All packets \<open>ps\<close> forwarded in turn by interface \<open>i\<close> to the neighbour \<open>m\<close>.\<close>

definition forward_all :: "env \<Rightarrow> sr_if \<Rightarrow> mac \<Rightarrow> sr_packet list \<Rightarrow> sr_instance \<Rightarrow> sr_instance" where
  "forward_all E i m ps sr =
     fold (\<lambda>p. emit E (if_name i) (forward_frame i m (pk_buf p))) ps sr"

lemma forward_all_sels [simp]:
  "cache (forward_all E i m ps sr) = cache sr" "if_list (forward_all E i m ps sr) = if_list sr"
  "routing_table (forward_all E i m ps sr) = routing_table sr"
  by (induction ps arbitrary: sr) (simp_all add: forward_all_def)

lemma wire_forward_all:
  assumes "full_write E"
  shows "wire (forward_all E i m ps sr) = wire sr @ map (\<lambda>p.
    packet_msg (if_name i) (of_nat (length (forward_frame i m (pk_buf p))))
      (forward_frame i m (pk_buf p))) ps"
  by (induction ps arbitrary: sr) (simp_all add: forward_all_def wire_emit [OF assms])

lemma send_waiting_forwards:
  assumes "sr_arpcache_lookup (cache sr) b = Some e"
    and "longest_prefix_sum sr b = Some rt" "sr_get_interface sr (rt_interface rt) = Some i"
    and "\<forall>p\<in>set ps. queued_ok sr b p"
  shows "send_waiting E interface ps sr = Inr (forward_all E i (ae_mac e) ps sr)"
  using assms
proof (induction ps arbitrary: sr)
  case (Cons p ps)
  let ?sr = "emit E (if_name i) (forward_frame i (ae_mac e) (pk_buf p)) sr"
  have p: "is_ip_frame (pk_buf p)" "ip_dst (frame_ip (pk_buf p)) = b"
      "1 < ip_ttl (frame_ip (pk_buf p))" "unat (pk_len p) = length (pk_buf p)"
      "length (pk_buf p) < 2 ^ 31"
    using Cons.prems(4) by (simp_all add: queued_ok_def)
  have "packet_to_other_dest E (pk_buf p) sr interface (pk_len p) = Inr ?sr"
    by (rule other_dest_forward [OF p(1,3,4) _ Cons.prems(3) _ p(5)])
      (use Cons.prems(1,2) p(2) in simp_all)
  moreover have "send_waiting E interface ps ?sr = Inr (forward_all E i (ae_mac e) ps ?sr)"
    by (rule Cons.IH)
      (use Cons.prems queued_ok_cong [of ?sr sr] longest_prefix_sum_cong [of ?sr sr]
        sr_get_interface_cong [of ?sr sr] in simp_all)
  ultimately show ?case by (simp add: send_waiting_Cons forward_all_def)
qed (simp add: forward_all_def)

lemma emit_cache: "emit E n f (sr\<lparr>cache := c\<rparr>) = (emit E n f sr)\<lparr>cache := c\<rparr>"
  by (simp add: emit_def log_frame_def Let_def split: option.split)

lemma forward_all_cache:
  "forward_all E i m ps (sr\<lparr>cache := c\<rparr>) = (forward_all E i m ps sr)\<lparr>cache := c\<rparr>"
  by (induction ps arbitrary: sr) (simp_all add: forward_all_def emit_cache)

lemma unlink_first_absent: "\<forall>x\<in>set xs. \<not> P x \<Longrightarrow> unlink_first P xs = xs"
  by (induction xs) auto

text \<open>The request an insert has taken out is no longer in the queue: destroying it only frees it.\<close>

lemma insert_detaches:
  assumes "cache_inv c" "sr_arpcache_insert t c m ip = (c', Some req)"
  shows "\<forall>r\<in>set (requests c'). rq_id r \<noteq> rq_id req" "rq_id req < brk c'"
proof -
  have req: "req \<in> set (requests c)" "rq_ip req = ip"
    using insert_req(1) [OF assms(2)] by (auto dest: find_Some_iff_set [OF sym])
  have "requests c' = filter (\<lambda>r. rq_ip r \<noteq> ip) (requests c)"
    using assms by (auto simp: sr_arpcache_insert_def Let_def cache_inv_def unlink_first_filter)
  moreover have "rq_id r \<noteq> rq_id req" if "r \<in> set (requests c)" "rq_ip r \<noteq> ip" for r
    using that req assms(1) by (auto simp: cache_inv_def distinct_map dest: inj_onD)
  ultimately show "\<forall>r\<in>set (requests c'). rq_id r \<noteq> rq_id req" by auto
  show "rq_id req < brk c'" using assms req by (auto simp: cache_inv_def sr_arpcache_insert_def Let_def)
qed

lemma destroy_after_insert:
  assumes "cache_inv c" "sr_arpcache_insert t c m ip = (c', Some req)"
  shows "sr_arpreq_destroy c' (rq_id req) = c'"
  using insert_detaches(1) [OF assms] by (simp add: sr_arpreq_destroy_def unlink_first_absent)

text \<open>
  A reply from a neighbour that is not in the cache yet, when there is room for it: the neighbour is
  learnt, its request is gone, and all packets that waited for it leave by the interface of its
  route, newest first.
\<close>

lemma arp_packet_reply:
  assumes inv: "cache_inv (cache sr)" and q: "queue_ok sr"
    and buf: "sizeof_eth + sizeof_arp \<le> length buf"
    and i0: "sr_get_interface sr interface = Some i0" "ar_tip (frame_arp buf) = if_ip i0"
    and op: "ar_op (frame_arp buf) = htons arp_op_reply"
    and room: "has_room (cache sr)"
    and fresh: "sr_arpcache_lookup (cache sr) (ar_sip (frame_arp buf)) = None"
    and rt: "longest_prefix_sum sr (ar_sip (frame_arp buf)) = Some rt"
      "sr_get_interface sr (rt_interface rt) = Some i"
  shows "arp_packet E buf sr interface len = Inr
    ((forward_all E i (ar_sha (frame_arp buf)) (waiting (cache sr) (ar_sip (frame_arp buf))) sr)
       \<lparr>cache := fst (sr_arpcache_insert (now E) (cache sr) (ar_sha (frame_arp buf))
                        (ar_sip (frame_arp buf)))\<rparr>)"
proof -
  define h where "h = frame_arp buf"
  obtain c r where ins: "sr_arpcache_insert (now E) (cache sr) (ar_sha h) (ar_sip h) = (c, r)"
    by (cases "sr_arpcache_insert (now E) (cache sr) (ar_sha h) (ar_sip h)")
  have w: "waiting (cache sr) (ar_sip h) = (case r of None \<Rightarrow> [] | Some r \<Rightarrow> rq_packets r)"
    by (rule insert_req(2) [OF ins])
  obtain e where e: "sr_arpcache_lookup c (ar_sip h) = Some e" "ae_mac e = ar_sha h"
    using lookup_insert_fresh [OF inv room fresh [folded h_def], of "now E" "ar_sha h"] ins by simp
  let ?sr = "sr\<lparr>cache := c\<rparr>"
  have "\<forall>p\<in>set (waiting (cache sr) (ar_sip h)). queued_ok ?sr (ar_sip h) p"
    using q queued_ok_cong [of ?sr sr] by (simp add: queue_ok_def)
  then have fwd: "send_waiting E interface (waiting (cache sr) (ar_sip h)) ?sr =
      Inr (forward_all E i (ar_sha h) (waiting (cache sr) (ar_sip h)) ?sr)"
    using send_waiting_forwards [of ?sr "ar_sip h" e rt i] e rt [folded h_def]
      longest_prefix_sum_cong [of ?sr sr] sr_get_interface_cong [of ?sr sr] by simp
  have dst: "sr_arpreq_destroy c (rq_id req) = c" if "r = Some req" for req
    by (rule destroy_after_insert [OF inv]) (use ins that in simp)
  have op': "ntohs (ar_op h) = 2"
    using op by (simp add: h_def arp_op_reply_def)
  show ?thesis
    unfolding h_def [symmetric] arp_packet_def arp.ld_ok [OF buf] i0(1) deref_simps rbind_Inr
    using i0(2) op' ins w fwd dst
    by (cases r) (simp_all add: h_def [symmetric] forward_all_cache)
qed

end
