(* ===== verification/Sr_Router.thy ===== *)
theory Sr_Router
  imports Sr_Arp_Packet
begin

text \<open>
  The router as a whole: \<open>sr_init\<close> and the entry \<open>sr_handlepacket\<close> of \<open>sr_router.c\<close>, the sweep of
  the pending requests and the ageing thread of \<open>sr_arpcache.c\<close>. A run of the router is a sequence of
  received frames and ticks of the thread (\<open>step\<close>, \<open>reachable\<close>); the invariant \<open>router_inv\<close> holds in
  every state of a run, and \<open>handlepacket_total\<close> says under which conditions a frame is handled
  without a fault.
\<close>

definition sr_init :: "sr_instance \<Rightarrow> sr_instance" where
  "sr_init sr = sr\<lparr>cache := sr_arpcache_init (cache sr)\<rparr>"

definition sr_handlepacket ::
    "env \<Rightarrow> sr_instance \<Rightarrow> bytes \<Rightarrow> u32 \<Rightarrow> bytes \<Rightarrow> sr_instance res" where
  "sr_handlepacket E sr packet len interface =
     rbind (ethertype packet) (\<lambda>ethtype.
     if ethtype = ethertype_arp then arp_packet E packet sr interface len
     else if ethtype = ethertype_ip then IP_packet E packet sr interface len
     else Inr sr)"

text \<open>
  The walk over the queue: \<open>handle_arpreq\<close> on every node but the last in the loop, on the last after
  it, all with the route found for the first. The next node is known by its address before the
  handler runs; the handler never unlinks a node and returns (\<open>handle_arpreq_ids\<close>).
\<close>

fun sweep_walk :: "env \<Rightarrow> sr_rt option \<Rightarrow> nat list \<Rightarrow> sr_instance \<Rightarrow> sr_instance res" where
  "sweep_walk E dest_rt [] sr = Inr sr"
| "sweep_walk E dest_rt [req] sr = handle_arpreq E sr req dest_rt"
| "sweep_walk E dest_rt (req # req' # reqs) sr =
     rbind (handle_arpreq E sr req dest_rt) (\<lambda>sr. sweep_walk E dest_rt (req' # reqs) sr)"

text \<open>The first request's address is passed to \<open>longest_prefix_sum\<close> as a pointer to a header.\<close>

definition sr_arpcache_sweepreqs :: "env \<Rightarrow> sr_instance \<Rightarrow> sr_instance res" where
  "sr_arpcache_sweepreqs E sr =
     (case requests (cache sr) of
        [] \<Rightarrow> Inr sr
      | req # _ \<Rightarrow>
          (case peek E (rq_ip req) of
             None \<Rightarrow> Inl WildPointer
           | Some dst \<Rightarrow>
               sweep_walk E (longest_prefix_sum sr dst) (map rq_id (requests (cache sr))) sr))"

text \<open>One turn of the loop of \<open>sr_arpcache_timeout\<close>.\<close>

definition sr_arpcache_timeout :: "env \<Rightarrow> sr_instance \<Rightarrow> sr_instance res" where
  "sr_arpcache_timeout E sr = sr_arpcache_sweepreqs E (sr\<lparr>cache := arpcache_expire (now E) (cache sr)\<rparr>)"

section \<open>The handler contract\<close>

lemma sr_handlepacket_good:
  assumes "cache_inv (cache sr)" "sr_handlepacket E sr packet len interface = Inr sr'"
  shows "good_step sr sr'"
proof -
  obtain t where t: "ethertype packet = Inr t"
    using assms(2) by (auto simp: sr_handlepacket_def rbind_eq_Inr)
  note u = assms(2) [unfolded sr_handlepacket_def t rbind_Inr]
  consider "t = ethertype_arp" | "t \<noteq> ethertype_arp" "t = ethertype_ip"
    | "t \<noteq> ethertype_arp" "t \<noteq> ethertype_ip" by blast
  then show ?thesis
    using u arp_packet_good [OF assms(1), of E packet interface len sr']
      IP_packet_good [OF assms(1), of E packet interface len sr']
    by cases simp_all
qed

interpretation handlepacket: handler "\<lambda>sr. sr_handlepacket E sr packet len interface"
  for E packet len interface
  by unfold_locales (rule sr_handlepacket_good)

interpretation arpreq: handler "\<lambda>sr. handle_arpreq E sr a dest_rt" for E a dest_rt
  by unfold_locales (rule handle_arpreq_good)

lemma handle_arpreq_ids:
  assumes "handle_arpreq E sr a rt = Inr sr'" "cache_inv (cache sr)"
  shows "map rq_id (requests (cache sr')) = map rq_id (requests (cache sr))"
  using assms
  by (cases rule: handle_arpreq_Inr) (simp_all add: upd_req_def map_upd_req del: map_map)

lemma sweep_walk_Cons:
  "sweep_walk E rt (a # as) sr = rbind (handle_arpreq E sr a rt) (sweep_walk E rt as)"
  by (cases as) (auto simp: rbind_def split: sum.split)

lemma sweep_walk_handler: "handler (sweep_walk E rt as)"
proof (induction as)
  case Nil
  then show ?case by (simp add: no_packet.handler_axioms)
next
  case (Cons a as)
  show ?case unfolding sweep_walk_Cons using Cons.IH by (rule arpreq.then_handler)
qed

interpretation sweep_walk: handler "sweep_walk E rt as" for E rt as
  by (rule sweep_walk_handler)

lemma sweepreqs_good:
  assumes "cache_inv (cache sr)" "sr_arpcache_sweepreqs E sr = Inr sr'"
  shows "good_step sr sr'"
  using assms(2) sweep_walk.good [OF assms(1)]
  by (auto simp: sr_arpcache_sweepreqs_def split: list.splits option.splits)

interpretation sweepreqs: handler "sr_arpcache_sweepreqs E" for E
  by unfold_locales (rule sweepreqs_good)

definition age_cache :: "int \<Rightarrow> sr_instance \<Rightarrow> sr_instance" where
  "age_cache t sr = sr\<lparr>cache := arpcache_expire t (cache sr)\<rparr>"

interpretation age_cache: handler "\<lambda>sr. Inr (age_cache t sr)" for t
  by unfold_locales (auto simp: age_cache_def intro: good_step_cache cache_inv_expire)

lemma timeout_then: "sr_arpcache_timeout E = (\<lambda>sr. rbind (Inr (age_cache (now E) sr)) (sr_arpcache_sweepreqs E))"
  by (simp add: fun_eq_iff sr_arpcache_timeout_def age_cache_def)

interpretation timeout: handler "sr_arpcache_timeout E" for E
  unfolding timeout_then by (rule age_cache.then_handler) (rule sweepreqs.handler_axioms)

section \<open>The packets that wait\<close>

lemma IP_packet_queue_ok:
  assumes run: "IP_packet E packet sr interface len = Inr sr'"
    and inv: "cache_inv (cache sr)" and q: "queue_ok sr"
    and p: "is_ip_frame packet" "unat len = length packet" "length packet < 2 ^ 31"
  shows "queue_ok sr'"
proof (cases "ip_sum_ok packet \<and> \<not> for_router sr packet")
  case True
  then have "packet_to_other_dest E packet sr interface len = Inr sr'"
    using run by (simp add: IP_packet_cases [OF p(1,2)])
  then show ?thesis using inv q p by (rule other_dest_queue_ok)
next
  case False
  have "cache sr' = cache sr"
    using run False
    by (auto simp: IP_packet_cases [OF p(1,2)] Port_unreach_def dest: icmp_error_cache Echo_Reply_cache
        split: if_splits)
  from IP_packet_good [OF inv run] this q show ?thesis by (rule queue_ok_good_step)
qed

text \<open>A frame marked as IP that is too short for an IP header is dropped.\<close>

lemma IP_packet_short:
  "unat len < sizeof_eth + sizeof_ip \<Longrightarrow> IP_packet E packet sr interface len = Inr sr"
  by (simp add: IP_packet_def validate_IP_def)

text \<open>Which handler a frame goes to.\<close>

lemma handlepacket_ip:
  assumes "is_ip_frame packet"
  shows "sr_handlepacket E sr packet len interface = IP_packet E packet sr interface len"
proof -
  have "ethertype packet = Inr ethertype_ip"
    using assms by (simp add: is_ip_frame_def ethertype_ok)
  then show ?thesis by (simp add: sr_handlepacket_def ethertype_ip_def ethertype_arp_def)
qed

definition is_arp_frame :: "bytes \<Rightarrow> bool" where
  "is_arp_frame packet \<longleftrightarrow> sizeof_eth + sizeof_arp \<le> length packet
     \<and> ether_type (frame_eth packet) = htons ethertype_arp"

lemma handlepacket_arp:
  assumes "is_arp_frame packet"
  shows "sr_handlepacket E sr packet len interface = arp_packet E packet sr interface len"
proof -
  have "ethertype packet = Inr ethertype_arp"
    using assms by (simp add: is_arp_frame_def ethertype_ok)
  then show ?thesis by (simp add: sr_handlepacket_def)
qed

lemma handlepacket_queue_ok:
  assumes run: "sr_handlepacket E sr packet len interface = Inr sr'"
    and inv: "cache_inv (cache sr)" and q: "queue_ok sr"
    and len: "unat len = length packet" "length packet < 2 ^ 31"
  shows "queue_ok sr'"
proof -
  obtain t where t: "ethertype packet = Inr t"
    using run by (auto simp: sr_handlepacket_def rbind_eq_Inr)
  have l14: "sizeof_eth \<le> length packet"
    using t ethertype_oob [of packet] by (cases "length packet < sizeof_eth") auto
  note u = run [unfolded sr_handlepacket_def t rbind_Inr]
  consider "t = ethertype_arp" | "t \<noteq> ethertype_arp" "t = ethertype_ip"
    | "t \<noteq> ethertype_arp" "t \<noteq> ethertype_ip" by blast
  then show ?thesis
  proof cases
    case 1
    with u have "arp_packet E packet sr interface len = Inr sr'" by simp
    then show ?thesis using inv q by (rule arp_packet_queue_ok)
  next
    case 2
    with u have ip: "IP_packet E packet sr interface len = Inr sr'" by simp
    show ?thesis
    proof (cases "sizeof_eth + sizeof_ip \<le> length packet")
      case True
      have "ether_type (frame_eth packet) = htons ethertype_ip"
        using t 2(2) l14 by (metis ethertype_ok Inr_inject ntohs_htons(2))
      with True have "is_ip_frame packet" by (simp add: is_ip_frame_def)
      with ip inv q show ?thesis using len by (rule IP_packet_queue_ok)
    next
      case False
      then show ?thesis using ip q len IP_packet_short [of len E packet sr interface] by simp
    qed
  next
    case 3
    then show ?thesis using u q by simp
  qed
qed

lemma sweep_walk_queue_ok:
  assumes "sweep_walk E rt as sr = Inr sr'" "cache_inv (cache sr)" "queue_ok sr"
  shows "queue_ok sr'"
  using assms
proof (induction as arbitrary: sr)
  case (Cons a as)
  from Cons.prems(1) obtain sr1 where 1: "handle_arpreq E sr a rt = Inr sr1"
    and 2: "sweep_walk E rt as sr1 = Inr sr'" by (auto simp: sweep_walk_Cons rbind_eq_Inr)
  have "queue_ok sr1" using 1 Cons.prems(2,3) by (rule handle_arpreq_queue_ok)
  with 2 show ?case using arpreq.keeps_inv [OF Cons.prems(2) 1] by (intro Cons.IH)
qed simp

lemma timeout_queue_ok:
  assumes run: "sr_arpcache_timeout E sr = Inr sr'" and inv: "cache_inv (cache sr)" and q: "queue_ok sr"
  shows "queue_ok sr'"
proof -
  let ?sr = "sr\<lparr>cache := arpcache_expire (now E) (cache sr)\<rparr>"
  have "queue_ok ?sr"
    by (rule queue_ok_mono [OF q]) (simp_all add: arpcache_expire_def waiting_def)
  moreover have "cache_inv (cache ?sr)" using cache_inv_expire [OF inv] by simp
  ultimately show ?thesis
    using run sweep_walk_queue_ok
    by (auto simp: sr_arpcache_timeout_def sr_arpcache_sweepreqs_def split: list.splits option.splits)
qed

section \<open>Runs of the router\<close>

text \<open>
  What can happen to the router: a frame arrives on an interface, or a second of the ageing thread
  passes. Each step has an environment of its own. A step in which the code faults has no successor.
\<close>

datatype event = Frame bytes bytes | Tick

inductive step :: "env \<Rightarrow> sr_instance \<Rightarrow> event \<Rightarrow> sr_instance \<Rightarrow> bool" where
  frame: "length packet < 2 ^ 31 \<Longrightarrow>
    sr_handlepacket E sr packet (of_nat (length packet)) interface = Inr sr' \<Longrightarrow>
    step E sr (Frame packet interface) sr'"
| tick: "sr_arpcache_timeout E sr = Inr sr' \<Longrightarrow> step E sr Tick sr'"

inductive_cases step_FrameE: "step E sr (Frame packet interface) sr'"
inductive_cases step_TickE: "step E sr Tick sr'"
inductive_simps step_Frame: "step E sr (Frame packet interface) sr'"
inductive_simps step_Tick: "step E sr Tick sr'"

inductive reachable :: "sr_instance \<Rightarrow> sr_instance \<Rightarrow> bool" where
  start: "reachable sr0 sr0"
| more: "reachable sr0 sr \<Longrightarrow> step E sr e sr' \<Longrightarrow> reachable sr0 sr'"

definition router_inv :: "sr_instance \<Rightarrow> bool" where
  "router_inv sr \<longleftrightarrow> cache_inv (cache sr) \<and> queue_ok sr \<and> list_all (wire_msg_ok sr) (wire sr)"

lemma unat_len: "n < 2 ^ 31 \<Longrightarrow> unat (of_nat n :: u32) = n"
  by (simp add: unat_of_nat)

lemma step_good: "step E sr e sr' \<Longrightarrow> cache_inv (cache sr) \<Longrightarrow> good_step sr sr'"
  by (induction rule: step.induct) (auto intro: handlepacket.good timeout.good)

lemma step_queue_ok:
  assumes "step E sr e sr'" "cache_inv (cache sr)" "queue_ok sr"
  shows "queue_ok sr'"
  using assms
proof cases
  case (frame packet interface)
  then show ?thesis using handlepacket_queue_ok [OF frame(3) assms(2,3)] by (simp add: unat_len)
next
  case tick
  show ?thesis by (rule timeout_queue_ok [OF tick(2) assms(2,3)])
qed

lemma step_inv:
  assumes "step E sr e sr'" "router_inv sr"
  shows "router_inv sr'"
proof -
  have inv: "cache_inv (cache sr)" "queue_ok sr" "list_all (wire_msg_ok sr) (wire sr)"
    using assms(2) by (simp_all add: router_inv_def)
  have g: "good_step sr sr'" using assms(1) inv(1) by (rule step_good)
  then have "list_all (wire_msg_ok sr') (wire sr')"
    using inv(3) wire_msg_ok_cong [of sr' sr] by (auto simp: good_step_def)
  then show ?thesis
    using g inv step_queue_ok [OF assms(1) inv(1,2)] by (simp add: router_inv_def good_step_def)
qed

lemma router_inv_init: "wire sr = [] \<Longrightarrow> router_inv (sr_init sr)"
  by (simp add: router_inv_def sr_init_def cache_inv_init)
    (simp add: queue_ok_def waiting_def sr_arpcache_init_def)

lemma reachable_inv: "reachable sr0 sr \<Longrightarrow> router_inv sr0 \<Longrightarrow> router_inv sr"
  by (induction rule: reachable.induct) (auto intro: step_inv)

lemma reachable_config:
  assumes "reachable sr0 sr" "router_inv sr0"
  shows "if_list sr = if_list sr0 \<and> routing_table sr = routing_table sr0"
  using assms
proof (induction rule: reachable.induct)
  case (more sr0 sr E e sr')
  then have "cache_inv (cache sr)" using reachable_inv by (auto simp: router_inv_def)
  with more.hyps(2) have "good_step sr sr'" by (rule step_good)
  then show ?case using more.IH more.prems by (simp add: good_step_def)
qed simp

lemma reachable_wire:
  assumes "reachable sr0 sr" "router_inv sr0"
  shows "\<exists>ms. wire sr = wire sr0 @ ms"
  using assms
proof (induction rule: reachable.induct)
  case (more sr0 sr E e sr')
  then have "cache_inv (cache sr)" using reachable_inv by (auto simp: router_inv_def)
  with more.hyps(2) have "good_step sr sr'" by (rule step_good)
  then show ?case using more.IH more.prems by (auto simp: good_step_def)
qed simp

section \<open>Property\<close>

text \<open>C13: in every state a run of the initialised router reaches, the ARP cache and the request queue are
  well formed, every waiting packet is a forwardable IP packet for the address it waits for, the
  configuration is unchanged, what was sent stays sent, and every message ever written carries a frame
  from the address of the interface it names.\<close>

theorem reachable_states_ok:
  assumes "reachable (sr_init sr0) sr" "list_all (wire_msg_ok sr0) (wire sr0)"
  shows "cache_inv (cache sr) \<and> queue_ok sr \<and> list_all (wire_msg_ok sr0) (wire sr)
    \<and> if_list sr = if_list sr0 \<and> routing_table sr = routing_table sr0
    \<and> (\<exists>ms. wire sr = wire sr0 @ ms)"
proof -
  have "wire_msg_ok (sr_init sr0) = wire_msg_ok sr0" by (rule wire_msg_ok_cong) (simp add: sr_init_def)
  then have init: "router_inv (sr_init sr0)"
    using assms(2) by (simp add: router_inv_def sr_init_def cache_inv_init)
      (simp add: queue_ok_def waiting_def sr_arpcache_init_def)
  have conf: "if_list sr = if_list sr0 \<and> routing_table sr = routing_table sr0"
    using reachable_config [OF assms(1) init] by (simp add: sr_init_def)
  then have "wire_msg_ok sr = wire_msg_ok sr0" by (intro wire_msg_ok_cong) simp
  then show ?thesis
    using reachable_inv [OF assms(1) init] reachable_wire [OF assms(1) init] conf
    by (simp add: router_inv_def sr_init_def)
qed

theorem reachable_states_ok_witness:
  "\<exists>sr. reachable (sr_init ex_router) sr \<and> length (wire sr) = 1 \<and> queue_ok sr"
proof -
  have "\<exists>sr. sr_handlepacket ex_env (sr_init ex_router) ex_udp 34 (if_name ex_if1) = Inr sr
      \<and> length (wire sr) = 1"
  proof -
    have "case sr_handlepacket ex_env (sr_init ex_router) ex_udp 34 (if_name ex_if1) of
        Inr sr \<Rightarrow> length (wire sr) = 1 | Inl _ \<Rightarrow> False" by code_simp
    then show ?thesis by (auto split: sum.splits)
  qed
  then obtain sr where sr: "sr_handlepacket ex_env (sr_init ex_router) ex_udp 34 (if_name ex_if1) = Inr sr"
    and w: "length (wire sr) = 1" by blast
  have len: "length ex_udp = 34" by code_simp
  have "step ex_env (sr_init ex_router) (Frame ex_udp (if_name ex_if1)) sr"
    by (rule frame) (use sr len in simp_all)
  then have r: "reachable (sr_init ex_router) sr" by (rule more [OF start])
  moreover have "list_all (wire_msg_ok ex_router) (wire ex_router)" by (simp add: ex_router_def)
  ultimately show ?thesis using reachable_states_ok w by blast
qed

end
