(* ===== verification/Sr_Safety.thy ===== *)
theory Sr_Safety
  imports Sr_Router
begin

text \<open>
  When the router handles a frame without leaving the defined semantics of C: the exact condition on
  the frame (\<open>frame_ok\<close>), for a router whose routes lead to interfaces and whose pending requests are
  not exhausted. The lemmas go through the handlers from the inside out.
\<close>

text \<open>No pending request would be given up now.\<close>

definition none_exhausted :: "env \<Rightarrow> sr_arpcache \<Rightarrow> bool" where
  "none_exhausted E c \<longleftrightarrow> (\<forall>r\<in>set (requests c). rq_times_sent r < 5 \<or> now E - rq_sent r \<le> 1)"

definition returns :: "sr_instance res \<Rightarrow> bool" where
  "returns r \<longleftrightarrow> (\<exists>sr'. r = Inr sr')"

lemma returns_simps [simp]: "returns (Inr sr)" "\<not> returns (Inl e)"
  by (simp_all add: returns_def)

section \<open>Pending requests\<close>

lemma get_req_set: "get_req a c = Some r \<Longrightarrow> r \<in> set (requests c) \<and> rq_id r = a"
  unfolding get_req_def by (drule find_Some_iff_set) simp

lemma none_exhausted_upd:
  assumes "none_exhausted E c"
    and "\<And>r. rq_times_sent r < 5 \<or> now E - rq_sent r \<le> 1 \<Longrightarrow>
      rq_times_sent (f r) < 5 \<or> now E - rq_sent (f r) \<le> 1"
  shows "none_exhausted E (upd_req a f c)"
  using assms by (auto simp: none_exhausted_def upd_req_def)

lemma handle_arpreq_total:
  assumes "cache_inv (cache sr)" "get_req a (cache sr) = Some r" "none_exhausted E (cache sr)"
    and "sr_get_interface sr (rt_interface rt) = Some i"
  shows "\<exists>sr'. handle_arpreq E sr a (Some rt) = Inr sr' \<and> none_exhausted E (cache sr')"
proof (cases "now E - rq_sent r > 1")
  case True
  then have "rq_times_sent r < 5"
    using assms(3) get_req_set [OF assms(2)] by (auto simp: none_exhausted_def)
  from handle_arpreq_young [OF assms(2) True this assms(4)] show ?thesis
    using assms(3) by (auto intro: none_exhausted_upd)
next
  case False
  then show ?thesis using assms(2,3) by (simp add: handle_arpreq_def)
qed

lemma queuereq_none_exhausted:
  assumes "sr_arpcache_queuereq c ip packet len iface = Inr (c', a)" "none_exhausted E c"
  shows "none_exhausted E c'"
proof -
  define c1 where "c1 = (case find (\<lambda>r. rq_ip r = ip) (requests c) of Some r \<Rightarrow> c | None \<Rightarrow>
    c\<lparr>requests := \<lparr> rq_id = brk c, rq_ip = ip, rq_sent = 0, rq_times_sent = 0,
                    rq_packets = [] \<rparr> # requests c, brk := Suc (brk c)\<rparr>)"
  have "none_exhausted E c1"
    using assms(2) by (auto simp: c1_def none_exhausted_def split: option.split)
  moreover have "c' = c1 \<or> (\<exists>b p. c' = upd_req b (\<lambda>r. r\<lparr>rq_packets := p # rq_packets r\<rparr>) c1)"
    using assms(1)
    by (cases "find (\<lambda>r. rq_ip r = ip) (requests c)")
      (auto simp: sr_arpcache_queuereq_def c1_def rbind_eq_Inr Let_def split: if_splits)
  ultimately show ?thesis by (auto intro!: none_exhausted_upd)
qed

section \<open>Forwarding\<close>

lemma other_dest_total:
  assumes inv: "cache_inv (cache sr)" and ok: "none_exhausted E (cache sr)" and routes: "routes_ok sr"
    and p: "is_ip_frame packet" "1 < ip_ttl (frame_ip packet)" "unat len = length packet"
      "length packet < 2 ^ 31" "longest_prefix_sum sr (ip_dst (frame_ip packet)) \<noteq> None"
  shows "\<exists>sr'. packet_to_other_dest E packet sr interface len = Inr sr' \<and> none_exhausted E (cache sr')"
proof -
  let ?dst = "ip_dst (frame_ip packet)"
  obtain rt where rt: "longest_prefix_sum sr ?dst = Some rt" using p(5) by blast
  obtain i where i: "sr_get_interface sr (rt_interface rt) = Some i" using routes_okD [OF routes rt] ..
  show ?thesis
  proof (cases "sr_arpcache_lookup (cache sr) ?dst")
    case (Some e)
    then show ?thesis using other_dest_forward [OF p(1-3) rt i Some p(4)] ok by simp
  next
    case None
    have len: "len \<noteq> 0" "unat len \<le> length packet" using is_ip_frame_len [OF p(1)] p(3) by auto
    obtain c a r where q: "sr_arpcache_queuereq (cache sr) ?dst packet len interface = Inr (c, a)"
      and c: "cache_inv c" "get_req a c = Some r"
      by (rule queuereq_spec [OF inv len, where ip = ?dst and iface = interface])
    have "none_exhausted E c" using q ok by (rule queuereq_none_exhausted)
    then show ?thesis
      using handle_arpreq_total [of "sr\<lparr>cache := c\<rparr>" a r E rt i] c i
        sr_get_interface_cong [of "sr\<lparr>cache := c\<rparr>" sr] other_dest_miss [OF p(1,2) rt None q]
      by simp
  qed
qed

lemma send_waiting_total:
  assumes "cache_inv (cache sr)" "none_exhausted E (cache sr)" "routes_ok sr"
    and "\<forall>p\<in>set ps. queued_ok sr b p"
  shows "returns (send_waiting E interface ps sr)"
  using assms
proof (induction ps arbitrary: sr)
  case (Cons p ps)
  have p: "queued_ok sr b p" using Cons.prems(4) by simp
  have "\<exists>sr1. packet_to_other_dest E (pk_buf p) sr interface (pk_len p) = Inr sr1
      \<and> none_exhausted E (cache sr1)"
    by (rule other_dest_total [OF Cons.prems(1-3)]) (use p in \<open>auto simp: queued_ok_def\<close>)
  then obtain sr1 where 1: "packet_to_other_dest E (pk_buf p) sr interface (pk_len p) = Inr sr1"
    and ne: "none_exhausted E (cache sr1)" by blast
  have rt: "routing_table sr1 = routing_table sr"
    using other_dest.keeps_config [OF Cons.prems(1) 1] by simp
  have "returns (send_waiting E interface ps sr1)"
    by (rule Cons.IH [OF other_dest.keeps_inv [OF Cons.prems(1) 1] ne
          other_dest.keeps_routes [OF Cons.prems(1) 1 Cons.prems(3)]])
      (unfold queued_ok_cong [OF rt], use Cons.prems(4) in simp)
  then show ?case by (simp add: send_waiting_Cons 1)
qed simp

lemma arp_packet_total:
  assumes inv: "cache_inv (cache sr)" and q: "queue_ok sr" and ne: "none_exhausted E (cache sr)"
    and routes: "routes_ok sr" and i: "sr_get_interface sr interface = Some i"
    and buf: "sizeof_eth + sizeof_arp \<le> length buf" "unat len = length buf" "length buf < 2 ^ 31"
  shows "returns (arp_packet E buf sr interface len)"
proof -
  define h where "h = frame_arp buf"
  consider "ar_tip h \<noteq> if_ip i \<or> ar_op h \<noteq> htons arp_op_request \<and> ar_op h \<noteq> htons arp_op_reply"
    | "ar_tip h = if_ip i" "ar_op h = htons arp_op_request"
    | "ar_tip h = if_ip i" "ar_op h = htons arp_op_reply" by blast
  then show ?thesis
  proof cases
    case 1
    then show ?thesis using arp_packet_ignored [OF buf(1) i] by (simp add: h_def)
  next
    case 2
    then show ?thesis using arp_packet_request [OF buf i] by (simp add: h_def)
  next
    case 3
    obtain c r where ins: "sr_arpcache_insert (now E) (cache sr) (ar_sha h) (ar_sip h) = (c, r)"
      by (cases "sr_arpcache_insert (now E) (cache sr) (ar_sha h) (ar_sip h)")
    let ?sr = "sr\<lparr>cache := c\<rparr>"
    have w: "waiting (cache sr) (ar_sip h) = (case r of None \<Rightarrow> [] | Some r \<Rightarrow> rq_packets r)"
      by (rule insert_req(2) [OF ins])
    have "set (requests c) \<subseteq> set (requests (cache sr))"
      using ins set_unlink_first [of "\<lambda>r. rq_ip r = ar_sip h" "requests (cache sr)"]
      by (auto simp: sr_arpcache_insert_def Let_def)
    then have "none_exhausted E (cache ?sr)" using ne by (auto simp: none_exhausted_def)
    moreover have "cache_inv (cache ?sr)" using cache_inv_insert [OF inv ins] by simp
    moreover have "routes_ok ?sr" using routes by (simp add: routes_ok_def sr_get_interface_def)
    moreover have "\<forall>p\<in>set (waiting (cache sr) (ar_sip h)). queued_ok ?sr (ar_sip h) p"
      using q queued_ok_cong [of ?sr sr] by (simp add: queue_ok_def)
    ultimately have "returns (send_waiting E interface (waiting (cache sr) (ar_sip h)) ?sr)"
      by (intro send_waiting_total)
    moreover have "ntohs (ar_op h) = 2" using 3 by (simp add: arp_op_reply_def)
    ultimately show ?thesis
      unfolding arp_packet_def arp.ld_ok [OF buf(1)] i deref_simps rbind_Inr h_def [symmetric]
      using 3(1) ins w by (cases r) (auto simp: returns_def)
  qed
qed

section \<open>Messages\<close>

text \<open>An error message is built and sent for the lengths 42 to 70 only.\<close>

lemma icmp_error_returns:
  assumes "sizeof_eth + sizeof_ip \<le> length packet" "unat len = length packet"
    and "sr_get_interface sr interface = Some i"
  shows "returns (icmp_error E packet sr interface len type code f)
    \<longleftrightarrow> 42 \<le> length packet \<and> length packet \<le> 70"
proof (cases "42 \<le> length packet")
  case True
  then have l: "sizeof_eth + ICMP_DATA_SIZE \<le> length packet"
    by (simp add: sizeof_eth_def ICMP_DATA_SIZE_def)
  show ?thesis
  proof (cases "length packet \<le> 70")
    case le: True
    then have "sizeof_eth \<le> unat len" "unat len \<le> 70" using assms(1,2) by simp_all
    then show ?thesis using icmp_error_emit [OF l assms(3)] le True by simp
  next
    case False
    then show ?thesis using icmp_error_overread [OF l assms(3)] assms(2) by simp
  qed
next
  case False
  have "0 + sizeof_eth \<le> length packet" using assms(1) by simp
  then show ?thesis
    using False assms eth.ld_ok ip.ld_ok [OF assms(1)]
    by (simp add: icmp_error_def rd_def sizeof_eth_def ICMP_DATA_SIZE_def)
qed

lemma Echo_Reply_returns:
  assumes "sizeof_eth + sizeof_ip \<le> length packet" "unat len = length packet" "length packet < 2 ^ 31"
    and "sr_get_interface sr interface = Some i"
  shows "returns (Echo_Reply E packet sr interface len) \<longleftrightarrow> 38 \<le> length packet"
proof (cases "38 \<le> length packet")
  case True
  then show ?thesis
    using Echo_Reply_emit [OF assms(2) _ assms(4,3)] by (simp add: sizeof_defs)
next
  case False
  then have "ld_icmp buf = Inl OutOfBounds" if "length buf = length packet" for buf
    using that by (intro icmp.ld_oob) (simp add: sizeof_defs)
  then show ?thesis
    using False eth.st_length
    by (auto simp: Echo_Reply_def returns_def rbind_eq_Inr Let_def)
qed

section \<open>The condition on a frame\<close>

text \<open>
  For an IP packet to the router: an ICMP message must have its header, a TCP or UDP packet must fit
  the error message. For a packet to another host that cannot be forwarded, the same.
\<close>

definition fits_error :: "bytes \<Rightarrow> bool" where
  "fits_error packet \<longleftrightarrow> 42 \<le> length packet \<and> length packet \<le> 70"

definition ip_frame_ok :: "sr_instance \<Rightarrow> bytes \<Rightarrow> bool" where
  "ip_frame_ok sr packet \<longleftrightarrow>
     (if for_router sr packet then
        (if ip_p (frame_ip packet) = 1 then 38 \<le> length packet
         else if ip_p (frame_ip packet) = 17 \<or> ip_p (frame_ip packet) = 6 then fits_error packet
         else True)
      else if ip_ttl (frame_ip packet) \<le> 1
              \<or> longest_prefix_sum sr (ip_dst (frame_ip packet)) = None then fits_error packet
      else True)"

definition frame_ok :: "sr_instance \<Rightarrow> bytes \<Rightarrow> bool" where
  "frame_ok sr packet \<longleftrightarrow> 14 \<le> length packet
     \<and> (ether_type (frame_eth packet) = htons ethertype_arp \<longrightarrow> 42 \<le> length packet)
     \<and> (is_ip_frame packet \<and> ip_sum_ok packet \<longrightarrow> ip_frame_ok sr packet)"

lemma IP_packet_returns:
  assumes "router_inv sr" "none_exhausted E (cache sr)" "routes_ok sr"
    and i: "sr_get_interface sr interface = Some i"
    and p: "is_ip_frame packet" "unat len = length packet" "length packet < 2 ^ 31" "ip_sum_ok packet"
  shows "returns (IP_packet E packet sr interface len) \<longleftrightarrow> ip_frame_ok sr packet"
proof -
  have l: "sizeof_eth + sizeof_ip \<le> length packet" using p(1) by (simp add: is_ip_frame_def)
  have inv: "cache_inv (cache sr)" using assms(1) by (simp add: router_inv_def)
  note err = icmp_error_returns [OF l p(2) i]
  show ?thesis
  proof (cases "for_router sr packet")
    case True
    then show ?thesis
      using p(4) Echo_Reply_returns [OF l p(2,3) i]
      by (simp add: IP_packet_cases [OF p(1,2)] ip_frame_ok_def Port_unreach_def err fits_error_def)
  next
    case other: False
    consider "ip_ttl (frame_ip packet) \<le> 1"
      | "1 < ip_ttl (frame_ip packet)" "longest_prefix_sum sr (ip_dst (frame_ip packet)) = None"
      | "1 < ip_ttl (frame_ip packet)" "longest_prefix_sum sr (ip_dst (frame_ip packet)) \<noteq> None"
      by force
    then show ?thesis
    proof cases
      case 1
      then show ?thesis
        using other p(4) other_dest_expired [OF p(1) 1]
        by (simp add: IP_packet_cases [OF p(1,2)] ip_frame_ok_def Time_Exceeded_def err fits_error_def)
    next
      case 2
      then show ?thesis
        using other p(4) other_dest_no_route [OF p(1) 2]
        by (simp add: IP_packet_cases [OF p(1,2)] ip_frame_ok_def dest_host_unreach_def err fits_error_def)
    next
      case 3
      then show ?thesis
        using other p(4) other_dest_total [OF inv assms(2,3) p(1) 3(1) p(2,3) 3(2)]
        by (auto simp: IP_packet_cases [OF p(1,2)] ip_frame_ok_def returns_def not_le [symmetric])
    qed
  qed
qed

lemma handlepacket_returns:
  assumes inv: "router_inv sr" and ne: "none_exhausted E (cache sr)" and routes: "routes_ok sr"
    and i: "sr_get_interface sr interface = Some i"
    and len: "unat len = length packet" "length packet < 2 ^ 31"
  shows "returns (sr_handlepacket E sr packet len interface) \<longleftrightarrow> frame_ok sr packet"
proof (cases "14 \<le> length packet")
  case False
  then show ?thesis by (simp add: sr_handlepacket_def ethertype_oob sizeof_eth_def frame_ok_def)
next
  case True
  then have l: "0 + sizeof_eth \<le> length packet" "sizeof_eth \<le> length packet"
    by (simp_all add: sizeof_eth_def)
  define t where "t = ether_type (frame_eth packet)"
  have et: "ethertype packet = Inr (ntohs t)" using l by (simp add: ethertype_ok t_def)
  have ntohs_iff: "ntohs t = v \<longleftrightarrow> t = htons v" for v by (metis ntohs_htons)
  have ne_types: "htons ethertype_arp \<noteq> htons ethertype_ip"
    by (simp add: ethertype_arp_def ethertype_ip_def)
  consider "t = htons ethertype_arp" | "t = htons ethertype_ip"
    | "t \<noteq> htons ethertype_arp" "t \<noteq> htons ethertype_ip" by blast
  then show ?thesis
  proof cases
    case 1
    have nip: "\<not> is_ip_frame packet" using 1 ne_types by (simp add: is_ip_frame_def t_def)
    have "returns (arp_packet E packet sr interface len) \<longleftrightarrow> 42 \<le> length packet"
    proof (cases "42 \<le> length packet")
      case True
      then show ?thesis
        using arp_packet_total [OF _ _ ne routes i _ len] inv
        by (simp add: router_inv_def sizeof_defs)
    next
      case False
      then have "ld_arp packet = Inl OutOfBounds" by (intro arp.ld_oob) (simp add: sizeof_defs)
      then show ?thesis using False by (simp add: arp_packet_def)
    qed
    then show ?thesis
      using 1 nip True by (simp add: sr_handlepacket_def et ntohs_iff frame_ok_def flip: t_def)
  next
    case 2
    have h: "sr_handlepacket E sr packet len interface = IP_packet E packet sr interface len"
      using 2 ne_types by (simp add: sr_handlepacket_def et ntohs_iff)
    have f: "frame_ok sr packet \<longleftrightarrow> (is_ip_frame packet \<and> ip_sum_ok packet \<longrightarrow> ip_frame_ok sr packet)"
      using 2 True ne_types by (simp add: frame_ok_def flip: t_def)
    show ?thesis
    proof (cases "is_ip_frame packet")
      case ip: True
      show ?thesis
      proof (cases "ip_sum_ok packet")
        case True
        then show ?thesis using IP_packet_returns [OF inv ne routes i ip len] ip by (simp add: h f)
      next
        case False
        then show ?thesis using IP_packet_cases [OF ip len(1)] by (simp add: h f)
      qed
    next
      case False
      then have "unat len < sizeof_eth + sizeof_ip" using 2 len(1) by (simp add: is_ip_frame_def t_def)
      then show ?thesis using False IP_packet_short by (simp add: h f)
    qed
  next
    case 3
    then have "\<not> is_ip_frame packet" by (simp add: is_ip_frame_def t_def)
    with 3 True show ?thesis
      by (simp add: sr_handlepacket_def et ntohs_iff frame_ok_def flip: t_def)
  qed
qed

text \<open>The sweep: with a request pending, whether it returns is decided by a wild read.\<close>

lemma sweep_idle: "requests (cache sr) = [] \<Longrightarrow> sr_arpcache_sweepreqs E sr = Inr sr"
  by (simp add: sr_arpcache_sweepreqs_def)

lemma sweep_wild:
  "requests (cache sr) = r # rs \<Longrightarrow> peek E (rq_ip r) = None \<Longrightarrow>
   sr_arpcache_sweepreqs E sr = Inl WildPointer"
  by (simp add: sr_arpcache_sweepreqs_def)

section \<open>Properties\<close>

lemma ex_router_inv: "router_inv ex_router"
proof -
  have "cache_inv (cache ex_router)" by code_simp
  then show ?thesis by (simp add: router_inv_def queue_ok_def waiting_def ex_router_def ex_cache_def)
qed

text \<open>C1: exactly which frames the router handles without a fault: in a state satisfying the invariant,
  with routes that lead to interfaces and no pending request exhausted, a frame on a known interface
  is handled to the end if and only if it satisfies \<open>frame_ok\<close>; any other frame makes the C code read
  or write outside an object.\<close>

theorem handled_iff_frame_ok:
  assumes "router_inv sr" "none_exhausted E (cache sr)" "routes_ok sr"
    and "sr_get_interface sr interface = Some i"
    and "unat len = length packet" "length packet < 2 ^ 31"
  shows "(\<exists>sr'. sr_handlepacket E sr packet len interface = Inr sr') \<longleftrightarrow> frame_ok sr packet"
  using handlepacket_returns [OF assms] by (simp add: returns_def)

theorem handled_iff_frame_ok_witness:
  "\<not> (\<exists>sr'. sr_handlepacket ex_env ex_router (take 41 ex_arp_request) 41 (if_name ex_if1) = Inr sr')"
proof -
  have "none_exhausted ex_env (cache ex_router)" "routes_ok ex_router"
    "sr_get_interface ex_router (if_name ex_if1) = Some ex_if1"
    "\<not> frame_ok ex_router (take 41 ex_arp_request)" by code_simp+
  then show ?thesis
    using handled_iff_frame_ok [OF ex_router_inv, of ex_env "if_name ex_if1" ex_if1 41
      "take 41 ex_arp_request"] by (simp add: ex_arp_request_def)
qed



end
