(* ===== verification/Sr_Sections.thy ===== *)
theory Sr_Sections
  imports Sr_Router
begin

text \<open>
  The two threads of the router at the grain of the cache's mutex. The main thread handles a frame in
  sections: the code between two acquisitions of \<open>cache.lock\<close>, and the locked bodies of
  \<open>sr_arpcache_lookup\<close>, \<open>sr_arpcache_queuereq\<close>, \<open>sr_arpcache_insert\<close> and \<open>sr_arpreq_destroy\<close>. The ageing
  thread holds the lock through its whole turn; its sections are its calls of \<open>handle_arpreq\<close>. Run
  alone, the sections of a thread compute the handlers of \<open>Sr_Router\<close>.
\<close>

section \<open>The main thread\<close>

text \<open>
  Where \<open>packet_to_other_dest\<close> or \<open>arp_packet\<close> is: about to look up the next hop, to send the frame, to
  queue the packet, to handle the request it was queued in, or to learn from a reply.
\<close>

datatype pc =
    Returned
  | Lookup bytes bytes u32 sr_ip_hdr sr_rt
  | Forward bytes u32 sr_ip_hdr sr_rt sr_arpentry
  | Queue bytes bytes u32 sr_ip_hdr sr_rt
  | Request nat sr_rt
  | Learn sr_arp_hdr bytes

text \<open>The loop of \<open>arp_packet\<close> over a detached request: interface, packets still to send, address.\<close>

type_synonym release = "(bytes \<times> sr_packet list \<times> nat) option"

definition start_other_dest ::
    "env \<Rightarrow> bytes \<Rightarrow> sr_instance \<Rightarrow> bytes \<Rightarrow> u32 \<Rightarrow> (pc \<times> sr_instance) res" where
  "start_other_dest E packet sr interface len =
     rbind (ld_ip packet) (\<lambda>iphdr.
     if ip_ttl iphdr \<le> 1 then rbind (Time_Exceeded E packet sr interface len) (\<lambda>sr. Inr (Returned, sr))
     else case longest_prefix_sum sr (ip_dst iphdr) of
       None \<Rightarrow> rbind (dest_host_unreach E packet sr interface len) (\<lambda>sr. Inr (Returned, sr))
     | Some dest_rt \<Rightarrow> Inr (Lookup packet interface len iphdr dest_rt, sr))"

definition forward ::
    "env \<Rightarrow> bytes \<Rightarrow> u32 \<Rightarrow> sr_ip_hdr \<Rightarrow> sr_rt \<Rightarrow> sr_arpentry \<Rightarrow> sr_instance \<Rightarrow> sr_instance res" where
  "forward E packet len iphdr dest_rt entry sr =
     rbind (deref (sr_get_interface sr (rt_interface dest_rt))) (\<lambda>get_interface.
     rbind (ld_eth packet) (\<lambda>ehdr.
     rbind (st_eth packet (ehdr\<lparr>ether_shost := if_addr get_interface,
                                ether_dhost := ae_mac entry\<rparr>)) (\<lambda>packet.
     rbind (st_ip packet (set_ip_cksum (iphdr\<lparr>ip_ttl := ip_ttl iphdr - 1\<rparr>))) (\<lambda>packet.
     rbind (sr_send_packet E sr packet len (if_name get_interface)) (\<lambda>(sr, _).
     Inr sr)))))"

text \<open>One section, from the place \<open>pc\<close> and the loop \<open>rel\<close> around it.\<close>

fun main_section ::
    "env \<Rightarrow> pc \<times> release \<Rightarrow> sr_instance \<Rightarrow> ((pc \<times> release) \<times> sr_instance) res" where
  "main_section E (Lookup packet interface len iphdr dest_rt, rel) sr =
     Inr ((case sr_arpcache_lookup (cache sr) (ip_dst iphdr) of
             Some entry \<Rightarrow> Forward packet len iphdr dest_rt entry
           | None \<Rightarrow> Queue packet interface len iphdr dest_rt, rel), sr)"
| "main_section E (Forward packet len iphdr dest_rt entry, rel) sr =
     rbind (forward E packet len iphdr dest_rt entry sr) (\<lambda>sr. Inr ((Returned, rel), sr))"
| "main_section E (Queue packet interface len iphdr dest_rt, rel) sr =
     rbind (sr_arpcache_queuereq (cache sr) (ip_dst iphdr) packet len interface) (\<lambda>(c, req).
     Inr ((Request req dest_rt, rel), sr\<lparr>cache := c\<rparr>))"
| "main_section E (Request req dest_rt, rel) sr =
     rbind (handle_arpreq E sr req (Some dest_rt)) (\<lambda>sr. Inr ((Returned, rel), sr))"
| "main_section E (Learn arp_hdr interface, rel) sr =
     (case sr_arpcache_insert (now E) (cache sr) (ar_sha arp_hdr) (ar_sip arp_hdr) of
        (c, None) \<Rightarrow> Inr ((Returned, None), sr\<lparr>cache := c\<rparr>)
      | (c, Some request) \<Rightarrow>
          Inr ((Returned, Some (interface, rq_packets request, rq_id request)), sr\<lparr>cache := c\<rparr>))"
| "main_section E (Returned, Some (interface, p # ps, req)) sr =
     rbind (start_other_dest E (pk_buf p) sr interface (pk_len p)) (\<lambda>(pc, sr).
     Inr ((pc, Some (interface, ps, req)), sr))"
| "main_section E (Returned, Some (interface, [], req)) sr =
     Inr ((Returned, None), sr\<lparr>cache := sr_arpreq_destroy (cache sr) req\<rparr>)"
| "main_section E (Returned, None) sr = Inr ((Returned, None), sr)"

text \<open>The sections that take the lock.\<close>

fun takes_lock :: "pc \<times> release \<Rightarrow> bool" where
  "takes_lock (Lookup _ _ _ _ _, _) = True"
| "takes_lock (Queue _ _ _ _ _, _) = True"
| "takes_lock (Learn _ _, _) = True"
| "takes_lock (Returned, Some (_, [], _)) = True"
| "takes_lock _ = False"

text \<open>A received frame, up to the first lock. An ARP packet that is no reply for us takes none.\<close>

definition receive_arp :: "env \<Rightarrow> bytes \<Rightarrow> sr_instance \<Rightarrow> bytes \<Rightarrow> u32 \<Rightarrow> (pc \<times> sr_instance) res" where
  "receive_arp E buf sr interface len =
     rbind (ld_arp buf) (\<lambda>arp_hdr.
     rbind (deref (sr_get_interface sr interface)) (\<lambda>get_interface.
     if ar_tip arp_hdr = if_ip get_interface \<and> ntohs (ar_op arp_hdr) = 2
     then Inr (Learn arp_hdr interface, sr)
     else rbind (arp_packet E buf sr interface len) (\<lambda>sr. Inr (Returned, sr))))"

definition receive_ip :: "env \<Rightarrow> bytes \<Rightarrow> sr_instance \<Rightarrow> bytes \<Rightarrow> u32 \<Rightarrow> (pc \<times> sr_instance) res" where
  "receive_ip E packet sr interface len =
     (if validate_IP packet len \<noteq> 0 then Inr (Returned, sr)
      else rbind (validate_checksum packet len) (\<lambda>(packet, wrong).
        case wrong of
          None \<Rightarrow> Inl NoValue
        | Some w \<Rightarrow>
            if w \<noteq> 0 then Inr (Returned, sr)
            else rbind (ip_packet_router_check sr packet) (\<lambda>rt.
              case rt of
                Some _ \<Rightarrow>
                  rbind (ld_ip packet) (\<lambda>iphdr.
                  rbind (if ip_p iphdr = 1 then Echo_Reply E packet sr interface len
                         else if ip_p iphdr = 17 \<or> ip_p iphdr = 6
                         then Port_unreach E packet sr interface len
                         else Inr sr) (\<lambda>sr. Inr (Returned, sr)))
              | None \<Rightarrow>
                  rbind (validate_checksum packet len) (\<lambda>(packet, _).
                  start_other_dest E packet sr interface len))))"

definition receive_frame :: "env \<Rightarrow> sr_instance \<Rightarrow> bytes \<Rightarrow> u32 \<Rightarrow> bytes \<Rightarrow> (pc \<times> sr_instance) res" where
  "receive_frame E sr packet len interface =
     rbind (ethertype packet) (\<lambda>ethtype.
     if ethtype = ethertype_arp then receive_arp E packet sr interface len
     else if ethtype = ethertype_ip then receive_ip E packet sr interface len
     else Inr (Returned, sr))"

section \<open>The ageing thread\<close>

text \<open>Asleep, or holding the lock with requests still to handle, all with the same route.\<close>

datatype ager = Asleep | Sweeping "sr_rt option" "nat list"

definition ager_wake :: "env \<Rightarrow> sr_instance \<Rightarrow> (ager \<times> sr_instance) res" where
  "ager_wake E sr =
     (let sr = sr\<lparr>cache := arpcache_expire (now E) (cache sr)\<rparr> in
      case requests (cache sr) of
        [] \<Rightarrow> Inr (Asleep, sr)
      | req # _ \<Rightarrow>
          (case peek E (rq_ip req) of
             None \<Rightarrow> Inl WildPointer
           | Some dst \<Rightarrow>
               Inr (Sweeping (longest_prefix_sum sr dst) (map rq_id (requests (cache sr))), sr)))"

fun ager_section :: "env \<Rightarrow> ager \<Rightarrow> sr_instance \<Rightarrow> (ager \<times> sr_instance) res" where
  "ager_section E (Sweeping rt (a # as)) sr =
     rbind (handle_arpreq E sr a rt) (\<lambda>sr. Inr (if as = [] then Asleep else Sweeping rt as, sr))"
| "ager_section E _ sr = Inr (Asleep, sr)"

section \<open>A thread alone computes its handler\<close>

lemma rbind_cong [fundef_cong]:
  "m = m' \<Longrightarrow> (\<And>x. m' = Inr x \<Longrightarrow> f x = g x) \<Longrightarrow> rbind m f = rbind m' g"
  by (cases m') simp_all

lemma rbind_assoc: "rbind (rbind m f) g = rbind m (\<lambda>x. rbind (f x) g)"
  by (cases m) simp_all

lemma rbind_Inr_id [simp]: "rbind m Inr = m"
  by (cases m) simp_all

fun pc_rank :: "pc \<Rightarrow> nat" where
  "pc_rank (Lookup _ _ _ _ _) = 3"
| "pc_rank (Queue _ _ _ _ _) = 2"
| "pc_rank (Forward _ _ _ _ _) = 1"
| "pc_rank (Request _ _) = 1"
| "pc_rank _ = 0"

definition release_rank :: "release \<Rightarrow> nat" where
  "release_rank rel = (case rel of None \<Rightarrow> 0 | Some (_, ps, _) \<Rightarrow> Suc (4 * length ps))"

definition learning :: "pc \<Rightarrow> nat" where
  "learning pc = (case pc of Learn _ _ \<Rightarrow> 1 | _ \<Rightarrow> 0)"

definition main_order :: "((pc \<times> release) \<times> (pc \<times> release)) set" where
  "main_order = measures [learning \<circ> fst, \<lambda>(pc, rel). pc_rank pc + release_rank rel]"

lemma start_other_dest_pc:
  "start_other_dest E packet sr interface len = Inr (pc, sr') \<Longrightarrow>
     pc = Returned \<or> (\<exists>iphdr rt. pc = Lookup packet interface len iphdr rt)"
  by (auto simp: start_other_dest_def rbind_eq_Inr split: if_splits option.splits)

text \<open>Every section takes the main thread closer to the next frame, whatever the other thread does.\<close>

lemma main_section_decreases:
  assumes "main_section E m sr = Inr (m', sr')" "m \<noteq> (Returned, None)"
  shows "(m', m) \<in> main_order"
  using assms
  by (cases "(E, m, sr)" rule: main_section.cases)
    (auto simp: main_order_def learning_def release_rank_def rbind_eq_Inr split: option.splits prod.splits
      dest!: start_other_dest_pc)

function run_main :: "env \<Rightarrow> pc \<times> release \<Rightarrow> sr_instance \<Rightarrow> sr_instance res" where
  "run_main E m sr =
     (if m = (Returned, None) then Inr sr
      else rbind (main_section E m sr) (\<lambda>(m', sr'). run_main E m' sr'))"
  by pat_completeness auto
termination
  by (relation "inv_image main_order (\<lambda>(E, m, sr). m)")
    (auto simp: main_order_def dest: main_section_decreases [unfolded main_order_def])

declare run_main.simps [simp del]

function run_ager :: "env \<Rightarrow> ager \<Rightarrow> sr_instance \<Rightarrow> sr_instance res" where
  "run_ager E Asleep sr = Inr sr"
| "run_ager E (Sweeping rt as) sr =
     rbind (ager_section E (Sweeping rt as) sr) (\<lambda>(a', sr'). run_ager E a' sr')"
  by pat_completeness auto
termination
proof (relation "measure (\<lambda>(E, a, sr). case a of Asleep \<Rightarrow> 0 | Sweeping rt as \<Rightarrow> Suc (length as))")
  fix E rt as sr x a' sr'
  assume "ager_section E (Sweeping rt as) sr = Inr x" "(a', sr') = x"
  then show "((E, a', sr'), E, Sweeping rt as, sr)
      \<in> measure (\<lambda>(E, a, sr). case a of Asleep \<Rightarrow> 0 | Sweeping rt as \<Rightarrow> Suc (length as))"
    by (cases as) (auto simp: rbind_eq_Inr split: if_splits)
qed simp

lemma run_main_idle [simp]: "run_main E (Returned, None) = Inr"
  by (simp add: run_main.simps fun_eq_iff)

lemma run_main_section:
  "m \<noteq> (Returned, None) \<Longrightarrow> run_main E m sr = rbind (main_section E m sr) (\<lambda>(m', sr'). run_main E m' sr')"
  by (simp add: run_main.simps [of E m])

lemma run_main_lookup:
  "run_main E (Lookup packet interface len iphdr rt, rel) sr =
     (case sr_arpcache_lookup (cache sr) (ip_dst iphdr) of
        Some entry \<Rightarrow> rbind (forward E packet len iphdr rt entry sr) (run_main E (Returned, rel))
      | None \<Rightarrow> rbind (sr_arpcache_queuereq (cache sr) (ip_dst iphdr) packet len interface) (\<lambda>(c, req).
          rbind (handle_arpreq E (sr\<lparr>cache := c\<rparr>) req (Some rt)) (run_main E (Returned, rel))))"
  by (auto simp: run_main_section rbind_assoc intro!: rbind_cong split: option.split)

lemma run_other_dest:
  "rbind (start_other_dest E packet sr interface len) (\<lambda>(pc, sr). run_main E (pc, rel) sr) =
     rbind (packet_to_other_dest E packet sr interface len) (run_main E (Returned, rel))"
  by (auto simp: start_other_dest_def packet_to_other_dest_def rbind_assoc run_main_lookup forward_def
      intro!: rbind_cong split: option.split)

lemma run_release:
  "run_main E (Returned, Some (interface, ps, req)) sr =
     rbind (send_waiting E interface ps sr) (\<lambda>sr. Inr (sr\<lparr>cache := sr_arpreq_destroy (cache sr) req\<rparr>))"
proof (induction ps arbitrary: sr)
  case (Cons p ps)
  have "run_main E (Returned, Some (interface, p # ps, req)) sr =
      rbind (start_other_dest E (pk_buf p) sr interface (pk_len p))
        (\<lambda>(pc, sr). run_main E (pc, Some (interface, ps, req)) sr)"
    by (subst run_main_section) (auto simp: rbind_assoc intro!: rbind_cong)
  also have "\<dots> = rbind (packet_to_other_dest E (pk_buf p) sr interface (pk_len p))
        (run_main E (Returned, Some (interface, ps, req)))"
    by (rule run_other_dest)
  finally show ?case by (simp add: send_waiting_Cons rbind_assoc Cons.IH [abs_def])
qed (simp add: run_main_section)

lemma run_receive_arp:
  "rbind (receive_arp E buf sr interface len) (\<lambda>(pc, sr). run_main E (pc, None) sr) =
     arp_packet E buf sr interface len"
  by (auto simp: receive_arp_def arp_packet_def rbind_assoc run_main_section run_release
      intro!: rbind_cong split: option.split prod.split)

lemma run_receive_ip:
  "rbind (receive_ip E packet sr interface len) (\<lambda>(pc, sr). run_main E (pc, None) sr) =
     IP_packet E packet sr interface len"
  by (auto simp: receive_ip_def IP_packet_def rbind_assoc run_other_dest rbind_Inr_id
      intro!: rbind_cong split: option.split prod.split)

lemma sections_handlepacket:
  "rbind (receive_frame E sr packet len interface) (\<lambda>(pc, sr). run_main E (pc, None) sr) =
     sr_handlepacket E sr packet len interface"
  by (auto simp: receive_frame_def sr_handlepacket_def rbind_assoc run_receive_arp run_receive_ip intro!: rbind_cong)

lemma run_ager_sweep: "as \<noteq> [] \<Longrightarrow> run_ager E (Sweeping rt as) sr = sweep_walk E rt as sr"
proof (induction as arbitrary: sr)
  case (Cons a as)
  have "sweep_walk E rt [] = Inr" by (simp add: fun_eq_iff)
  then show ?case
    using Cons.IH by (cases "as = []") (auto simp: sweep_walk_Cons rbind_assoc intro!: rbind_cong)
qed simp

lemma sections_timeout:
  "rbind (ager_wake E sr) (\<lambda>(a, sr). run_ager E a sr) = sr_arpcache_timeout E sr"
proof -
  have r: "run_ager E (Sweeping rt (map rq_id (r # rs))) sr = sweep_walk E rt (map rq_id (r # rs)) sr"
    for rt r rs sr by (rule run_ager_sweep) simp
  show ?thesis
    unfolding ager_wake_def sr_arpcache_timeout_def sr_arpcache_sweepreqs_def Let_def
    by (cases "requests (cache (sr\<lparr>cache := arpcache_expire (now E) (cache sr)\<rparr>))")
      (simp_all add: r del: list.map run_ager.simps(2) split: option.split)
qed

end
