(* ===== verification/Sr_Threads.thy ===== *)
theory Sr_Threads
  imports Sr_Sections
begin

text \<open>
  The sections of the two threads interleaved. A section with the lock waits while the ageing thread is
  in its turn, the others run at any time. Interleaved in any way the sections keep the invariant of
  the router, and no thread ever follows a pointer to a freed request.
\<close>

section \<open>What each thread relies on\<close>

text \<open>
  A step that leaves the other thread's pointers alone: the requests are the same nodes, no neighbour
  is learnt and the routes are unchanged. Every section without the lock is one, and every section
  of the ageing thread.
\<close>

definition calm :: "sr_instance \<Rightarrow> sr_instance \<Rightarrow> bool" where
  "calm sr sr' \<longleftrightarrow> map rq_id (requests (cache sr')) = map rq_id (requests (cache sr))
     \<and> brk (cache sr') = brk (cache sr) \<and> routing_table sr' = routing_table sr
     \<and> (\<forall>ip. sr_arpcache_lookup (cache sr) ip = None \<longrightarrow> sr_arpcache_lookup (cache sr') ip = None)"

lemma calm_refl [simp]: "calm sr sr"
  by (simp add: calm_def)

lemma calm_same_cache: "cache sr' = cache sr \<Longrightarrow> good_step sr sr' \<Longrightarrow> calm sr sr'"
  by (simp add: calm_def good_step_def)

lemma lookup_cong: "entries c' = entries c \<Longrightarrow> sr_arpcache_lookup c' = sr_arpcache_lookup c"
  by (simp add: fun_eq_iff sr_arpcache_lookup_def)

lemma calm_arpreq:
  assumes "handle_arpreq E sr a rt = Inr sr'" "cache_inv (cache sr)"
  shows "calm sr sr'"
proof -
  have "routing_table sr' = routing_table sr" using handle_arpreq_good [OF assms] by (simp add: good_step_def)
  moreover have "entries (cache sr') = entries (cache sr) \<and> brk (cache sr') = brk (cache sr)"
    using assms by (cases rule: handle_arpreq_Inr) (simp_all add: upd_req_def)
  ultimately show ?thesis
    using handle_arpreq_ids [OF assms] lookup_cong [of "cache sr'" "cache sr"] by (simp add: calm_def)
qed

lemma calm_expire: "calm sr (sr\<lparr>cache := arpcache_expire t (cache sr)\<rparr>)"
  using lookup_expire_None by (auto simp: calm_def) (simp_all add: arpcache_expire_def)

lemma get_req_None: "get_req a c = None \<longleftrightarrow> a \<notin> set (map rq_id (requests c))"
  by (auto simp: get_req_def find_None_iff)

lemma calm_get_req: "calm sr sr' \<Longrightarrow> get_req a (cache sr') = None \<longleftrightarrow> get_req a (cache sr) = None"
  by (simp only: calm_def get_req_None)

section \<open>The invariant of the two threads\<close>

definition under_way :: "sr_instance \<Rightarrow> bytes \<Rightarrow> u32 \<Rightarrow> sr_ip_hdr \<Rightarrow> sr_rt \<Rightarrow> bool" where
  "under_way sr packet len iphdr rt \<longleftrightarrow> is_ip_frame packet \<and> iphdr = frame_ip packet
     \<and> unat len = length packet \<and> length packet < 2 ^ 31 \<and> 1 < ip_ttl iphdr
     \<and> longest_prefix_sum sr (ip_dst iphdr) = Some rt"

text \<open>When a packet is about to be queued its neighbour is still unknown; a request about to be handled
  is in the queue.\<close>

fun pc_ok :: "sr_instance \<Rightarrow> pc \<Rightarrow> bool" where
  "pc_ok sr (Lookup packet interface len iphdr rt) = under_way sr packet len iphdr rt"
| "pc_ok sr (Forward packet len iphdr rt entry) = under_way sr packet len iphdr rt"
| "pc_ok sr (Queue packet interface len iphdr rt) =
     (under_way sr packet len iphdr rt \<and> sr_arpcache_lookup (cache sr) (ip_dst iphdr) = None)"
| "pc_ok sr (Request a rt) = (get_req a (cache sr) \<noteq> None)"
| "pc_ok sr _ = True"

text \<open>The request whose packets are being released is no longer in the queue.\<close>

definition release_ok :: "sr_instance \<Rightarrow> release \<Rightarrow> bool" where
  "release_ok sr rel = (case rel of None \<Rightarrow> True
     | Some (interface, ps, a) \<Rightarrow> get_req a (cache sr) = None \<and> a < brk (cache sr)
         \<and> (\<exists>b. \<forall>p\<in>set ps. queued_ok sr b p))"

definition ager_ok :: "sr_instance \<Rightarrow> ager \<Rightarrow> bool" where
  "ager_ok sr a = (case a of Asleep \<Rightarrow> True
     | Sweeping rt as \<Rightarrow> as \<noteq> [] \<and> (\<forall>a\<in>set as. get_req a (cache sr) \<noteq> None))"

lemma under_way_cong: "routing_table sr' = routing_table sr \<Longrightarrow> under_way sr' = under_way sr"
  by (simp add: fun_eq_iff under_way_def longest_prefix_sum_cong [of sr' sr])

lemma calm_pc_ok: "calm sr sr' \<Longrightarrow> pc_ok sr pc \<Longrightarrow> pc_ok sr' pc"
  using calm_get_req [of sr sr'] under_way_cong [of sr' sr] by (cases pc) (auto simp: calm_def)

lemma calm_release_ok: "calm sr sr' \<Longrightarrow> release_ok sr rel \<Longrightarrow> release_ok sr' rel"
  using calm_get_req [of sr sr'] queued_ok_cong [of sr' sr]
  by (auto simp: release_ok_def calm_def split: option.splits)

lemma calm_ager_ok: "calm sr sr' \<Longrightarrow> ager_ok sr a \<Longrightarrow> ager_ok sr' a"
  using calm_get_req [of sr sr'] by (auto simp: ager_ok_def split: ager.splits)

section \<open>Sections without the lock\<close>

lemma start_other_dest_ok:
  assumes run: "start_other_dest E packet sr interface len = Inr (pc, sr')" and inv: "cache_inv (cache sr)"
    and p: "is_ip_frame packet" "unat len = length packet" "length packet < 2 ^ 31"
  shows "good_step sr sr'" "cache sr' = cache sr" "pc_ok sr' pc"
proof -
  note u = run [unfolded start_other_dest_def ld_ip_frame [OF p(1)] rbind_Inr]
  have "good_step sr sr' \<and> cache sr' = cache sr \<and> pc_ok sr' pc"
    using u p time_exceeded.good [OF inv] host_unreach.good [OF inv]
    by (auto simp: rbind_eq_Inr under_way_def not_le [symmetric] split: if_splits option.splits
        dest: icmp_error_cache simp: Time_Exceeded_def dest_host_unreach_def)
  then show "good_step sr sr'" "cache sr' = cache sr" "pc_ok sr' pc" by simp_all
qed

lemma forward_ok:
  assumes "forward E packet len iphdr rt entry sr = Inr sr'"
  shows "good_step sr sr'" "cache sr' = cache sr"
  using assms by (auto simp: forward_def rbind_eq_Inr dest: sr_send_packet_good)

lemma arp_no_reply_cache:
  assumes run: "arp_packet E buf sr interface len = Inr sr'" and h: "ld_arp buf = Inr h"
    "sr_get_interface sr interface = Some i" and no: "\<not> (ar_tip h = if_ip i \<and> ntohs (ar_op h) = 2)"
  shows "cache sr' = cache sr"
proof -
  note u = run [unfolded arp_packet_def h deref_simps rbind_Inr]
  show ?thesis
  proof (cases "ar_tip h = if_ip i \<and> ntohs (ar_op h) = 1")
    case True
    then show ?thesis using u by (auto simp: rbind_eq_Inr dest: sr_send_packet_good(2))
  qed (use u no in \<open>simp split: if_splits\<close>)
qed

lemma receive_arp_ok:
  assumes run: "receive_arp E buf sr interface len = Inr (pc, sr')" and inv: "cache_inv (cache sr)"
  shows "good_step sr sr'" "cache sr' = cache sr" "pc_ok sr' pc"
proof -
  obtain h i where h: "ld_arp buf = Inr h" "sr_get_interface sr interface = Some i"
    using run by (auto simp: receive_arp_def rbind_eq_Inr)
  note u = run [unfolded receive_arp_def h deref_simps rbind_Inr]
  have "good_step sr sr' \<and> cache sr' = cache sr \<and> pc_ok sr' pc"
    using u arp_packet.good [OF inv] arp_no_reply_cache [OF _ h] by (auto simp: rbind_eq_Inr split: if_splits)
  then show "good_step sr sr'" "cache sr' = cache sr" "pc_ok sr' pc" by simp_all
qed

lemma receive_ip_cases:
  assumes "is_ip_frame packet" "unat len = length packet"
  shows "receive_ip E packet sr interface len =
    (if ip_sum_ok packet \<and> \<not> for_router sr packet then start_other_dest E packet sr interface len
     else rbind (IP_packet E packet sr interface len) (\<lambda>sr. Inr (Returned, sr)))"
proof (cases "ip_sum_ok packet")
  case True
  note v = validate_checksum_frame(1) [OF assms(1) True]
  show ?thesis
    using True assms
    by (cases "find (\<lambda>i. if_ip i = ip_dst (frame_ip packet)) (if_list sr)")
      (simp_all add: receive_ip_def IP_packet_def validate_IP_frame v ip_packet_router_check_frame ld_ip_frame
        for_router_find)
next
  case False
  then obtain p where "validate_checksum packet len = Inr (p, Some 1)"
    using validate_checksum_frame(2) [OF assms(1)] by blast
  then show ?thesis using False assms by (simp add: receive_ip_def IP_packet_def validate_IP_frame)
qed

lemma receive_ip_ok:
  assumes run: "receive_ip E packet sr interface len = Inr (pc, sr')" and inv: "cache_inv (cache sr)"
    and p: "is_ip_frame packet" "unat len = length packet" "length packet < 2 ^ 31"
  shows "good_step sr sr'" "cache sr' = cache sr" "pc_ok sr' pc"
proof -
  have "good_step sr sr' \<and> cache sr' = cache sr \<and> pc_ok sr' pc"
  proof (cases "ip_sum_ok packet \<and> \<not> for_router sr packet")
    case True
    then have "start_other_dest E packet sr interface len = Inr (pc, sr')"
      using run receive_ip_cases [OF p(1,2)] by simp
    then show ?thesis using start_other_dest_ok [OF _ inv p] by blast
  next
    case False
    then have i: "IP_packet E packet sr interface len = Inr sr'" "pc = Returned"
      using run by (auto simp: receive_ip_cases [OF p(1,2)] rbind_eq_Inr)
    have "cache sr' = cache sr"
      using i(1) False
      by (auto simp: IP_packet_cases [OF p(1,2)] Port_unreach_def dest: icmp_error_cache Echo_Reply_cache
          split: if_splits)
    then show ?thesis using ip_packet.good [OF inv i(1)] i(2) by simp
  qed
  then show "good_step sr sr'" "cache sr' = cache sr" "pc_ok sr' pc" by simp_all
qed

lemma receive_ok:
  assumes run: "receive_frame E sr packet len interface = Inr (pc, sr')" and inv: "cache_inv (cache sr)"
    and len: "unat len = length packet" "length packet < 2 ^ 31"
  shows "good_step sr sr'" "cache sr' = cache sr" "pc_ok sr' pc"
proof -
  obtain t where t: "ethertype packet = Inr t"
    using run by (auto simp: receive_frame_def rbind_eq_Inr)
  have l14: "sizeof_eth \<le> length packet"
    using t ethertype_oob [of packet] by (cases "length packet < sizeof_eth") auto
  note u = run [unfolded receive_frame_def t rbind_Inr]
  have "good_step sr sr' \<and> cache sr' = cache sr \<and> pc_ok sr' pc"
  proof (cases "t = ethertype_ip \<and> sizeof_eth + sizeof_ip \<le> length packet")
    case True
    then have "ether_type (frame_eth packet) = htons ethertype_ip"
      using t l14 by (metis ethertype_ok Inr_inject ntohs_htons(2))
    with True have "is_ip_frame packet" by (simp add: is_ip_frame_def)
    moreover have "receive_ip E packet sr interface len = Inr (pc, sr')"
      using u True by (simp add: ethertype_ip_def ethertype_arp_def)
    ultimately show ?thesis using receive_ip_ok [OF _ inv _ len] by blast
  next
    case False
    then show ?thesis
      using u len receive_arp_ok [OF _ inv, of E packet interface len pc sr']
      by (auto simp: receive_ip_def validate_IP_def split: if_splits)
  qed
  then show "good_step sr sr'" "cache sr' = cache sr" "pc_ok sr' pc" by simp_all
qed

section \<open>Sections with the lock\<close>

lemma queuereq_ids:
  assumes "sr_arpcache_queuereq c ip packet len iface = Inr (c', a)" "cache_inv c"
  shows "get_req a c' \<noteq> None" "brk c \<le> brk c'"
    "b < brk c \<Longrightarrow> get_req b c = None \<Longrightarrow> get_req b c' = None"
proof -
  define c1 where "c1 = (case find (\<lambda>r. rq_ip r = ip) (requests c) of Some r \<Rightarrow> c | None \<Rightarrow>
    c\<lparr>requests := \<lparr> rq_id = brk c, rq_ip = ip, rq_sent = 0, rq_times_sent = 0,
                    rq_packets = [] \<rparr> # requests c, brk := Suc (brk c)\<rparr>)"
  have "map rq_id (requests c') = map rq_id (requests c1) \<and> brk c' = brk c1"
    and a: "a = (case find (\<lambda>r. rq_ip r = ip) (requests c) of Some r \<Rightarrow> rq_id r | None \<Rightarrow> brk c)"
    using assms(1) by (auto simp: sr_arpcache_queuereq_def c1_def rbind_eq_Inr upd_req_def Let_def map_upd_req
        simp del: map_map split: option.splits if_splits)
  moreover have "a \<in> set (map rq_id (requests c1))"
    using a by (auto simp: c1_def split: option.splits dest: find_Some_iff_set)
  ultimately show "get_req a c' \<noteq> None" "brk c \<le> brk c'"
    "b < brk c \<Longrightarrow> get_req b c = None \<Longrightarrow> get_req b c' = None"
    unfolding get_req_None by (auto simp: c1_def split: option.splits)
qed

lemma locked_queue_ok:
  assumes run: "sr_arpcache_queuereq (cache sr) (ip_dst iphdr) packet len interface = Inr (c, a)"
    and inv: "cache_inv (cache sr)" "queue_ok sr" and p: "under_way sr packet len iphdr rt"
    and rel: "release_ok sr rel"
  shows "good_step sr (sr\<lparr>cache := c\<rparr>)" "queue_ok (sr\<lparr>cache := c\<rparr>)" "get_req a c \<noteq> None"
    "release_ok (sr\<lparr>cache := c\<rparr>) rel"
proof -
  show "good_step sr (sr\<lparr>cache := c\<rparr>)" by (rule good_step_cache) (rule queuereq_inv [OF inv(1) run])
  show "queue_ok (sr\<lparr>cache := c\<rparr>)"
    using queuereq_queue_ok [OF _ inv, of packet len interface c a rt] run p by (auto simp: under_way_def)
  show "get_req a c \<noteq> None" by (rule queuereq_ids(1) [OF run inv(1)])
  show "release_ok (sr\<lparr>cache := c\<rparr>) rel"
    using rel queuereq_ids(2,3) [OF run inv(1)] queued_ok_cong [of "sr\<lparr>cache := c\<rparr>" sr]
    by (fastforce simp: release_ok_def split: option.splits)
qed

lemma locked_learn_ok:
  assumes ins: "sr_arpcache_insert t (cache sr) m ip = (c, r)" and inv: "cache_inv (cache sr)" "queue_ok sr"
  shows "good_step sr (sr\<lparr>cache := c\<rparr>)" "queue_ok (sr\<lparr>cache := c\<rparr>)"
    "r = Some req \<Longrightarrow> release_ok (sr\<lparr>cache := c\<rparr>) (Some (interface, rq_packets req, rq_id req))"
proof -
  show "good_step sr (sr\<lparr>cache := c\<rparr>)" by (rule good_step_insert [OF ins])
  show "queue_ok (sr\<lparr>cache := c\<rparr>)" by (rule insert_queue_ok(1) [OF ins inv])
  assume r: "r = Some req"
  show "release_ok (sr\<lparr>cache := c\<rparr>) (Some (interface, rq_packets req, rq_id req))"
    using insert_detaches [OF inv(1) ins [unfolded r]] insert_queue_ok(2) [OF ins inv r]
    by (auto simp: release_ok_def get_req_None)
qed

lemma destroy_detached:
  assumes "get_req a c = None"
  shows "sr_arpreq_destroy c a = c"
  using assms by (simp add: sr_arpreq_destroy_def unlink_first_absent get_req_def find_None_iff)

text \<open>
  A section of the main thread: it keeps the invariant and its own facts, and is calm unless it has
  the lock.
\<close>

lemma main_section_ok:
  assumes run: "main_section E (pc, rel) sr = Inr ((pc', rel'), sr')"
    and inv: "cache_inv (cache sr)" "queue_ok sr" and ok: "pc_ok sr pc" "release_ok sr rel"
  shows "good_step sr sr' \<and> queue_ok sr' \<and> pc_ok sr' pc' \<and> release_ok sr' rel'
    \<and> (takes_lock (pc, rel) \<or> calm sr sr')"
proof (cases pc)
  case Returned
  show ?thesis
  proof (cases rel)
    case None
    then show ?thesis using run Returned inv(2) ok by simp
  next
    case (Some r)
    then obtain interface ps a where rel: "rel = Some (interface, ps, a)" by (cases r) auto
    show ?thesis
    proof (cases ps)
      case Nil
      have "sr_arpreq_destroy (cache sr) a = cache sr"
        by (rule destroy_detached) (use ok(2) rel in \<open>simp add: release_ok_def\<close>)
      then show ?thesis using run Returned rel Nil inv ok by (auto simp: release_ok_def)
    next
      case (Cons p ps')
      then have s: "start_other_dest E (pk_buf p) sr interface (pk_len p) = Inr (pc', sr')"
          "rel' = Some (interface, ps', a)"
        using run Returned rel by (auto simp: rbind_eq_Inr)
      have p: "is_ip_frame (pk_buf p)" "unat (pk_len p) = length (pk_buf p)" "length (pk_buf p) < 2 ^ 31"
        and rest: "release_ok sr rel'"
        using ok(2) rel Cons s(2) by (auto simp: release_ok_def queued_ok_def)
      note o = start_other_dest_ok [OF s(1) inv(1) p]
      have c: "calm sr sr'" by (rule calm_same_cache [OF o(2,1)])
      then show ?thesis using o rest calm_release_ok queue_ok_good_step [OF o(1,2) inv(2)] by blast
    qed
  qed
next
  case (Lookup packet interface len iphdr rt)
  then show ?thesis using run inv(2) ok by (auto split: option.splits)
next
  case (Forward packet len iphdr rt entry)
  then have f: "forward E packet len iphdr rt entry sr = Inr sr'" "pc' = Returned" "rel' = rel"
    using run by (auto simp: rbind_eq_Inr)
  note o = forward_ok [OF f(1)]
  have "calm sr sr'" by (rule calm_same_cache [OF o(2,1)])
  then show ?thesis using o f ok(2) calm_release_ok queue_ok_good_step [OF o inv(2)] by simp
next
  case (Queue packet interface len iphdr rt)
  then obtain c a where q: "sr_arpcache_queuereq (cache sr) (ip_dst iphdr) packet len interface = Inr (c, a)"
      "pc' = Request a rt" "rel' = rel" "sr' = sr\<lparr>cache := c\<rparr>"
    using run by (auto simp: rbind_eq_Inr)
  then show ?thesis using locked_queue_ok [OF q(1) inv _ ok(2)] ok(1) Queue by auto
next
  case (Request a rt)
  then have h: "handle_arpreq E sr a (Some rt) = Inr sr'" "pc' = Returned" "rel' = rel"
    using run by (auto simp: rbind_eq_Inr)
  have "calm sr sr'" by (rule calm_arpreq [OF h(1) inv(1)])
  then show ?thesis
    using h ok(2) calm_release_ok handle_arpreq_good [OF h(1) inv(1)] handle_arpreq_queue_ok [OF h(1) inv]
    by simp
next
  case (Learn h interface)
  obtain c r where ins: "sr_arpcache_insert (now E) (cache sr) (ar_sha h) (ar_sip h) = (c, r)"
    by (cases "sr_arpcache_insert (now E) (cache sr) (ar_sha h) (ar_sip h)")
  then show ?thesis
    using run Learn locked_learn_ok(1,2) [OF ins inv] locked_learn_ok(3) [OF ins inv, of _ interface]
    by (cases r) (auto simp: release_ok_def [of _ None])
qed

text \<open>A section of the ageing thread: always calm for the main thread.\<close>

lemma ager_wake_ok:
  assumes run: "ager_wake E sr = Inr (a, sr')" and inv: "cache_inv (cache sr)" "queue_ok sr"
  shows "good_step sr sr'" "queue_ok sr'" "calm sr sr'" "ager_ok sr' a"
proof -
  let ?sr = "sr\<lparr>cache := arpcache_expire (now E) (cache sr)\<rparr>"
  have sr': "sr' = ?sr" "ager_ok ?sr a"
    using run by (auto simp: ager_wake_def Let_def ager_ok_def get_req_None split: list.splits option.splits)
  show "good_step sr sr'" unfolding sr'(1) by (rule good_step_cache) (rule cache_inv_expire)
  show "queue_ok sr'" unfolding sr'(1)
    by (rule queue_ok_mono [OF inv(2)]) (simp_all add: arpcache_expire_def waiting_def)
  show "calm sr sr'" unfolding sr'(1) by (rule calm_expire)
  show "ager_ok sr' a" unfolding sr'(1) by (rule sr'(2))
qed

lemma ager_section_ok:
  assumes run: "ager_section E a sr = Inr (a', sr')" and inv: "cache_inv (cache sr)" "queue_ok sr"
    and ok: "ager_ok sr a"
  shows "good_step sr sr'" "queue_ok sr'" "calm sr sr'" "ager_ok sr' a'"
proof -
  have "good_step sr sr' \<and> queue_ok sr' \<and> calm sr sr' \<and> ager_ok sr' a'"
  proof (cases a)
    case (Sweeping rt as)
    then obtain x xs where as: "as = x # xs" using ok by (cases as) (auto simp: ager_ok_def)
    then have h: "handle_arpreq E sr x rt = Inr sr'" "a' = (if xs = [] then Asleep else Sweeping rt xs)"
      using run Sweeping by (auto simp: rbind_eq_Inr)
    have c: "calm sr sr'" by (rule calm_arpreq [OF h(1) inv(1)])
    moreover have "ager_ok sr a'" using ok Sweeping as h(2) by (auto simp: ager_ok_def)
    ultimately show ?thesis
      using handle_arpreq_good [OF h(1) inv(1)] handle_arpreq_queue_ok [OF h(1) inv] calm_ager_ok by blast
  qed (use run inv in \<open>simp add: ager_ok_def\<close>)
  then show "good_step sr sr'" "queue_ok sr'" "calm sr sr'" "ager_ok sr' a'" by simp_all
qed

section \<open>Interleaved runs\<close>

record threads =
  main_at :: "pc \<times> release"
  ager_at :: ager
  router :: sr_instance

definition at_rest :: "sr_instance \<Rightarrow> threads" where
  "at_rest sr = \<lparr> main_at = (Returned, None), ager_at = Asleep, router = sr \<rparr>"

text \<open>
  The ageing thread holds the lock exactly when it is not asleep: then only the sections of the main
  thread that take no lock can run. Each section has an environment (a clock) of its own.
\<close>

inductive thread_step :: "env \<Rightarrow> threads \<Rightarrow> threads \<Rightarrow> bool" where
  frame: "main_at t = (Returned, None) \<Longrightarrow> length packet < 2 ^ 31 \<Longrightarrow>
    receive_frame E (router t) packet (of_nat (length packet)) interface = Inr (pc, sr') \<Longrightarrow>
    thread_step E t (t\<lparr>main_at := (pc, None), router := sr'\<rparr>)"
| main: "main_at t \<noteq> (Returned, None) \<Longrightarrow> \<not> takes_lock (main_at t) \<or> ager_at t = Asleep \<Longrightarrow>
    main_section E (main_at t) (router t) = Inr (m', sr') \<Longrightarrow>
    thread_step E t (t\<lparr>main_at := m', router := sr'\<rparr>)"
| wake: "ager_at t = Asleep \<Longrightarrow> ager_wake E (router t) = Inr (a', sr') \<Longrightarrow>
    thread_step E t (t\<lparr>ager_at := a', router := sr'\<rparr>)"
| sweep: "ager_at t \<noteq> Asleep \<Longrightarrow> ager_section E (ager_at t) (router t) = Inr (a', sr') \<Longrightarrow>
    thread_step E t (t\<lparr>ager_at := a', router := sr'\<rparr>)"

inductive interleaved :: "threads \<Rightarrow> threads \<Rightarrow> bool" where
  none: "interleaved t t"
| one: "interleaved t t' \<Longrightarrow> thread_step E t' t'' \<Longrightarrow> interleaved t t''"

lemma interleaved_trans: "interleaved t' t'' \<Longrightarrow> interleaved t t' \<Longrightarrow> interleaved t t''"
  by (induction rule: interleaved.induct) (auto intro: interleaved.intros)

definition threads_inv :: "threads \<Rightarrow> bool" where
  "threads_inv t \<longleftrightarrow> router_inv (router t) \<and> pc_ok (router t) (fst (main_at t))
     \<and> release_ok (router t) (snd (main_at t)) \<and> ager_ok (router t) (ager_at t)"

lemma router_inv_step:
  "router_inv sr \<Longrightarrow> good_step sr sr' \<Longrightarrow> queue_ok sr' \<Longrightarrow> router_inv sr'"
  using wire_msg_ok_cong [of sr' sr] by (auto simp: router_inv_def good_step_def)

lemma ager_ok_Asleep [simp]: "ager_ok sr Asleep"
  by (simp add: ager_ok_def)

lemma thread_step_inv:
  assumes "thread_step E t t'" "threads_inv t"
  shows "threads_inv t' \<and> good_step (router t) (router t')"
proof -
  have inv: "cache_inv (cache (router t))" "queue_ok (router t)" "router_inv (router t)"
    and ok: "pc_ok (router t) (fst (main_at t))" "release_ok (router t) (snd (main_at t))"
      "ager_ok (router t) (ager_at t)"
    using assms(2) by (simp_all add: threads_inv_def router_inv_def)
  show ?thesis
    using assms(1)
  proof cases
    case (frame packet interface pc sr')
    note r = receive_ok [OF frame(4) inv(1) unat_len [OF frame(3)] frame(3)]
    have "calm (router t) sr'" by (rule calm_same_cache [OF r(2,1)])
    moreover have "queue_ok sr'" by (rule queue_ok_good_step [OF r(1,2) inv(2)])
    ultimately show ?thesis
      using frame(1) r ok calm_ager_ok router_inv_step [OF inv(3) r(1)]
      by (simp add: threads_inv_def release_ok_def)
  next
    case (main m' sr')
    obtain pc rel pc' rel' where m: "main_at t = (pc, rel)" "m' = (pc', rel')" by fastforce
    have s: "good_step (router t) sr' \<and> queue_ok sr' \<and> pc_ok sr' pc' \<and> release_ok sr' rel'
        \<and> (takes_lock (pc, rel) \<or> calm (router t) sr')"
      by (rule main_section_ok [OF _ inv(1,2)]) (use main(4) ok m in simp_all)
    then have "ager_ok sr' (ager_at t)" using main(3) m ok(3) calm_ager_ok by auto
    then show ?thesis
      using main(1) m s router_inv_step [OF inv(3), of sr'] by (simp add: threads_inv_def)
  next
    case (wake a' sr')
    note w = ager_wake_ok [OF wake(3) inv(1,2)]
    then show ?thesis
      using wake(1) ok calm_pc_ok [OF w(3)] calm_release_ok [OF w(3)] router_inv_step [OF inv(3) w(1,2)]
      by (simp add: threads_inv_def)
  next
    case (sweep a' sr')
    note w = ager_section_ok [OF sweep(3) inv(1,2) ok(3)]
    then show ?thesis
      using sweep(1) ok calm_pc_ok [OF w(3)] calm_release_ok [OF w(3)] router_inv_step [OF inv(3) w(1,2)]
      by (simp add: threads_inv_def)
  qed
qed

lemma interleaved_inv:
  "interleaved t t' \<Longrightarrow> threads_inv t \<Longrightarrow> threads_inv t' \<and> good_step (router t) (router t')"
proof (induction rule: interleaved.induct)
  case (one t t' E t'')
  then show ?case using thread_step_inv [of E t' t''] good_step_trans by blast
qed simp

lemma threads_inv_at_rest: "threads_inv (at_rest sr) \<longleftrightarrow> router_inv sr"
  by (simp add: threads_inv_def at_rest_def release_ok_def)

text \<open>A turn of one thread, the other at rest, is a run of sections.\<close>

lemma interleaved_main:
  "run_main E m sr = Inr sr' \<Longrightarrow> interleaved \<lparr> main_at = m, ager_at = Asleep, router = sr \<rparr> (at_rest sr')"
proof (induction E m sr rule: run_main.induct)
  case (1 E m sr)
  show ?case
  proof (cases "m = (Returned, None)")
    case True
    then show ?thesis using "1.prems" by (auto simp: at_rest_def intro: interleaved.none)
  next
    case False
    then obtain m1 sr1 where s: "main_section E m sr = Inr (m1, sr1)" and r: "run_main E m1 sr1 = Inr sr'"
      using "1.prems" by (auto simp: run_main_section rbind_eq_Inr)
    have "thread_step E \<lparr> main_at = m, ager_at = Asleep, router = sr \<rparr>
        \<lparr> main_at = m1, ager_at = Asleep, router = sr1 \<rparr>"
      using thread_step.main [of "\<lparr> main_at = m, ager_at = Asleep, router = sr \<rparr>" E m1 sr1] s False by simp
    then have "interleaved \<lparr> main_at = m, ager_at = Asleep, router = sr \<rparr>
        \<lparr> main_at = m1, ager_at = Asleep, router = sr1 \<rparr>" by (rule interleaved.one [OF interleaved.none])
    with "1.IH" [OF False s refl r] show ?thesis by (rule interleaved_trans)
  qed
qed

lemma interleaved_ager:
  "run_ager E a sr = Inr sr' \<Longrightarrow>
     interleaved \<lparr> main_at = (Returned, None), ager_at = a, router = sr \<rparr> (at_rest sr')"
proof (induction E a sr rule: run_ager.induct)
  case (2 E rt as sr)
  then obtain a1 sr1 where s: "ager_section E (Sweeping rt as) sr = Inr (a1, sr1)" and r: "run_ager E a1 sr1 = Inr sr'"
    by (auto simp: rbind_eq_Inr)
  let ?t = "\<lparr> main_at = (Returned, None), ager_at = Sweeping rt as, router = sr \<rparr>"
  have "thread_step E ?t \<lparr> main_at = (Returned, None), ager_at = a1, router = sr1 \<rparr>"
    using thread_step.sweep [of ?t E a1 sr1] s by simp
  then have "interleaved ?t \<lparr> main_at = (Returned, None), ager_at = a1, router = sr1 \<rparr>"
    by (rule interleaved.one [OF interleaved.none])
  with "2.IH" [OF s refl r] show ?case by (rule interleaved_trans)
qed (auto simp: at_rest_def intro: interleaved.none)

lemma step_interleaved:
  assumes "step E sr e sr'"
  shows "interleaved (at_rest sr) (at_rest sr')"
  using assms
proof cases
  case (frame packet interface)
  obtain pc sr1 where r: "receive_frame E sr packet (of_nat (length packet)) interface = Inr (pc, sr1)"
    "run_main E (pc, None) sr1 = Inr sr'"
    using frame(3) sections_handlepacket [of E sr packet "of_nat (length packet)" interface]
    by (auto simp: rbind_eq_Inr)
  have "thread_step E (at_rest sr) \<lparr> main_at = (pc, None), ager_at = Asleep, router = sr1 \<rparr>"
    using thread_step.frame [of "at_rest sr" packet E interface pc sr1] frame(2) r(1) by (simp add: at_rest_def)
  then show ?thesis
    using interleaved_main [OF r(2)] by (blast intro: interleaved_trans interleaved.intros)
next
  case tick
  obtain a sr1 where r: "ager_wake E sr = Inr (a, sr1)" "run_ager E a sr1 = Inr sr'"
    using tick(2) sections_timeout [of E sr] by (auto simp: rbind_eq_Inr)
  have "thread_step E (at_rest sr) \<lparr> main_at = (Returned, None), ager_at = a, router = sr1 \<rparr>"
    using thread_step.wake [of "at_rest sr" E a sr1] r(1) by (simp add: at_rest_def)
  then show ?thesis
    using interleaved_ager [OF r(2)] by (blast intro: interleaved_trans interleaved.intros)
qed

lemma reachable_interleaved: "reachable sr0 sr \<Longrightarrow> interleaved (at_rest sr0) (at_rest sr)"
  by (induction rule: reachable.induct) (auto intro: interleaved.none interleaved_trans step_interleaved)

section \<open>Properties\<close>

text \<open>C14: whatever the interleaving of the main thread's sections with the ageing thread, from the
  initialised router on: the cache, the queue and the packets that wait are well formed, every message
  written is well addressed and the configuration is unchanged; a request that the main thread has
  queued a packet in, and is about to handle without the lock, is still in the queue; the request whose
  packets it is releasing is out of the queue, where the ageing thread cannot reach it; the requests the
  ageing thread has still to handle are all alive; and a packet is only queued for a neighbour that is
  unknown at that moment.\<close>

theorem interleavings_safe:
  assumes "interleaved (at_rest (sr_init sr0)) t" "list_all (wire_msg_ok sr0) (wire sr0)"
  shows "cache_inv (cache (router t)) \<and> queue_ok (router t) \<and> list_all (wire_msg_ok sr0) (wire (router t))
    \<and> if_list (router t) = if_list sr0 \<and> routing_table (router t) = routing_table sr0
    \<and> pc_ok (router t) (fst (main_at t)) \<and> release_ok (router t) (snd (main_at t))
    \<and> ager_ok (router t) (ager_at t)"
proof -
  have "wire_msg_ok (sr_init sr0) = wire_msg_ok sr0" by (rule wire_msg_ok_cong) (simp add: sr_init_def)
  then have "router_inv (sr_init sr0)"
    using assms(2) by (simp add: router_inv_def sr_init_def cache_inv_init)
      (simp add: queue_ok_def waiting_def sr_arpcache_init_def)
  then have i: "threads_inv t" "good_step (sr_init sr0) (router t)"
    using interleaved_inv [OF assms(1)] threads_inv_at_rest [of "sr_init sr0"] by (simp_all add: at_rest_def)
  then have c: "if_list (router t) = if_list sr0 \<and> routing_table (router t) = routing_table sr0"
    by (simp add: good_step_def sr_init_def)
  then have "wire_msg_ok (router t) = wire_msg_ok sr0" by (intro wire_msg_ok_cong) simp
  then show ?thesis using i(1) c by (simp add: threads_inv_def router_inv_def)
qed

lemma case_Inr_iff: "(case x of Inl e \<Rightarrow> False | Inr y \<Rightarrow> P y) \<longleftrightarrow> (\<exists>y. x = Inr y \<and> P y)"
  by (cases x) simp_all

text \<open>A packet has been queued, and before its request is handled the ageing thread starts a sweep.\<close>

theorem interleavings_safe_witness:
  "\<exists>t a rt as. interleaved (at_rest (sr_init ex_router)) t \<and> main_at t = (Request a rt, None)
    \<and> ager_at t = Sweeping (Some rt) (a # as) \<and> pc_ok (router t) (Request a rt) \<and> ager_ok (router t) (ager_at t)"
proof -
  define E where "E = ex_env\<lparr>peek := Some\<rparr>"
  have "case receive_frame E (sr_init ex_router) ex_udp 34 (if_name ex_if1) of Inl _ \<Rightarrow> False
    | Inr (pc, sr1) \<Rightarrow> pc \<noteq> Returned \<and> (case main_section E (pc, None) sr1 of Inl _ \<Rightarrow> False
    | Inr (m2, sr2) \<Rightarrow> fst m2 \<noteq> Returned \<and> (case main_section E m2 sr2 of Inl _ \<Rightarrow> False
    | Inr (m3, sr3) \<Rightarrow> m3 = (Request 0 ex_rt2, None) \<and> (case ager_wake E sr3 of Inl _ \<Rightarrow> False
    | Inr (a, sr4) \<Rightarrow> a = Sweeping (Some ex_rt2) [0])))"
    unfolding E_def by code_simp
  then obtain pc sr1 m2 sr2 sr3 sr4 where r: "receive_frame E (sr_init ex_router) ex_udp 34 (if_name ex_if1) = Inr (pc, sr1)"
    "pc \<noteq> Returned" "main_section E (pc, None) sr1 = Inr (m2, sr2)" "fst m2 \<noteq> Returned"
    "main_section E m2 sr2 = Inr ((Request 0 ex_rt2, None), sr3)"
    "ager_wake E sr3 = Inr (Sweeping (Some ex_rt2) [0], sr4)"
    unfolding case_Inr_iff split_paired_Ex prod.case by (elim exE conjE) (rule that; simp)
  have len: "length ex_udp = 34" by code_simp
  let ?t = "\<lambda>m a sr. \<lparr> main_at = m, ager_at = a, router = sr \<rparr>"
  have 1: "thread_step E (at_rest (sr_init ex_router)) (?t (pc, None) Asleep sr1)"
    using thread_step.frame [of "at_rest (sr_init ex_router)" ex_udp E "if_name ex_if1" pc sr1] r(1) len
    by (simp add: at_rest_def)
  have 2: "thread_step E (?t (pc, None) Asleep sr1) (?t m2 Asleep sr2)"
    using thread_step.main [of "?t (pc, None) Asleep sr1" E m2 sr2] r(2,3) by simp
  have 3: "thread_step E (?t m2 Asleep sr2) (?t (Request 0 ex_rt2, None) Asleep sr3)"
    using thread_step.main [of "?t m2 Asleep sr2" E "(Request 0 ex_rt2, None)" sr3] r(4,5)
    by (cases m2) simp
  have 4: "thread_step E (?t (Request 0 ex_rt2, None) Asleep sr3)
      (?t (Request 0 ex_rt2, None) (Sweeping (Some ex_rt2) [0]) sr4)"
    using thread_step.wake [of "?t (Request 0 ex_rt2, None) Asleep sr3" E] r(6) by simp
  have i: "interleaved (at_rest (sr_init ex_router)) (?t (Request 0 ex_rt2, None) (Sweeping (Some ex_rt2) [0]) sr4)"
    using 1 2 3 4 by (meson interleaved.intros)
  have "list_all (wire_msg_ok ex_router) (wire ex_router)" by (simp add: ex_router_def)
  from interleavings_safe [OF i this] i show ?thesis by fastforce
qed


end
