(* ===== verification/Sr_Refinement.thy ===== *)
theory Sr_Refinement
  imports Sr_Safety Sr_Threads
begin

text \<open>
  The router as a function on what an observer of the network needs: the neighbours it knows, the
  addresses it is asking for with the packets that wait for each, and what it has sent. Nothing is left
  of buffers, checksums written in place, the slots of the cache, request nodes, the log, or loops that
  fault. The handler of a frame computes this function, and faults exactly where it is not defined.
\<close>

section \<open>The abstract router\<close>

record asked =
  asked_at :: int
  asked_times :: u32
  asked_for :: "sr_packet list"

record net =
  neighbours :: "u32 \<Rightarrow> mac option"
  questions :: "u32 \<Rightarrow> asked option"
  transmitted :: "bytes list"

definition not_asked :: asked where
  "not_asked = \<lparr>asked_at = 0, asked_times = 0, asked_for = []\<rparr>"

definition send_frame :: "bytes \<Rightarrow> bytes \<Rightarrow> net \<Rightarrow> net" where
  "send_frame interface frame n =
     n\<lparr>transmitted := transmitted n @ [packet_msg interface (of_nat (length frame)) frame]\<rparr>"

definition if_named :: "sr_if list \<Rightarrow> bytes \<Rightarrow> sr_if option" where
  "if_named ifs name = find (\<lambda>i. c_strncmp_eq sr_IFACE_NAMELEN (if_name i) name) ifs"

definition route_to :: "sr_rt list \<Rightarrow> u32 \<Rightarrow> sr_rt option" where
  "route_to rts a = find (\<lambda>r. rt_dest r = a) rts"

text \<open>Asking for address \<open>a\<close> by the interface \<open>i\<close>: at most once a second, at most five times.\<close>

definition ask :: "env \<Rightarrow> sr_if option \<Rightarrow> u32 \<Rightarrow> asked \<Rightarrow> net \<Rightarrow> net option" where
  "ask E i a r n =
     (if now E - asked_at r \<le> 1 then Some (n\<lparr>questions := (questions n)(a \<mapsto> r)\<rparr>)
      else if 5 \<le> asked_times r then None
      else map_option (\<lambda>i. send_frame (if_name i) (arp_request_frame i a) (n\<lparr>questions := (questions n)
             (a \<mapsto> r\<lparr>asked_at := now E, asked_times := asked_times r + 1\<rparr>)\<rparr>)) i)"

text \<open>An ICMP error has as many bytes as the packet it answers, and cannot have more than 70.\<close>

definition report ::
    "env \<Rightarrow> sr_if list \<Rightarrow> bytes \<Rightarrow> bytes \<Rightarrow> u8 \<Rightarrow> u8 \<Rightarrow> (u8 \<Rightarrow> u8) \<Rightarrow> net \<Rightarrow> net option" where
  "report E ifs interface packet type code f n =
     (case if_named ifs interface of
        None \<Rightarrow> None
      | Some i \<Rightarrow>
          if length packet < 42 \<or> 70 < length packet then None
          else Some (send_frame interface (take (length packet) (error_frame E i packet type code f)) n))"

definition route_packet :: "env \<Rightarrow> sr_if list \<Rightarrow> sr_rt list \<Rightarrow> bytes \<Rightarrow> bytes \<Rightarrow> net \<Rightarrow> net option" where
  "route_packet E ifs rts interface packet n =
     (let h = frame_ip packet; a = ip_dst h in
      if ip_ttl h \<le> 1 then report E ifs interface packet 11 0 (\<lambda>ttl. ttl - 1) n
      else case route_to rts a of
        None \<Rightarrow> report E ifs interface packet 3 1 (\<lambda>ttl. ttl) n
      | Some rt \<Rightarrow>
          let i = if_named ifs (rt_interface rt) in
          case neighbours n a of
            Some m \<Rightarrow> map_option (\<lambda>i. send_frame (if_name i) (forward_frame i m packet) n) i
          | None \<Rightarrow>
              let r = (case questions n a of None \<Rightarrow> not_asked | Some r \<Rightarrow> r);
                  p = queued_packet packet (of_nat (length packet)) interface
              in ask E i a (r\<lparr>asked_for := p # asked_for r\<rparr>) n)"

fun release_all :: "env \<Rightarrow> sr_if list \<Rightarrow> sr_rt list \<Rightarrow> bytes \<Rightarrow> sr_packet list \<Rightarrow> net \<Rightarrow> net option" where
  "release_all E ifs rts interface [] n = Some n"
| "release_all E ifs rts interface (p # ps) n =
     Option.bind (route_packet E ifs rts interface (pk_buf p) n) (release_all E ifs rts interface ps)"

text \<open>A frame for the router's own protocols. \<open>learnt\<close> says whether a reply finds a place in the cache.\<close>

definition arp_frame :: "env \<Rightarrow> sr_if list \<Rightarrow> sr_rt list \<Rightarrow> bool \<Rightarrow> bytes \<Rightarrow> bytes \<Rightarrow> net \<Rightarrow> net option" where
  "arp_frame E ifs rts learnt interface frame n =
     (let h = frame_arp frame in
      if length frame < 42 then None
      else case if_named ifs interface of
        None \<Rightarrow> None
      | Some i \<Rightarrow>
          if ar_tip h \<noteq> if_ip i then Some n
          else if ar_op h = htons arp_op_request then Some (send_frame interface (arp_reply_frame i frame) n)
          else if ar_op h = htons arp_op_reply then
            release_all E ifs rts interface (case questions n (ar_sip h) of None \<Rightarrow> [] | Some r \<Rightarrow> asked_for r)
              (n\<lparr>neighbours := (if learnt then (neighbours n)(ar_sip h \<mapsto> ar_sha h) else neighbours n),
                 questions := (questions n)(ar_sip h := None)\<rparr>)
          else Some n)"

definition ip_frame :: "env \<Rightarrow> sr_if list \<Rightarrow> sr_rt list \<Rightarrow> bytes \<Rightarrow> bytes \<Rightarrow> net \<Rightarrow> net option" where
  "ip_frame E ifs rts interface frame n =
     (let h = frame_ip frame in
      if length frame < 34 \<or> \<not> ip_sum_ok frame then Some n
      else if \<exists>i\<in>set ifs. if_ip i = ip_dst h then
        (if ip_p h = 1 then
           case if_named ifs interface of
             None \<Rightarrow> None
           | Some i \<Rightarrow> if length frame < 38 then None else Some (send_frame interface (echo_frame i frame) n)
         else if ip_p h = 17 \<or> ip_p h = 6 then report E ifs interface frame 3 3 (\<lambda>ttl. ttl) n
         else Some n)
      else route_packet E ifs rts interface frame n)"

definition net_frame :: "env \<Rightarrow> sr_if list \<Rightarrow> sr_rt list \<Rightarrow> bool \<Rightarrow> bytes \<Rightarrow> bytes \<Rightarrow> net \<Rightarrow> net option" where
  "net_frame E ifs rts learnt interface frame n =
     (let t = ether_type (frame_eth frame) in
      if length frame < 14 then None
      else if t = htons ethertype_arp then arp_frame E ifs rts learnt interface frame n
      else if t = htons ethertype_ip then ip_frame E ifs rts interface frame n
      else Some n)"

section \<open>The abstraction\<close>

definition asked_of :: "sr_arpreq \<Rightarrow> asked" where
  "asked_of r = \<lparr>asked_at = rq_sent r, asked_times = rq_times_sent r, asked_for = rq_packets r\<rparr>"

definition pending_of :: "sr_arpcache \<Rightarrow> u32 \<Rightarrow> asked option" where
  "pending_of c a = map_option asked_of (find (\<lambda>r. rq_ip r = a) (requests c))"

definition net_of :: "sr_instance \<Rightarrow> net" where
  "net_of sr = \<lparr>neighbours = lookup_mac (cache sr), questions = pending_of (cache sr), transmitted = wire sr\<rparr>"

definition net_res :: "sr_instance res \<Rightarrow> net option" where
  "net_res r = (case r of Inl _ \<Rightarrow> None | Inr sr \<Rightarrow> Some (net_of sr))"

lemma net_res_simps [simp]: "net_res (Inl e) = None" "net_res (Inr sr) = Some (net_of sr)"
  by (simp_all add: net_res_def)

lemma net_res_rbind: "net_res (rbind m f) = (case m of Inl _ \<Rightarrow> None | Inr x \<Rightarrow> net_res (f x))"
  by (cases m) simp_all

lemma if_named_list: "if_named (if_list sr) name = sr_get_interface sr name"
  by (simp add: if_named_def sr_get_interface_def)

lemma route_to_table: "route_to (routing_table sr) a = longest_prefix_sum sr a"
  by (simp add: route_to_def longest_prefix_sum_find)

lemma net_of_emit:
  "full_write E \<Longrightarrow> net_of (emit E interface f sr) = send_frame interface f (net_of sr)"
  by (simp add: net_of_def send_frame_def wire_emit)

lemma waiting_pending: "waiting c a = (case pending_of c a of None \<Rightarrow> [] | Some r \<Rightarrow> asked_for r)"
  by (simp add: waiting_def pending_of_def asked_of_def split: option.split)

section \<open>Errors\<close>

lemma icmp_error_refines:
  assumes "unat len = length packet" "full_write E"
  shows "net_res (icmp_error E packet sr interface len type code f)
    = report E (if_list sr) interface packet type code f (net_of sr)"
proof (cases "sr_get_interface sr interface")
  case None
  then show ?thesis
    by (simp add: icmp_error_def report_def if_named_list net_res_rbind split: sum.split)
next
  case (Some i)
  consider "length packet < 42" | "42 \<le> length packet" "length packet \<le> 70" | "70 < length packet"
    by linarith
  then show ?thesis
  proof cases
    case 1
    then show ?thesis
      by (simp add: icmp_error_def report_def if_named_list net_res_rbind Some rd_def sizeof_defs
          ICMP_DATA_SIZE_def split: sum.split)
  next
    case 2
    then show ?thesis
      using icmp_error_emit [of packet sr interface i len E type code f] Some assms
      by (simp add: report_def if_named_list net_of_emit sizeof_defs ICMP_DATA_SIZE_def)
  next
    case 3
    then show ?thesis
      using icmp_error_overread [of packet sr interface i len E type code f] Some assms(1)
      by (simp add: report_def if_named_list sizeof_defs ICMP_DATA_SIZE_def)
  qed
qed

section \<open>Requests\<close>

lemma req_unique:
  assumes "cache_inv c" "r \<in> set (requests c)" "r' \<in> set (requests c)"
  shows "rq_id r = rq_id r' \<longleftrightarrow> r = r'" "rq_ip r = rq_ip r' \<longleftrightarrow> r = r'"
  using assms by (auto simp: cache_inv_def distinct_map dest: inj_onD)

lemma find_req:
  assumes "cache_inv c" "r \<in> set (requests c)"
  shows "find (\<lambda>r'. rq_ip r' = rq_ip r) (requests c) = Some r" "find (\<lambda>r'. rq_id r' = rq_id r) (requests c) = Some r"
  using assms by (auto simp: cache_inv_def intro: req_by_ip req_by_id)

lemma pending_upd_req:
  assumes inv: "cache_inv c" and r: "get_req a c = Some r" and f: "\<And>r. rq_ip (f r) = rq_ip r"
  shows "pending_of (upd_req a f c) = (pending_of c)(rq_ip r \<mapsto> asked_of (f r))"
proof
  fix b
  have fnd: "find (\<lambda>r. rq_ip r = b) (requests (upd_req a f c))
      = map_option (\<lambda>r. if rq_id r = a then f r else r) (find (\<lambda>r. rq_ip r = b) (requests c))"
    unfolding upd_req_def using f by (simp add: find_map_same)
  have rs: "r \<in> set (requests c)" "rq_id r = a" using get_req_set [OF r] by auto
  show "pending_of (upd_req a f c) b = ((pending_of c)(rq_ip r \<mapsto> asked_of (f r))) b"
  proof (cases "b = rq_ip r")
    case True
    have "find (\<lambda>r'. rq_ip r' = rq_ip r) (requests c) = Some r" using inv rs(1) by (rule find_req)
    then show ?thesis using rs(2) fnd unfolding True by (simp add: pending_of_def)
  next
    case False
    have "rq_id r' \<noteq> a" if "find (\<lambda>r. rq_ip r = b) (requests c) = Some r'" for r'
    proof -
      have "r' \<in> set (requests c) \<and> rq_ip r' = b" using find_Some_iff_set [OF that] by simp
      then show ?thesis using req_unique(1) [OF inv rs(1), of r'] rs(2) False by metis
    qed
    then show ?thesis
      using False by (cases "find (\<lambda>r. rq_ip r = b) (requests c)") (simp_all add: pending_of_def fnd)
  qed
qed

lemma net_of_upd_req:
  assumes "cache_inv (cache sr)" "get_req a (cache sr) = Some r" "\<And>r. rq_ip (f r) = rq_ip r"
  shows "net_of (sr\<lparr>cache := upd_req a f (cache sr)\<rparr>)
    = (net_of sr)\<lparr>questions := (questions (net_of sr))(rq_ip r \<mapsto> asked_of (f r))\<rparr>"
proof -
  have "lookup_mac (upd_req a f (cache sr)) = lookup_mac (cache sr)"
    by (simp add: lookup_mac_def fun_eq_iff sr_arpcache_lookup_def)
  then show ?thesis using pending_upd_req [of "cache sr" a r f] assms by (simp add: net_of_def)
qed

lemma handle_arpreq_refines:
  assumes inv: "cache_inv (cache sr)" and r: "get_req a (cache sr) = Some r" and w: "full_write E"
  shows "net_res (handle_arpreq E sr a (Some rt))
    = ask E (sr_get_interface sr (rt_interface rt)) (rq_ip r) (asked_of r) (net_of sr)"
proof -
  have pend: "pending_of (cache sr) (rq_ip r) = Some (asked_of r)"
    using find_req(1) [OF inv, of r] get_req_set [OF r] by (simp add: pending_of_def)
  consider "now E - rq_sent r \<le> 1" | "now E - rq_sent r > 1" "5 \<le> rq_times_sent r"
    | "now E - rq_sent r > 1" "rq_times_sent r < 5" by fastforce
  then show ?thesis
  proof cases
    case 1
    have "(pending_of (cache sr))(rq_ip r \<mapsto> asked_of r) = pending_of (cache sr)"
      by (rule fun_upd_triv [of "pending_of (cache sr)" "rq_ip r", unfolded pend])
    then show ?thesis using 1 r by (simp add: handle_arpreq_def ask_def asked_of_def net_of_def)
  next
    case 2
    then obtain e where "handle_arpreq E sr a (Some rt) = Inl e" using exhausted_faults [OF inv r] by blast
    then show ?thesis using 2 by (simp add: ask_def asked_of_def)
  next
    case 3
    show ?thesis
    proof (cases "sr_get_interface sr (rt_interface rt)")
      case None
      then show ?thesis using 3 r
        by (simp add: handle_arpreq_def ask_def asked_of_def arp_request_send_frame not_le [symmetric])
    next
      case (Some i)
      let ?f = "\<lambda>r. r\<lparr>rq_sent := now E, rq_times_sent := rq_times_sent r + 1\<rparr>"
      let ?sr = "emit E (if_name i) (arp_request_frame i (rq_ip r)) sr"
      have "net_res (handle_arpreq E sr a (Some rt)) = Some (net_of (?sr\<lparr>cache := upd_req a ?f (cache ?sr)\<rparr>))"
        using handle_arpreq_young [OF r 3 Some] by simp
      also have "net_of (?sr\<lparr>cache := upd_req a ?f (cache ?sr)\<rparr>)
          = (net_of ?sr)\<lparr>questions := (questions (net_of ?sr))(rq_ip r \<mapsto> asked_of (?f r))\<rparr>"
        by (rule net_of_upd_req) (simp_all add: inv r)
      finally show ?thesis
        using 3 Some by (simp add: ask_def net_of_emit [OF w] send_frame_def asked_of_def not_le [symmetric])
    qed
  qed
qed

text \<open>Queuing a packet before the request is handled.\<close>

lemma queuereq_refines:
  assumes inv: "cache_inv c" and len: "len \<noteq> 0" "unat len = length packet"
  obtains c' a r where "sr_arpcache_queuereq c ip packet len interface = Inr (c', a)"
    "cache_inv c'" "get_req a c' = Some r" "rq_ip r = ip" "entries c' = entries c"
    "asked_of r = (case pending_of c ip of None \<Rightarrow> not_asked | Some r \<Rightarrow> r)
       \<lparr>asked_for := queued_packet packet len interface # waiting c ip\<rparr>"
    "pending_of c' = (pending_of c)(ip \<mapsto> asked_of r)"
proof -
  have le: "unat len \<le> length packet" using len(2) by simp
  obtain c' a r where q: "sr_arpcache_queuereq c ip packet len interface = Inr (c', a)"
    and c': "cache_inv c'" "get_req a c' = Some r" "rq_ip r = ip" "entries c' = entries c"
    and p: "rq_packets r = queued_packet packet len interface # waiting c ip"
    and t: "case find (\<lambda>r. rq_ip r = ip) (requests c) of
           Some r0 \<Rightarrow> rq_sent r = rq_sent r0 \<and> rq_times_sent r = rq_times_sent r0
         | None \<Rightarrow> rq_sent r = 0 \<and> rq_times_sent r = 0"
    by (rule queuereq_spec [OF inv len(1) le, where ip = ip and iface = interface])
      (use len(2) in \<open>auto simp: queued_packet_def\<close>)
  have asked: "asked_of r = (case pending_of c ip of None \<Rightarrow> not_asked | Some r \<Rightarrow> r)
       \<lparr>asked_for := queued_packet packet len interface # waiting c ip\<rparr>"
    using p t by (auto simp: asked_of_def pending_of_def not_asked_def split: option.splits)
  define f where "f = (\<lambda>r :: sr_arpreq. r\<lparr>rq_packets := queued_packet packet len interface # rq_packets r\<rparr>)"
  define c1 where "c1 = (case find (\<lambda>r. rq_ip r = ip) (requests c) of Some r \<Rightarrow> c | None \<Rightarrow>
    c\<lparr>requests := \<lparr> rq_id = brk c, rq_ip = ip, rq_sent = 0, rq_times_sent = 0,
                    rq_packets = [] \<rparr> # requests c, brk := Suc (brk c)\<rparr>)"
  have inv1: "cache_inv c1" using inv cache_inv_new_req [OF inv, of ip] by (auto simp: c1_def split: option.split)
  obtain r1 where r1: "get_req a c1 = Some r1" "rq_ip r1 = ip" "c' = upd_req a f c1"
  proof (cases "find (\<lambda>r. rq_ip r = ip) (requests c)")
    case None
    then show thesis
      using q len by (intro that [of "\<lparr> rq_id = brk c, rq_ip = ip, rq_sent = 0, rq_times_sent = 0, rq_packets = [] \<rparr>"])
        (auto simp: sr_arpcache_queuereq_def c1_def rd_def f_def get_req_def queued_packet_def)
  next
    case (Some r0)
    then have r0: "r0 \<in> set (requests c)" "rq_ip r0 = ip" by (auto dest!: find_Some_iff_set)
    have a: "a = rq_id r0" "c1 = c" using q len Some by (auto simp: sr_arpcache_queuereq_def c1_def rd_def)
    have "get_req a c1 = Some r0" using find_req(2) [OF inv r0(1)] by (simp add: a get_req_def)
    then show thesis
      by (rule that [OF _ r0(2)])
        (use q len Some a in \<open>auto simp: sr_arpcache_queuereq_def rd_def f_def queued_packet_def\<close>)
  qed
  have "pending_of c' = (pending_of c1)(ip \<mapsto> asked_of (f r1))"
    using pending_upd_req [OF inv1 r1(1), of f] r1(2,3) by (simp add: f_def)
  moreover have "pending_of c1 b = pending_of c b" if "b \<noteq> ip" for b
    using that by (auto simp: c1_def pending_of_def split: option.split)
  moreover have "pending_of c' ip = Some (asked_of r)"
    using find_req(1) [OF c'(1), of r] c'(3) get_req_set [OF c'(2)] by (simp add: pending_of_def)
  ultimately have "pending_of c' = (pending_of c)(ip \<mapsto> asked_of r)" by (auto simp: fun_eq_iff)
  then show thesis by (rule that [OF q c' asked])
qed

section \<open>Forwarding\<close>

lemma other_dest_refines:
  assumes inv: "cache_inv (cache sr)" and p: "is_ip_frame packet" and len: "unat len = length packet"
    and l31: "length packet < 2 ^ 31" and w: "full_write E"
  shows "net_res (packet_to_other_dest E packet sr interface len)
    = route_packet E (if_list sr) (routing_table sr) interface packet (net_of sr)"
proof -
  let ?a = "ip_dst (frame_ip packet)"
  have lenw: "of_nat (length packet) = len" by (simp flip: len)
  have known: "neighbours (net_of sr) ?a = map_option ae_mac (sr_arpcache_lookup (cache sr) ?a)"
    by (simp add: net_of_def lookup_mac_def)
  show ?thesis
  proof (cases "ip_ttl (frame_ip packet) \<le> 1")
    case True
    then show ?thesis
      by (simp add: other_dest_expired [OF p] Time_Exceeded_def icmp_error_refines [OF len w] route_packet_def Let_def)
  next
    case False
    then have ttl: "1 < ip_ttl (frame_ip packet)" "\<not> ip_ttl (frame_ip packet) \<le> 1" by simp_all
    show ?thesis
    proof (cases "longest_prefix_sum sr ?a")
      case None
      then show ?thesis using ttl
        by (simp add: other_dest_no_route [OF p ttl(1)] dest_host_unreach_def icmp_error_refines [OF len w]
            route_packet_def Let_def route_to_table)
    next
      case rt: (Some rt)
      show ?thesis
      proof (cases "sr_arpcache_lookup (cache sr) ?a")
        case e: (Some e)
        show ?thesis
        proof (cases "sr_get_interface sr (rt_interface rt)")
          case None
          then show ?thesis using ttl rt e
            by (simp add: packet_to_other_dest_def ld_ip_frame [OF p] route_packet_def Let_def route_to_table
                known if_named_list)
        next
          case (Some i)
          then show ?thesis using ttl rt e
            by (simp add: other_dest_forward [OF p ttl(1) len rt Some e l31] net_of_emit [OF w] route_packet_def
                Let_def route_to_table known if_named_list)
        qed
      next
        case miss: None
        have len0: "len \<noteq> 0" using is_ip_frame_len [OF p] len by auto
        obtain c a r where q: "sr_arpcache_queuereq (cache sr) ?a packet len interface = Inr (c, a)"
          and c: "cache_inv c" "get_req a c = Some r" "rq_ip r = ?a" "entries c = entries (cache sr)"
          and r: "asked_of r = (case pending_of (cache sr) ?a of None \<Rightarrow> not_asked | Some r \<Rightarrow> r)
            \<lparr>asked_for := queued_packet packet len interface # waiting (cache sr) ?a\<rparr>"
          and pend: "pending_of c = (pending_of (cache sr))(?a \<mapsto> asked_of r)"
          by (rule queuereq_refines [OF inv len0 len])
        have n: "net_of (sr\<lparr>cache := c\<rparr>) = (net_of sr)\<lparr>questions := (questions (net_of sr))(?a \<mapsto> asked_of r)\<rparr>"
          using c(4) pend by (simp add: net_of_def lookup_mac_def fun_eq_iff sr_arpcache_lookup_def)
        have i: "sr_get_interface (sr\<lparr>cache := c\<rparr>) = sr_get_interface sr" by (rule sr_get_interface_cong) simp
        have "net_res (packet_to_other_dest E packet sr interface len)
            = ask E (sr_get_interface sr (rt_interface rt)) ?a (asked_of r) (net_of (sr\<lparr>cache := c\<rparr>))"
          using other_dest_miss [OF p ttl(1) rt miss q] handle_arpreq_refines [of "sr\<lparr>cache := c\<rparr>" a r E rt] c w i
          by simp
        also have "\<dots> = ask E (sr_get_interface sr (rt_interface rt)) ?a (asked_of r) (net_of sr)"
          unfolding n by (simp add: ask_def)
        also have "asked_of r = (case questions (net_of sr) ?a of None \<Rightarrow> not_asked | Some r \<Rightarrow> r)
            \<lparr>asked_for := queued_packet packet (of_nat (length packet)) interface
              # asked_for (case questions (net_of sr) ?a of None \<Rightarrow> not_asked | Some r \<Rightarrow> r)\<rparr>"
          using r by (simp add: net_of_def waiting_pending lenw not_asked_def split: option.splits)
        finally show ?thesis
          using ttl rt miss by (simp add: route_packet_def Let_def route_to_table known if_named_list)
      qed
    qed
  qed
qed

lemma send_waiting_refines:
  assumes "cache_inv (cache sr)" "full_write E" "\<forall>p\<in>set ps. queued_ok sr b p"
  shows "net_res (send_waiting E interface ps sr)
    = release_all E (if_list sr) (routing_table sr) interface ps (net_of sr)"
  using assms(1,3)
proof (induction ps arbitrary: sr)
  case (Cons p ps)
  have p: "is_ip_frame (pk_buf p)" "unat (pk_len p) = length (pk_buf p)" "length (pk_buf p) < 2 ^ 31"
    using Cons.prems(2) by (simp_all add: queued_ok_def)
  note o1 = other_dest_refines [OF Cons.prems(1) p assms(2), of interface]
  show ?case
  proof (cases "packet_to_other_dest E (pk_buf p) sr interface (pk_len p)")
    case (Inl e)
    then show ?thesis using o1 by (simp add: send_waiting_Cons flip: o1)
  next
    case (Inr sr1)
    have c: "if_list sr1 = if_list sr" "routing_table sr1 = routing_table sr"
      using other_dest.keeps_config [OF Cons.prems(1) Inr] by simp_all
    have "net_res (send_waiting E interface ps sr1)
        = release_all E (if_list sr1) (routing_table sr1) interface ps (net_of sr1)"
      by (rule Cons.IH [OF other_dest.keeps_inv [OF Cons.prems(1) Inr]])
        (unfold queued_ok_cong [OF c(2)], use Cons.prems(2) in simp)
    then show ?thesis using Inr c by (simp add: send_waiting_Cons flip: o1)
  qed
qed simp

section \<open>Learning\<close>

text \<open>A mapping is learnt if there is a free slot and no later slot holds the address.\<close>

definition learns :: "sr_arpcache \<Rightarrow> u32 \<Rightarrow> bool" where
  "learns c a \<longleftrightarrow> has_room c \<and> filter (entry_for a) (tl (dropWhile ae_valid (entries c))) = []"

lemma insert_refines:
  assumes inv: "cache_inv (cache sr)" and ins: "sr_arpcache_insert t (cache sr) m a = (c, r)"
  shows "net_of (sr\<lparr>cache := c\<rparr>) = (net_of sr)
      \<lparr>neighbours := (if learns (cache sr) a then (neighbours (net_of sr))(a \<mapsto> m) else neighbours (net_of sr)),
       questions := (questions (net_of sr))(a := None)\<rparr>"
    and "r = None \<Longrightarrow> pending_of (cache sr) a = None"
    and "r = Some req \<Longrightarrow> pending_of (cache sr) a = Some (asked_of req)"
proof -
  let ?c = "cache sr"
  have c: "c = fst (sr_arpcache_insert t ?c m a)" using ins by simp
  have "requests c = filter (\<lambda>r. rq_ip r \<noteq> a) (requests ?c)"
    using inv ins by (auto simp: sr_arpcache_insert_def Let_def cache_inv_def unlink_first_filter)
  then have p: "pending_of c = (pending_of ?c)(a := None)"
    by (auto simp: fun_eq_iff pending_of_def find_filter_key)
  have same: "lookup_mac c a = (if learns ?c a then Some m else lookup_mac ?c a)"
  proof (cases "has_room ?c")
    case True
    let ?later = "filter (entry_for a) (tl (dropWhile ae_valid (entries ?c)))"
    have "sr_arpcache_lookup ?c a = Some (last ?later)" if "?later \<noteq> []"
      using that by (simp add: lookup_last filter_entries_split [OF True] Let_def)
    then show ?thesis
      using lookup_insert_same [OF inv True, of t m a] True by (auto simp: c lookup_mac_def learns_def Let_def)
  next
    case False
    then show ?thesis using lookup_insert_full [OF inv] by (simp add: c lookup_mac_def learns_def)
  qed
  have other: "lookup_mac c b = lookup_mac ?c b" if "b \<noteq> a" for b
    using lookup_insert_other [OF inv that] by (simp add: c lookup_mac_def)
  have "lookup_mac c = (if learns ?c a then (lookup_mac ?c)(a \<mapsto> m) else lookup_mac ?c)"
  proof
    fix b
    show "lookup_mac c b = (if learns ?c a then (lookup_mac ?c)(a \<mapsto> m) else lookup_mac ?c) b"
      using same other by (cases "b = a") simp_all
  qed
  then show "net_of (sr\<lparr>cache := c\<rparr>) = (net_of sr)
      \<lparr>neighbours := (if learns ?c a then (neighbours (net_of sr))(a \<mapsto> m) else neighbours (net_of sr)),
       questions := (questions (net_of sr))(a := None)\<rparr>"
    using p by (simp add: net_of_def)
  show "r = None \<Longrightarrow> pending_of ?c a = None" "r = Some req \<Longrightarrow> pending_of ?c a = Some (asked_of req)"
    using insert_req(1) [OF ins] by (simp_all add: pending_of_def)
qed

text \<open>No handler brings back the request node that a reply has taken out.\<close>

definition gone :: "nat \<Rightarrow> sr_arpcache \<Rightarrow> bool" where
  "gone a c \<longleftrightarrow> get_req a c = None \<and> a < brk c"

lemma other_dest_gone:
  assumes run: "packet_to_other_dest E packet sr interface len = Inr sr'" and inv: "cache_inv (cache sr)"
    and p: "is_ip_frame packet" and g: "gone a (cache sr)"
  shows "gone a (cache sr')"
  using run p
proof (cases rule: other_dest_Inr)
  case (2 rt c b)
  have "gone a c" using queuereq_ids(2) [OF 2(4) inv] queuereq_ids(3) [OF 2(4) inv, of a] g by (auto simp: gone_def)
  moreover have "calm (sr\<lparr>cache := c\<rparr>) sr'"
    using calm_arpreq [OF 2(5)] queuereq_inv [OF inv 2(4)] by simp
  ultimately show ?thesis using calm_get_req [of "sr\<lparr>cache := c\<rparr>" sr' a] by (simp add: gone_def calm_def)
qed (use g in simp)

lemma send_waiting_gone:
  assumes "send_waiting E interface ps sr = Inr sr'" "cache_inv (cache sr)"
    and "\<forall>p\<in>set ps. is_ip_frame (pk_buf p)" "gone a (cache sr)"
  shows "gone a (cache sr')"
  using assms
proof (induction ps arbitrary: sr)
  case (Cons p ps)
  from Cons.prems(1) obtain sr1 where 1: "packet_to_other_dest E (pk_buf p) sr interface (pk_len p) = Inr sr1"
    and 2: "send_waiting E interface ps sr1 = Inr sr'" by (auto simp: send_waiting_Cons rbind_eq_Inr)
  have "gone a (cache sr1)" using 1 Cons.prems(2) _ Cons.prems(4) by (rule other_dest_gone) (use Cons.prems(3) in simp)
  then show ?case
    using Cons.IH [OF 2 other_dest.keeps_inv [OF Cons.prems(2) 1]] Cons.prems(3) by simp
qed simp

section \<open>The handlers\<close>

lemma Echo_Reply_refines:
  assumes len: "unat len = length packet" "length packet < 2 ^ 31" "34 \<le> length packet" and w: "full_write E"
  shows "net_res (Echo_Reply E packet sr interface len) = (case if_named (if_list sr) interface of
    None \<Rightarrow> None | Some i \<Rightarrow> if length packet < 38 then None
      else Some (send_frame interface (echo_frame i packet) (net_of sr)))"
proof (cases "sr_get_interface sr interface")
  case None
  then show ?thesis by (simp add: Echo_Reply_def net_res_rbind if_named_list split: sum.split)
next
  case (Some i)
  show ?thesis
  proof (cases "length packet < 38")
    case True
    then have "Echo_Reply E packet sr interface len = Inl OutOfBounds"
      using Some len(3)
      by (simp add: Echo_Reply_def Let_def ld_def rd_def st_def wr_def eth.length_enc sizeof_defs)
    then show ?thesis using True by (simp add: if_named_list Some)
  next
    case False
    then have "sizeof_eth + sizeof_ip + sizeof_icmp \<le> length packet" by (simp add: sizeof_defs)
    then show ?thesis using False by (simp add: Echo_Reply_emit [OF len(1) _ Some len(2)] if_named_list Some net_of_emit [OF w])
  qed
qed

lemma IP_packet_refines:
  assumes inv: "cache_inv (cache sr)" and t: "ether_type (frame_eth packet) = htons ethertype_ip"
    and len: "unat len = length packet" "length packet < 2 ^ 31" "14 \<le> length packet" and w: "full_write E"
  shows "net_res (IP_packet E packet sr interface len)
    = ip_frame E (if_list sr) (routing_table sr) interface packet (net_of sr)"
proof (cases "length packet < 34")
  case True
  then show ?thesis using len by (simp add: IP_packet_short ip_frame_def Let_def sizeof_defs)
next
  case False
  then have p: "is_ip_frame packet" using t by (simp add: is_ip_frame_def sizeof_defs)
  have l: "34 \<le> length packet" using False by simp
  show ?thesis
    using False
    by (simp add: IP_packet_cases [OF p len(1)] ip_frame_def Let_def for_router_def Port_unreach_def
        icmp_error_refines [OF len(1) w] Echo_Reply_refines [OF len(1,2) l w]
        other_dest_refines [OF inv p len(1,2) w])
qed

lemma arp_packet_refines:
  assumes inv: "cache_inv (cache sr)" "queue_ok sr"
    and len: "unat len = length buf" "length buf < 2 ^ 31" and w: "full_write E"
  shows "net_res (arp_packet E buf sr interface len)
    = arp_frame E (if_list sr) (routing_table sr) (learns (cache sr) (ar_sip (frame_arp buf))) interface buf (net_of sr)"
proof (cases "length buf < 42")
  case True
  then have "ld_arp buf = Inl OutOfBounds" by (simp add: ld_def rd_def sizeof_defs)
  then show ?thesis using True by (simp add: arp_packet_def arp_frame_def Let_def)
next
  case False
  then have l: "sizeof_eth + sizeof_arp \<le> length buf" by (simp add: sizeof_defs)
  let ?h = "frame_arp buf" and ?arp = "arp_frame E (if_list sr) (routing_table sr)
    (learns (cache sr) (ar_sip (frame_arp buf))) interface buf (net_of sr)"
  have ld: "ld_arp buf = Inr ?h" using l by (rule arp.ld_ok)
  show ?thesis
  proof (cases "sr_get_interface sr interface")
    case None
    then show ?thesis using False by (simp add: arp_packet_def ld arp_frame_def Let_def if_named_list)
  next
    case i: (Some i)
    have ops: "htons arp_op_request \<noteq> htons arp_op_reply"
      by code_simp
    consider "ar_tip ?h \<noteq> if_ip i \<or> ar_op ?h \<noteq> htons arp_op_request \<and> ar_op ?h \<noteq> htons arp_op_reply"
      | "ar_tip ?h = if_ip i" "ar_op ?h = htons arp_op_request"
      | "ar_tip ?h = if_ip i" "ar_op ?h = htons arp_op_reply" by blast
    then show ?thesis
    proof cases
      case 1
      then show ?thesis
        using arp_packet_ignored [OF l i 1] False by (auto simp: arp_frame_def Let_def if_named_list i)
    next
      case 2
      then show ?thesis
        using arp_packet_request [OF l len i 2] False
        by (simp add: arp_frame_def Let_def if_named_list i net_of_emit [OF w])
    next
      case 3
      obtain c r where ins: "sr_arpcache_insert (now E) (cache sr) (ar_sha ?h) (ar_sip ?h) = (c, r)"
        by (cases "sr_arpcache_insert (now E) (cache sr) (ar_sha ?h) (ar_sip ?h)")
      note n = insert_refines [OF inv(1) ins]
      have arp: "?arp = release_all E (if_list sr) (routing_table sr) interface
          (case pending_of (cache sr) (ar_sip ?h) of None \<Rightarrow> [] | Some r \<Rightarrow> asked_for r) (net_of (sr\<lparr>cache := c\<rparr>))"
        using 3 False ops by (simp add: arp_frame_def Let_def if_named_list i n(1)) (simp add: net_of_def)
      have op: "ntohs (ar_op ?h) = 2" "ntohs (ar_op ?h) \<noteq> 1" using 3(2) by (simp_all add: arp_op_reply_def)
      show ?thesis
      proof (cases r)
        case None
        then show ?thesis using n(2) by (simp add: arp) (simp add: arp_packet_def ld i 3(1) op ins)
      next
        case (Some req)
        have ps: "\<forall>p\<in>set (rq_packets req). queued_ok (sr\<lparr>cache := c\<rparr>) (ar_sip ?h) p"
          using insert_queue_ok(2) [OF ins inv] Some by blast
        have ci: "cache_inv (cache (sr\<lparr>cache := c\<rparr>))" using cache_inv_insert [OF inv(1) ins] by simp
        have run: "arp_packet E buf sr interface len = rbind (send_waiting E interface (rq_packets req) (sr\<lparr>cache := c\<rparr>))
            (\<lambda>sr. Inr (sr\<lparr>cache := sr_arpreq_destroy (cache sr) (rq_id req)\<rparr>))"
          by (simp add: arp_packet_def ld i 3(1) op ins Some)
        have g: "gone (rq_id req) (cache (sr\<lparr>cache := c\<rparr>))"
          using insert_detaches [OF inv(1) ins [unfolded Some]] by (auto simp: gone_def get_req_None)
        have "sr1\<lparr>cache := sr_arpreq_destroy (cache sr1) (rq_id req)\<rparr> = sr1"
          if "send_waiting E interface (rq_packets req) (sr\<lparr>cache := c\<rparr>) = Inr sr1" for sr1
        proof -
          have "gone (rq_id req) (cache sr1)"
            using send_waiting_gone [OF that ci _ g] ps by (auto simp: queued_ok_def)
          then show ?thesis by (simp add: gone_def destroy_detached)
        qed
        then have "net_res (arp_packet E buf sr interface len)
            = net_res (send_waiting E interface (rq_packets req) (sr\<lparr>cache := c\<rparr>))"
          unfolding run net_res_rbind by (simp split: sum.split)
        also have "\<dots> = release_all E (if_list sr) (routing_table sr) interface (rq_packets req) (net_of (sr\<lparr>cache := c\<rparr>))"
          using send_waiting_refines [OF ci w ps] by simp
        finally show ?thesis using n(3) [OF Some] by (simp add: arp asked_of_def)
      qed
    qed
  qed
qed

lemma handlepacket_net:
  assumes inv: "cache_inv (cache sr)" "queue_ok sr" and full: "full_write E" and l31: "length packet < 2 ^ 31"
  shows "net_res (sr_handlepacket E sr packet (of_nat (length packet)) interface)
    = net_frame E (if_list sr) (routing_table sr) (learns (cache sr) (ar_sip (frame_arp packet)))
        interface packet (net_of sr)"
proof -
  have len: "unat (of_nat (length packet) :: u32) = length packet" using l31 by (rule unat_len)
  show ?thesis
  proof (cases "length packet < 14")
    case True
    then show ?thesis by (simp add: sr_handlepacket_def ethertype_oob net_frame_def Let_def sizeof_defs)
  next
    case False
    then have t: "ethertype packet = Inr (ntohs (ether_type (frame_eth packet)))"
      by (intro ethertype_ok) (simp add: sizeof_defs)
    have iff: "ntohs w = v \<longleftrightarrow> w = htons v" for w v by (metis ntohs_htons)
    have ne: "htons ethertype_arp \<noteq> htons ethertype_ip" by code_simp
    show ?thesis
      using False ne arp_packet_refines [OF inv len l31 full, of interface]
        IP_packet_refines [OF inv(1) _ len l31 _ full, of interface]
      by (auto simp: sr_handlepacket_def t iff net_frame_def Let_def)
  qed
qed

section \<open>Property\<close>

text \<open>C2: the handler of a frame computes the abstract router on what can be observed: the new neighbours,
  the new waiting packets and requests, and the exact bytes sent; and it faults exactly where the
  abstract router is undefined.\<close>

theorem handlepacket_refines_net:
  assumes "router_inv sr" "full_write E" "length packet < 2 ^ 31"
  shows "case net_frame E (if_list sr) (routing_table sr) (learns (cache sr) (ar_sip (frame_arp packet)))
        interface packet (net_of sr) of
      None \<Rightarrow> \<exists>e. sr_handlepacket E sr packet (of_nat (length packet)) interface = Inl e
    | Some n \<Rightarrow> \<exists>sr'. sr_handlepacket E sr packet (of_nat (length packet)) interface = Inr sr' \<and> net_of sr' = n"
proof -
  have "cache_inv (cache sr)" "queue_ok sr" using assms(1) by (simp_all add: router_inv_def)
  note r = handlepacket_net [OF this assms(2,3), of interface]
  show ?thesis
    by (cases "sr_handlepacket E sr packet (of_nat (length packet)) interface") (simp_all flip: r)
qed

text \<open>A packet for an unknown neighbour: it waits, and the abstract router has sent one request.\<close>

theorem handlepacket_refines_net_witness:
  "\<exists>sr'. sr_handlepacket ex_env ex_router ex_udp (of_nat (length ex_udp)) (if_name ex_if1) = Inr sr'
    \<and> neighbours (net_of sr') (ip_dst (frame_ip ex_udp)) = None \<and> length (transmitted (net_of sr')) = 1
    \<and> map_option (length \<circ> asked_for) (questions (net_of sr') (ip_dst (frame_ip ex_udp))) = Some 1"
proof -
  have "full_write ex_env" by (simp add: full_write_def ex_env_def)
  moreover have l: "length ex_udp < 2 ^ 31" by (simp add: ex_udp_def)
  moreover have "learns (cache ex_router) a" for a
    by (simp add: learns_def has_room_def entry_for_def ex_router_def ex_cache_def ex_free_def)
  ultimately have r: "case net_frame ex_env (if_list ex_router) (routing_table ex_router) True (if_name ex_if1) ex_udp
        (net_of ex_router) of
      None \<Rightarrow> \<exists>e. sr_handlepacket ex_env ex_router ex_udp (of_nat (length ex_udp)) (if_name ex_if1) = Inl e
    | Some n \<Rightarrow> \<exists>sr'. sr_handlepacket ex_env ex_router ex_udp (of_nat (length ex_udp)) (if_name ex_if1) = Inr sr'
        \<and> net_of sr' = n"
    using handlepacket_refines_net [OF ex_router_inv _ l, of ex_env "if_name ex_if1"] by simp
  have "case net_frame ex_env (if_list ex_router) (routing_table ex_router) True (if_name ex_if1) ex_udp (net_of ex_router) of
      None \<Rightarrow> False | Some n \<Rightarrow> neighbours n (ip_dst (frame_ip ex_udp)) = None \<and> length (transmitted n) = 1
        \<and> map_option (length \<circ> asked_for) (questions n (ip_dst (frame_ip ex_udp))) = Some 1"
    by code_simp
  then show ?thesis using r by (auto split: option.splits)
qed

end
