(* ===== verification/Sr_History.thy ===== *)
theory Sr_History
  imports Sr_Refinement
begin

text \<open>
  Where everything the router says and knows comes from. A history is the list of the frames received
  and the ticks of the ageing thread, each with its environment. In a run from \<open>sr_init\<close> every message
  on the wire has its cause among the frames of the history, and every entry of the cache its ARP reply.
\<close>

section \<open>Histories\<close>

type_synonym history = "(env \<times> event) list"

fun do_event :: "env \<times> event \<Rightarrow> sr_instance \<Rightarrow> sr_instance res" where
  "do_event (E, Frame packet interface) sr = sr_handlepacket E sr packet (of_nat (length packet)) interface"
| "do_event (E, Tick) sr = sr_arpcache_timeout E sr"

fun run_history :: "history \<Rightarrow> sr_instance \<Rightarrow> sr_instance res" where
  "run_history [] sr = Inr sr"
| "run_history (x # h) sr = rbind (do_event x sr) (run_history h)"

text \<open>Frames have lengths below \<open>2 ^ 31\<close>, and the socket takes every message whole.\<close>

definition regular :: "env \<times> event \<Rightarrow> bool" where
  "regular x \<longleftrightarrow> full_write (fst x)
     \<and> (case snd x of Frame packet interface \<Rightarrow> length packet < 2 ^ 31 | Tick \<Rightarrow> True)"

lemma run_history_append: "run_history (h @ h') sr = rbind (run_history h sr) (run_history h')"
  by (induction h arbitrary: sr) (auto simp: rbind_def split: sum.split)

lemma run_history_snoc: "run_history (h @ [x]) sr = rbind (run_history h sr) (do_event x)"
  by (auto simp: run_history_append rbind_def split: sum.split)

lemma do_event_step: "do_event x sr = Inr sr' \<Longrightarrow> regular x \<Longrightarrow> step (fst x) sr (snd x) sr'"
  by (cases x; cases "snd x") (auto simp: regular_def step_Frame step_Tick)

section \<open>Causes\<close>

definition received :: "history \<Rightarrow> env \<Rightarrow> bytes \<Rightarrow> bytes \<Rightarrow> bool" where
  "received h E interface frame \<longleftrightarrow> (E, Frame frame interface) \<in> set h"

text \<open>An ARP packet for the interface it comes in by, with the operation \<open>operation\<close>.\<close>

definition arp_for :: "sr_if list \<Rightarrow> bytes \<Rightarrow> u16 \<Rightarrow> bytes \<Rightarrow> sr_if \<Rightarrow> bool" where
  "arp_for ifs interface operation frame i \<longleftrightarrow> is_arp_frame frame \<and> if_named ifs interface = Some i
     \<and> ar_tip (frame_arp frame) = if_ip i \<and> ar_op (frame_arp frame) = htons operation"

text \<open>A reply that says, at time \<open>t\<close>, that \<open>a\<close> is at \<open>m\<close>.\<close>

definition taught :: "sr_if list \<Rightarrow> history \<Rightarrow> u32 \<Rightarrow> mac \<Rightarrow> int \<Rightarrow> bool" where
  "taught ifs h a m t \<longleftrightarrow> (\<exists>E interface frame i. received h E interface frame
     \<and> arp_for ifs interface arp_op_reply frame i
     \<and> ar_sip (frame_arp frame) = a \<and> ar_sha (frame_arp frame) = m \<and> now E = t)"

definition valid_ip :: "bytes \<Rightarrow> bool" where
  "valid_ip packet \<longleftrightarrow> is_ip_frame packet \<and> ip_sum_ok packet"

definition for_one_of :: "sr_if list \<Rightarrow> bytes \<Rightarrow> bool" where
  "for_one_of ifs packet \<longleftrightarrow> (\<exists>i\<in>set ifs. if_ip i = ip_dst (frame_ip packet))"

text \<open>A packet the router has received and can forward.\<close>

definition accepted :: "sr_if list \<Rightarrow> sr_rt list \<Rightarrow> history \<Rightarrow> bytes \<Rightarrow> bool" where
  "accepted ifs rts h packet \<longleftrightarrow> (\<exists>E interface. received h E interface packet) \<and> valid_ip packet
     \<and> \<not> for_one_of ifs packet \<and> 1 < ip_ttl (frame_ip packet)
     \<and> route_to rts (ip_dst (frame_ip packet)) \<noteq> None"

text \<open>What is wrong with a packet that is reported: type and code of the error.\<close>

definition wrong :: "sr_if list \<Rightarrow> sr_rt list \<Rightarrow> bytes \<Rightarrow> u8 \<Rightarrow> u8 \<Rightarrow> bool" where
  "wrong ifs rts packet type code \<longleftrightarrow>
     (let h = frame_ip packet in
      if for_one_of ifs packet then (ip_p h = 17 \<or> ip_p h = 6) \<and> type = 3 \<and> code = 3
      else if ip_ttl h \<le> 1 then type = 11 \<and> code = 0
      else route_to rts (ip_dst h) = None \<and> type = 3 \<and> code = 1)"

text \<open>The messages a history accounts for: requests for the destination of a packet that can be forwarded,
  replies to requests, echo replies, errors, and packets forwarded to an address learnt from a reply.\<close>

definition message :: "bytes \<Rightarrow> bytes \<Rightarrow> bytes" where
  "message interface frame = packet_msg interface (of_nat (length frame)) frame"

inductive caused :: "sr_if list \<Rightarrow> sr_rt list \<Rightarrow> history \<Rightarrow> bytes \<Rightarrow> bool" for ifs rts h where
  asks: "accepted ifs rts h packet \<Longrightarrow> i \<in> set ifs \<Longrightarrow>
    caused ifs rts h (message (if_name i) (arp_request_frame i (ip_dst (frame_ip packet))))"
| answers: "received h E interface frame \<Longrightarrow> arp_for ifs interface arp_op_request frame i \<Longrightarrow>
    caused ifs rts h (message interface (arp_reply_frame i frame))"
| echoes: "received h E interface frame \<Longrightarrow> valid_ip frame \<Longrightarrow> for_one_of ifs frame \<Longrightarrow>
    ip_p (frame_ip frame) = 1 \<Longrightarrow> 38 \<le> length frame \<Longrightarrow> if_named ifs interface = Some i \<Longrightarrow>
    caused ifs rts h (message interface (echo_frame i frame))"
| reports: "received h E interface frame \<Longrightarrow> valid_ip frame \<Longrightarrow> wrong ifs rts frame type code \<Longrightarrow>
    42 \<le> length frame \<Longrightarrow> length frame \<le> 70 \<Longrightarrow> if_named ifs interface = Some i \<Longrightarrow>
    caused ifs rts h (message interface (take (length frame) (error_frame E i frame type code f)))"
| forwards: "accepted ifs rts h packet \<Longrightarrow> taught ifs h (ip_dst (frame_ip packet)) m t \<Longrightarrow>
    route_to rts (ip_dst (frame_ip packet)) = Some rt \<Longrightarrow> if_named ifs (rt_interface rt) = Some i \<Longrightarrow>
    caused ifs rts h (message (if_name i) (forward_frame i m packet))"

lemma received_mono: "received h E interface frame \<Longrightarrow> set h \<subseteq> set h' \<Longrightarrow> received h' E interface frame"
  by (auto simp: received_def)

lemma taught_mono: "taught ifs h a m t \<Longrightarrow> set h \<subseteq> set h' \<Longrightarrow> taught ifs h' a m t"
  unfolding taught_def by (blast intro: received_mono)

lemma accepted_mono: "accepted ifs rts h p \<Longrightarrow> set h \<subseteq> set h' \<Longrightarrow> accepted ifs rts h' p"
  unfolding accepted_def by (blast intro: received_mono)

lemma caused_mono: "caused ifs rts h msg \<Longrightarrow> set h \<subseteq> set h' \<Longrightarrow> caused ifs rts h' msg"
  by (induction rule: caused.induct)
    (blast intro: caused.intros accepted_mono received_mono taught_mono)+

lemma if_named_set: "if_named ifs name = Some i \<Longrightarrow> i \<in> set ifs"
  unfolding if_named_def by (drule find_Some_iff_set) simp

section \<open>The abstract router\<close>

text \<open>Everything in the state of the abstract router, except for the messages \<open>w\<close> sent before, has a cause.\<close>

definition question_ok :: "sr_if list \<Rightarrow> sr_rt list \<Rightarrow> history \<Rightarrow> u32 \<Rightarrow> asked \<Rightarrow> bool" where
  "question_ok ifs rts h a r \<longleftrightarrow> (\<exists>p. accepted ifs rts h p \<and> ip_dst (frame_ip p) = a)
     \<and> (\<forall>q\<in>set (asked_for r). accepted ifs rts h (pk_buf q))"

definition accounted :: "sr_if list \<Rightarrow> sr_rt list \<Rightarrow> bytes list \<Rightarrow> history \<Rightarrow> net \<Rightarrow> bool" where
  "accounted ifs rts w h n \<longleftrightarrow> (\<forall>a m. neighbours n a = Some m \<longrightarrow> (\<exists>t. taught ifs h a m t))
     \<and> (\<forall>a r. questions n a = Some r \<longrightarrow> question_ok ifs rts h a r)
     \<and> (\<exists>ms. transmitted n = w @ ms \<and> (\<forall>msg\<in>set ms. caused ifs rts h msg))"

lemma question_ok_mono: "question_ok ifs rts h a r \<Longrightarrow> set h \<subseteq> set h' \<Longrightarrow> question_ok ifs rts h' a r"
  unfolding question_ok_def by (blast intro: accepted_mono)

lemma accounted_mono: "accounted ifs rts w h n \<Longrightarrow> set h \<subseteq> set h' \<Longrightarrow> accounted ifs rts w h' n"
  unfolding accounted_def by (blast intro: taught_mono question_ok_mono caused_mono)

lemma accounted_send:
  assumes "accounted ifs rts w h n" "caused ifs rts h (message interface frame)"
  shows "accounted ifs rts w h (send_frame interface frame n)"
proof -
  obtain ms where "transmitted n = w @ ms" "\<forall>msg\<in>set ms. caused ifs rts h msg"
    using assms(1) by (auto simp: accounted_def)
  then show ?thesis
    using assms by (auto simp: accounted_def send_frame_def message_def intro!: exI [of _ "ms @ [_]"])
qed

lemma accounted_ask:
  assumes "ask E i a r n = Some n'" "accounted ifs rts w h n" "question_ok ifs rts h a r"
    and "\<And>i'. i = Some i' \<Longrightarrow> i' \<in> set ifs"
  shows "accounted ifs rts w h n'"
proof (cases "now E - asked_at r \<le> 1")
  case True
  then show ?thesis using assms(1-3) by (auto simp: ask_def accounted_def split: if_splits)
next
  case False
  let ?n = "n\<lparr>questions := (questions n)(a \<mapsto> r\<lparr>asked_at := now E, asked_times := asked_times r + 1\<rparr>)\<rparr>"
  obtain i' where i: "i = Some i'" "n' = send_frame (if_name i') (arp_request_frame i' a) ?n"
    using assms(1) False by (auto simp: ask_def split: if_splits)
  have "accounted ifs rts w h ?n" using assms(2,3) by (auto simp: accounted_def question_ok_def)
  moreover have "caused ifs rts h (message (if_name i') (arp_request_frame i' a))"
    using assms(3) caused.asks assms(4) [OF i(1)] by (auto simp: question_ok_def)
  ultimately show ?thesis unfolding i(2) by (rule accounted_send)
qed

lemma accounted_report:
  assumes "report E ifs interface packet type code f n = Some n'" "accounted ifs rts w h n"
    and "received h E interface packet" "valid_ip packet" "wrong ifs rts packet type code"
  shows "accounted ifs rts w h n'"
  using assms by (auto simp: report_def split: option.splits if_splits intro!: accounted_send caused.reports)

lemma accounted_accepted:
  assumes run: "route_packet E ifs rts interface packet n = Some n'" and n: "accounted ifs rts w h n"
    and p: "accepted ifs rts h packet"
  shows "accounted ifs rts w h n'"
proof -
  let ?a = "ip_dst (frame_ip packet)"
  obtain rt where rt: "route_to rts ?a = Some rt" using p by (auto simp: accepted_def)
  have ttl: "\<not> ip_ttl (frame_ip packet) \<le> 1" using p by (simp add: accepted_def not_le)
  show ?thesis
  proof (cases "neighbours n ?a")
    case (Some m)
    then obtain i where i: "if_named ifs (rt_interface rt) = Some i"
      and n': "n' = send_frame (if_name i) (forward_frame i m packet) n"
      using run rt ttl by (auto simp: route_packet_def Let_def)
    obtain t where "taught ifs h ?a m t" using n Some unfolding accounted_def by blast
    then show ?thesis unfolding n' using n p rt i by (intro accounted_send caused.forwards)
  next
    case None
    let ?r = "case questions n ?a of None \<Rightarrow> not_asked | Some r \<Rightarrow> r"
    let ?q = "queued_packet packet (of_nat (length packet)) interface"
    have ask: "ask E (if_named ifs (rt_interface rt)) ?a (?r\<lparr>asked_for := ?q # asked_for ?r\<rparr>) n = Some n'"
      using run rt ttl None by (simp add: route_packet_def Let_def)
    have "\<forall>q\<in>set (asked_for ?r). accepted ifs rts h (pk_buf q)"
      using n by (auto simp: accounted_def question_ok_def not_asked_def split: option.split)
    then have "question_ok ifs rts h ?a (?r\<lparr>asked_for := ?q # asked_for ?r\<rparr>)"
      using p by (auto simp: question_ok_def queued_packet_def)
    from ask n this show ?thesis by (rule accounted_ask) (rule if_named_set)
  qed
qed

lemma accounted_route:
  assumes run: "route_packet E ifs rts interface packet n = Some n'" and n: "accounted ifs rts w h n"
    and p: "received h E interface packet" "valid_ip packet" "\<not> for_one_of ifs packet"
  shows "accounted ifs rts w h n'"
proof -
  consider "ip_ttl (frame_ip packet) \<le> 1"
    | "1 < ip_ttl (frame_ip packet)" "route_to rts (ip_dst (frame_ip packet)) = None"
    | "1 < ip_ttl (frame_ip packet)" "route_to rts (ip_dst (frame_ip packet)) \<noteq> None" by force
  then show ?thesis
  proof cases
    case 1
    then have "report E ifs interface packet 11 0 (\<lambda>ttl. ttl - 1) n = Some n'" "wrong ifs rts packet 11 0"
      using run p(3) by (simp_all add: route_packet_def wrong_def Let_def)
    then show ?thesis by (rule accounted_report [OF _ n p(1,2)])
  next
    case 2
    then have "report E ifs interface packet 3 1 (\<lambda>ttl. ttl) n = Some n'" "wrong ifs rts packet 3 1"
      using run p(3) by (simp_all add: route_packet_def wrong_def Let_def not_le [symmetric])
    then show ?thesis by (rule accounted_report [OF _ n p(1,2)])
  next
    case 3
    then have "accepted ifs rts h packet" using p by (auto simp: accepted_def)
    with run n show ?thesis by (rule accounted_accepted)
  qed
qed

lemma accounted_release:
  "release_all E ifs rts interface ps n = Some n' \<Longrightarrow> accounted ifs rts w h n \<Longrightarrow>
   \<forall>q\<in>set ps. accepted ifs rts h (pk_buf q) \<Longrightarrow> accounted ifs rts w h n'"
proof (induction ps arbitrary: n)
  case (Cons q ps)
  then obtain n1 where q: "route_packet E ifs rts interface (pk_buf q) n = Some n1"
    and r: "release_all E ifs rts interface ps n1 = Some n'" by (auto simp: bind_eq_Some_conv)
  from q have "accounted ifs rts w h n1" by (rule accounted_accepted) (use Cons.prems(2,3) in simp_all)
  then show ?case using Cons.IH [OF r] Cons.prems(3) by simp
qed simp

lemma accounted_arp:
  assumes run: "arp_frame E ifs rts learnt interface frame n = Some n'" and n: "accounted ifs rts w h n"
    and f: "received h E interface frame" "ether_type (frame_eth frame) = htons ethertype_arp"
  shows "accounted ifs rts w h n'"
proof -
  let ?h = "frame_arp frame"
  obtain i where i: "\<not> length frame < 42" "if_named ifs interface = Some i"
    using run by (auto simp: arp_frame_def Let_def split: if_splits option.splits)
  then have arp: "is_arp_frame frame" using f(2) by (simp add: is_arp_frame_def sizeof_defs)
  have ne: "htons arp_op_request \<noteq> htons arp_op_reply" by code_simp
  consider "n' = n"
    | "ar_tip ?h = if_ip i" "ar_op ?h = htons arp_op_request" "n' = send_frame interface (arp_reply_frame i frame) n"
    | "ar_tip ?h = if_ip i" "ar_op ?h = htons arp_op_reply"
    using run i by (auto simp: arp_frame_def Let_def split: if_splits)
  then show ?thesis
  proof cases
    case 2
    then have "arp_for ifs interface arp_op_request frame i" using i(2) arp by (simp add: arp_for_def)
    then show ?thesis unfolding 2(3) using f(1) by (intro accounted_send [OF n] caused.answers)
  next
    case 3
    let ?qs = "case questions n (ar_sip ?h) of None \<Rightarrow> [] | Some r \<Rightarrow> asked_for r"
    let ?n = "n\<lparr>neighbours := (if learnt then (neighbours n)(ar_sip ?h \<mapsto> ar_sha ?h) else neighbours n),
      questions := (questions n)(ar_sip ?h := None)\<rparr>"
    have rel: "release_all E ifs rts interface ?qs ?n = Some n'"
      using run i 3 ne by (simp add: arp_frame_def Let_def)
    have "arp_for ifs interface arp_op_reply frame i" using i(2) arp 3 by (simp add: arp_for_def)
    then have "taught ifs h (ar_sip ?h) (ar_sha ?h) (now E)" using f(1) unfolding taught_def by blast
    then have "accounted ifs rts w h ?n" using n by (auto simp: accounted_def split: if_splits)
    moreover have "\<forall>q\<in>set ?qs. accepted ifs rts h (pk_buf q)"
      using n by (cases "questions n (ar_sip ?h)") (auto simp: accounted_def question_ok_def)
    ultimately show ?thesis by (rule accounted_release [OF rel])
  qed (use n in simp)
qed

lemma accounted_ip:
  assumes run: "ip_frame E ifs rts interface frame n = Some n'" and n: "accounted ifs rts w h n"
    and f: "received h E interface frame" "ether_type (frame_eth frame) = htons ethertype_ip"
  shows "accounted ifs rts w h n'"
proof (cases "length frame < 34 \<or> \<not> ip_sum_ok frame")
  case True
  then show ?thesis using run n by (auto simp: ip_frame_def Let_def)
next
  case False
  then have v: "valid_ip frame" using f(2) by (simp add: valid_ip_def is_ip_frame_def sizeof_defs)
  show ?thesis
  proof (cases "for_one_of ifs frame")
    case here: True
    consider "n' = n"
      | i where "ip_p (frame_ip frame) = 1" "38 \<le> length frame" "if_named ifs interface = Some i"
        "n' = send_frame interface (echo_frame i frame) n"
      | "ip_p (frame_ip frame) = 17 \<or> ip_p (frame_ip frame) = 6" "report E ifs interface frame 3 3 (\<lambda>ttl. ttl) n = Some n'"
      using run False here
      by (auto simp: ip_frame_def Let_def for_one_of_def split: if_splits option.splits)
    then show ?thesis
    proof cases
      case 2
      show ?thesis unfolding 2(4) by (rule accounted_send [OF n caused.echoes [OF f(1) v here 2(1-3)]])
    next
      case 3
      then have "wrong ifs rts frame 3 3" using here by (simp add: wrong_def Let_def)
      then show ?thesis by (rule accounted_report [OF 3(2) n f(1) v])
    qed (use n in simp)
  next
    case there: False
    then have "route_packet E ifs rts interface frame n = Some n'"
      using run False by (simp add: ip_frame_def Let_def for_one_of_def)
    then show ?thesis using n f(1) v there by (rule accounted_route)
  qed
qed

lemma accounted_frame:
  assumes "net_frame E ifs rts learnt interface frame n = Some n'" "accounted ifs rts w h n"
    and "received h E interface frame"
  shows "accounted ifs rts w h n'"
  using assms accounted_arp [of E ifs rts learnt interface frame n n' w h] accounted_ip [of E ifs rts interface frame n n' w h]
  by (auto simp: net_frame_def Let_def split: if_splits)

section \<open>The entries of the cache\<close>

lemma queuereq_entries: "sr_arpcache_queuereq c ip packet len iface = Inr (c', a) \<Longrightarrow> entries c' = entries c"
  by (auto simp: sr_arpcache_queuereq_def rbind_eq_Inr upd_req_def Let_def split: option.splits if_splits)

lemma arpreq_entries:
  assumes "handle_arpreq E sr a rt = Inr sr'" "cache_inv (cache sr)"
  shows "entries (cache sr') = entries (cache sr)"
  using assms
proof (cases rule: handle_arpreq_Inr)
  case (2 req sr1 ret)
  then show ?thesis by (simp add: upd_req_def)
qed simp

lemma other_dest_entries:
  assumes run: "packet_to_other_dest E packet sr interface len = Inr sr'"
    and inv: "cache_inv (cache sr)" and p: "is_ip_frame packet"
  shows "entries (cache sr') = entries (cache sr)"
  using run p
proof (cases rule: other_dest_Inr)
  case (2 rt c a)
  then show ?thesis using arpreq_entries [OF 2(5)] queuereq_entries [OF 2(4)] queuereq_inv [OF inv 2(4)] by simp
qed simp

lemma send_waiting_entries:
  assumes "send_waiting E interface ps sr = Inr sr'" "cache_inv (cache sr)"
    and "\<forall>p\<in>set ps. is_ip_frame (pk_buf p)"
  shows "entries (cache sr') = entries (cache sr)"
  using assms
proof (induction ps arbitrary: sr)
  case (Cons p ps)
  from Cons.prems(1) obtain sr1 where 1: "packet_to_other_dest E (pk_buf p) sr interface (pk_len p) = Inr sr1"
    and 2: "send_waiting E interface ps sr1 = Inr sr'" by (auto simp: send_waiting_Cons rbind_eq_Inr)
  then show ?case
    using Cons.IH [OF 2 other_dest.keeps_inv [OF Cons.prems(2) 1]] other_dest_entries [OF 1 Cons.prems(2)] Cons.prems(3)
    by simp
qed simp

lemma IP_packet_entries:
  assumes run: "IP_packet E packet sr interface len = Inr sr'" and inv: "cache_inv (cache sr)"
    and p: "is_ip_frame packet" "unat len = length packet"
  shows "entries (cache sr') = entries (cache sr)"
proof (cases "ip_sum_ok packet \<and> \<not> for_router sr packet")
  case True
  then have "packet_to_other_dest E packet sr interface len = Inr sr'" using run by (simp add: IP_packet_cases [OF p])
  then show ?thesis using inv p(1) by (rule other_dest_entries)
next
  case False
  then show ?thesis
    using run by (auto simp: IP_packet_cases [OF p] Port_unreach_def dest: icmp_error_cache Echo_Reply_cache
        split: if_splits)
qed

lemma arp_packet_entries:
  assumes run: "arp_packet E buf sr interface len = Inr sr'" and inv: "cache_inv (cache sr)" "queue_ok sr"
    and t: "ether_type (frame_eth buf) = htons ethertype_arp"
  shows "entries (cache sr') = entries (cache sr)
    \<or> (\<exists>i. arp_for (if_list sr) interface arp_op_reply buf i
        \<and> entries (cache sr') = entries (fst (sr_arpcache_insert (now E) (cache sr)
            (ar_sha (frame_arp buf)) (ar_sip (frame_arp buf)))))"
proof -
  let ?h = "frame_arp buf"
  have l: "sizeof_eth + sizeof_arp \<le> length buf"
  proof (rule ccontr)
    assume "\<not> ?thesis"
    then have "ld_arp buf = Inl OutOfBounds" by (simp add: ld_def rd_def)
    then show False using run by (simp add: arp_packet_def)
  qed
  then have arp: "is_arp_frame buf" using t by (simp add: is_arp_frame_def)
  note u = run [unfolded arp_packet_def arp.ld_ok [OF l] rbind_Inr]
  obtain i where i: "sr_get_interface sr interface = Some i" using u by (cases "sr_get_interface sr interface") auto
  consider "ar_tip ?h \<noteq> if_ip i \<or> ntohs (ar_op ?h) \<noteq> 1 \<and> ntohs (ar_op ?h) \<noteq> 2"
    | "ar_tip ?h = if_ip i" "ntohs (ar_op ?h) = 1" | "ar_tip ?h = if_ip i" "ntohs (ar_op ?h) = 2" by blast
  then show ?thesis
  proof cases
    case 1
    then have "sr' = sr" using u i by (auto split: if_splits)
    then show ?thesis by simp
  next
    case 2
    then have "cache sr' = cache sr" using u i by (auto simp: rbind_eq_Inr dest: sr_send_packet_good)
    then show ?thesis by simp
  next
    case 3
    obtain c r where ins: "sr_arpcache_insert (now E) (cache sr) (ar_sha ?h) (ar_sip ?h) = (c, r)"
      by (cases "sr_arpcache_insert (now E) (cache sr) (ar_sha ?h) (ar_sip ?h)")
    have "entries (cache sr') = entries c"
    proof (cases r)
      case None
      then show ?thesis using u i 3 ins by auto
    next
      case (Some req)
      then obtain sr1 where s: "send_waiting E interface (rq_packets req) (sr\<lparr>cache := c\<rparr>) = Inr sr1"
        and sr': "sr' = sr1\<lparr>cache := sr_arpreq_destroy (cache sr1) (rq_id req)\<rparr>"
        using u i 3 ins by (auto simp: rbind_eq_Inr)
      have "\<forall>p\<in>set (rq_packets req). is_ip_frame (pk_buf p)"
        using insert_queue_ok(2) [OF ins inv Some] by (simp add: queued_ok_def)
      then show ?thesis
        using send_waiting_entries [OF s] cache_inv_insert [OF inv(1) ins] by (simp add: sr' sr_arpreq_destroy_def)
    qed
    moreover have "ar_op ?h = htons arp_op_reply" using 3(2) by (metis ntohs_htons arp_op_reply_def)
    ultimately show ?thesis using 3(1) i arp ins by (auto simp: arp_for_def if_named_list)
  qed
qed

lemma handlepacket_entries:
  assumes run: "sr_handlepacket E sr packet len interface = Inr sr'" and inv: "cache_inv (cache sr)" "queue_ok sr"
    and len: "unat len = length packet"
  shows "entries (cache sr') = entries (cache sr)
    \<or> (\<exists>i. arp_for (if_list sr) interface arp_op_reply packet i
        \<and> entries (cache sr') = entries (fst (sr_arpcache_insert (now E) (cache sr)
            (ar_sha (frame_arp packet)) (ar_sip (frame_arp packet)))))"
proof -
  obtain t where t: "ethertype packet = Inr t" using run by (auto simp: sr_handlepacket_def rbind_eq_Inr)
  have "sizeof_eth \<le> length packet"
    using t ethertype_oob [of packet] by (cases "length packet < sizeof_eth") auto
  then have e: "ether_type (frame_eth packet) = htons t" using t by (metis ethertype_ok Inr_inject ntohs_htons(2))
  note u = run [unfolded sr_handlepacket_def t rbind_Inr]
  consider "t = ethertype_arp" | "t \<noteq> ethertype_arp" "t = ethertype_ip"
    | "t \<noteq> ethertype_arp" "t \<noteq> ethertype_ip" by blast
  then show ?thesis
  proof cases
    case 1
    then show ?thesis using arp_packet_entries [OF _ inv] u e by simp
  next
    case 2
    then have ip: "IP_packet E packet sr interface len = Inr sr'" using u by simp
    show ?thesis
    proof (cases "sizeof_eth + sizeof_ip \<le> length packet")
      case True
      then have "is_ip_frame packet" using e 2 by (simp add: is_ip_frame_def)
      then show ?thesis using IP_packet_entries [OF ip inv(1) _ len] by simp
    next
      case False
      then show ?thesis using ip len IP_packet_short [of len E packet sr interface] by simp
    qed
  qed (use u in simp)
qed

definition entries_all :: "(sr_arpentry \<Rightarrow> bool) \<Rightarrow> sr_instance \<Rightarrow> bool" where
  "entries_all P sr \<longleftrightarrow> (\<forall>e\<in>set (entries (cache sr)). ae_valid e \<longrightarrow> P e)"

lemma entries_all_mono: "entries_all P sr \<Longrightarrow> (\<And>e. P e \<Longrightarrow> Q e) \<Longrightarrow> entries_all Q sr"
  by (auto simp: entries_all_def)

definition entry_taught :: "sr_if list \<Rightarrow> history \<Rightarrow> sr_arpentry \<Rightarrow> bool" where
  "entry_taught ifs h e \<longleftrightarrow> taught ifs h (ae_ip e) (ae_mac e) (ae_added e)"

lemma insert_entries_set:
  "cache_inv c \<Longrightarrow> set (entries (fst (sr_arpcache_insert t c m a)))
    \<subseteq> insert \<lparr> ae_mac = m, ae_ip = a, ae_added = t, ae_valid = True \<rparr> (set (entries c))"
  unfolding sr_arpcache_insert_def Let_def by (auto dest: subsetD [OF set_update_subset_insert])

lemma frame_entries_all:
  assumes run: "do_event (E, Frame packet interface) sr = Inr sr'" and x: "regular (E, Frame packet interface)"
    and inv: "cache_inv (cache sr)" "queue_ok sr" and P: "entries_all P sr"
  shows "entries_all (\<lambda>e. P e \<or> entry_taught (if_list sr) [(E, Frame packet interface)] e) sr'"
proof -
  have "unat (of_nat (length packet) :: u32) = length packet" using x by (intro unat_len) (simp add: regular_def)
  from handlepacket_entries [OF run [unfolded do_event.simps] inv this] show ?thesis
  proof (elim disjE exE conjE)
    fix i
    assume i: "arp_for (if_list sr) interface arp_op_reply packet i"
      and e: "entries (cache sr') = entries (fst (sr_arpcache_insert (now E) (cache sr)
            (ar_sha (frame_arp packet)) (ar_sip (frame_arp packet))))"
    have "taught (if_list sr) [(E, Frame packet interface)] (ar_sip (frame_arp packet)) (ar_sha (frame_arp packet)) (now E)"
      using i by (auto simp: taught_def received_def)
    then show ?thesis
      using P insert_entries_set [OF inv(1)] e by (fastforce simp: entries_all_def entry_taught_def)
  qed (use P in \<open>auto simp: entries_all_def\<close>)
qed

lemma sweep_walk_entries:
  "sweep_walk E rt as sr = Inr sr' \<Longrightarrow> cache_inv (cache sr) \<Longrightarrow> entries (cache sr') = entries (cache sr)"
proof (induction as arbitrary: sr)
  case (Cons a as)
  from Cons.prems(1) obtain sr1 where 1: "handle_arpreq E sr a rt = Inr sr1" and 2: "sweep_walk E rt as sr1 = Inr sr'"
    by (auto simp: sweep_walk_Cons rbind_eq_Inr)
  then show ?case
    using Cons.IH [OF 2 arpreq.keeps_inv [OF Cons.prems(2) 1]] arpreq_entries [OF 1 Cons.prems(2)] by simp
qed simp

lemma tick_entries_all:
  assumes run: "do_event (E, Tick) sr = Inr sr'" and inv: "cache_inv (cache sr)" and P: "entries_all P sr"
  shows "entries_all (\<lambda>e. P e \<and> now E - ae_added e \<le> SR_ARPCACHE_TO) sr'"
proof -
  let ?sr = "age_cache (now E) sr"
  have "cache_inv (cache ?sr)" using cache_inv_expire [OF inv] by (simp add: age_cache_def)
  moreover have "sr_arpcache_sweepreqs E ?sr = Inr sr'" using run by (simp add: timeout_then)
  ultimately have "entries (cache sr') = entries (cache ?sr)"
    by (auto simp: sr_arpcache_sweepreqs_def dest: sweep_walk_entries split: list.splits option.splits)
  then show ?thesis using P by (auto simp: entries_all_def age_cache_def arpcache_expire_def)
qed

section \<open>Events\<close>

definition sound :: "sr_instance \<Rightarrow> bool" where
  "sound sr \<longleftrightarrow> cache_inv (cache sr) \<and> queue_ok sr"

lemma event_keeps:
  assumes "do_event x sr = Inr sr'" "regular x" "sound sr"
  shows "sound sr'" "if_list sr' = if_list sr" "routing_table sr' = routing_table sr"
proof -
  have inv: "cache_inv (cache sr)" "queue_ok sr" using assms(3) by (simp_all add: sound_def)
  note s = do_event_step [OF assms(1,2)]
  show "sound sr'" "if_list sr' = if_list sr" "routing_table sr' = routing_table sr"
    using step_good [OF s inv(1)] step_queue_ok [OF s inv] inv(1) by (simp_all add: sound_def good_step_def)
qed

lemma event_entries_all:
  assumes "do_event x sr = Inr sr'" "regular x" "sound sr" "entries_all P sr"
  shows "entries_all (\<lambda>e. P e \<or> entry_taught (if_list sr) [x] e) sr'"
proof -
  obtain E ev where x: "x = (E, ev)" by (cases x)
  show ?thesis
  proof (cases ev)
    case (Frame packet interface)
    then show ?thesis using frame_entries_all [of E packet interface sr sr' P] assms by (simp add: x sound_def)
  next
    case Tick
    have "entries_all (\<lambda>e. P e \<and> now E - ae_added e \<le> SR_ARPCACHE_TO) sr'"
      by (rule tick_entries_all) (use assms Tick in \<open>simp_all add: x sound_def\<close>)
    then show ?thesis by (rule entries_all_mono) simp
  qed
qed

lemma entry_taught_mono: "entry_taught ifs h e \<Longrightarrow> set h \<subseteq> set h' \<Longrightarrow> entry_taught ifs h' e"
  unfolding entry_taught_def by (rule taught_mono)

lemma history_entries_all:
  "run_history h sr = Inr sr' \<Longrightarrow> list_all regular h \<Longrightarrow> sound sr \<Longrightarrow> entries_all P sr \<Longrightarrow>
   entries_all (\<lambda>e. P e \<or> entry_taught (if_list sr) h e) sr'"
proof (induction h arbitrary: sr P)
  case (Cons x h)
  then obtain sr1 where 1: "do_event x sr = Inr sr1" and 2: "run_history h sr1 = Inr sr'"
    by (auto simp: rbind_eq_Inr)
  have x: "regular x" "list_all regular h" using Cons.prems(2) by simp_all
  note k = event_keeps [OF 1 x(1) Cons.prems(3)]
  show ?case
  proof (rule entries_all_mono [OF Cons.IH [OF 2 x(2) k(1) event_entries_all [OF 1 x(1) Cons.prems(3,4)]]])
    fix e
    assume "(P e \<or> entry_taught (if_list sr) [x] e) \<or> entry_taught (if_list sr1) h e"
    then show "P e \<or> entry_taught (if_list sr) (x # h) e"
      using entry_taught_mono [of "if_list sr" "[x]" e "x # h"] entry_taught_mono [of "if_list sr" h e "x # h"]
      by (auto simp: k(2))
  qed
qed (auto elim: entries_all_mono)

section \<open>Ticks\<close>

lemma arpreq_accounted:
  assumes run: "handle_arpreq E sr a rt = Inr sr'" and inv: "cache_inv (cache sr)" and full: "full_write E"
    and n: "accounted (if_list sr) rts w h (net_of sr)"
  shows "accounted (if_list sr) rts w h (net_of sr')"
  using run inv
proof (cases rule: handle_arpreq_Inr)
  case (2 req sr1 ret)
  then obtain d where d: "rt = Some d" by (cases rt) (auto simp: arp_request_send_def)
  have "ask E (sr_get_interface sr (rt_interface d)) (rq_ip req) (asked_of req) (net_of sr) = Some (net_of sr')"
    using handle_arpreq_refines [OF inv 2(1) full, of d] run by (simp add: d)
  moreover have "question_ok (if_list sr) rts h (rq_ip req) (asked_of req)"
  proof -
    have "questions (net_of sr) (rq_ip req) = Some (asked_of req)"
      using find_req(1) [OF inv, of req] get_req_set [OF 2(1)] by (simp add: net_of_def pending_of_def)
    then show ?thesis using n unfolding accounted_def by blast
  qed
  ultimately show ?thesis by (rule accounted_ask [OF _ n]) (simp add: sr_get_interface_Some)
qed (use n in simp)

lemma sweep_walk_accounted:
  "sweep_walk E rt as sr = Inr sr' \<Longrightarrow> cache_inv (cache sr) \<Longrightarrow> full_write E \<Longrightarrow>
   accounted (if_list sr) rts w h (net_of sr) \<Longrightarrow> accounted (if_list sr) rts w h (net_of sr')"
proof (induction as arbitrary: sr)
  case (Cons a as)
  from Cons.prems(1) obtain sr1 where 1: "handle_arpreq E sr a rt = Inr sr1" and 2: "sweep_walk E rt as sr1 = Inr sr'"
    by (auto simp: sweep_walk_Cons rbind_eq_Inr)
  have "if_list sr1 = if_list sr" using arpreq.keeps_config [OF Cons.prems(2) 1] by simp
  then show ?case
    using Cons.IH [OF 2 arpreq.keeps_inv [OF Cons.prems(2) 1]] arpreq_accounted [OF 1 Cons.prems(2-4)] Cons.prems(3)
    by simp
qed simp

lemma accounted_neighbours:
  assumes "entries_all (entry_taught ifs h) sr" "questions n = questions (net_of sr)"
    and "transmitted n = transmitted (net_of sr)" "accounted ifs rts w h n"
  shows "accounted ifs rts w h (net_of sr)"
proof -
  have "\<exists>t. taught ifs h a m t" if "lookup_mac (cache sr) a = Some m" for a m
    using that assms(1) by (auto simp: lookup_mac_def entries_all_def entry_taught_def dest!: lookup_Some)
  then show ?thesis using assms(2-4) by (simp add: accounted_def) (simp add: net_of_def)
qed

lemma timeout_accounted:
  assumes run: "sr_arpcache_timeout E sr = Inr sr'" and inv: "cache_inv (cache sr)" and full: "full_write E"
    and n: "accounted (if_list sr) rts w h (net_of sr)" and e: "entries_all (entry_taught (if_list sr) h) sr"
  shows "accounted (if_list sr) rts w h (net_of sr')"
proof -
  let ?sr = "age_cache (now E) sr"
  have c: "cache_inv (cache ?sr)" using cache_inv_expire [OF inv] by (simp add: age_cache_def)
  have run: "sr_arpcache_sweepreqs E ?sr = Inr sr'" using run by (simp add: timeout_then)
  have "entries_all (entry_taught (if_list sr) h) ?sr"
    using e by (auto simp: entries_all_def age_cache_def arpcache_expire_def)
  then have "accounted (if_list sr) rts w h (net_of ?sr)"
    by (rule accounted_neighbours [OF _ _ _ n])
      (simp_all add: age_cache_def net_of_def pending_of_def arpcache_expire_def fun_eq_iff)
  then show ?thesis
    using run sweep_walk_accounted [OF _ c full, of _ _ sr' rts w h]
    by (cases "requests (cache ?sr)")
      (auto simp: sr_arpcache_sweepreqs_def age_cache_def split: option.splits)
qed

section \<open>Whole runs\<close>

text \<open>A state in which everything is explained by the history.\<close>

definition explained :: "sr_if list \<Rightarrow> sr_rt list \<Rightarrow> bytes list \<Rightarrow> history \<Rightarrow> sr_instance \<Rightarrow> bool" where
  "explained ifs rts w h sr \<longleftrightarrow> sound sr \<and> if_list sr = ifs \<and> routing_table sr = rts
     \<and> entries_all (entry_taught ifs h) sr \<and> accounted ifs rts w h (net_of sr)"

lemma explained_mono: "explained ifs rts w h sr \<Longrightarrow> set h \<subseteq> set h' \<Longrightarrow> explained ifs rts w h' sr"
  unfolding explained_def by (blast intro: accounted_mono entries_all_mono entry_taught_mono)

lemma event_explained:
  assumes run: "do_event x sr = Inr sr'" and x: "regular x" and old: "explained ifs rts w h sr"
  shows "explained ifs rts w (h @ [x]) sr'"
proof -
  obtain E ev where x': "x = (E, ev)" by (cases x)
  have full: "full_write E" using x by (simp add: x' regular_def)
  have "explained ifs rts w (h @ [x]) sr" by (rule explained_mono [OF old]) auto
  then have s: "sound sr" and e: "entries_all (entry_taught ifs (h @ [x])) sr"
    and n: "accounted ifs rts w (h @ [x]) (net_of sr)" and c: "if_list sr = ifs" "routing_table sr = rts"
    by (simp_all add: explained_def)
  note k = event_keeps [OF run x s]
  have "entries_all (entry_taught ifs (h @ [x])) sr'"
    using event_entries_all [OF run x s e] by (rule entries_all_mono) (auto simp: c elim: entry_taught_mono)
  moreover have "accounted ifs rts w (h @ [x]) (net_of sr')"
  proof (cases ev)
    case (Frame packet interface)
    have "length packet < 2 ^ 31" using x by (simp add: x' Frame regular_def)
    from handlepacket_net [OF _ _ full this, of sr interface]
    have "net_frame E ifs rts (learns (cache sr) (ar_sip (frame_arp packet))) interface packet (net_of sr)
        = Some (net_of sr')"
      using run s by (simp add: x' Frame c sound_def)
    then show ?thesis using n by (rule accounted_frame) (simp add: received_def x' Frame)
  next
    case Tick
    then show ?thesis
      using timeout_accounted [OF _ _ full, of sr sr' rts w "h @ [x]"] run s e n c by (simp add: x' sound_def)
  qed
  ultimately show ?thesis using k c by (simp add: explained_def)
qed

lemma history_explained:
  "run_history h' sr = Inr sr' \<Longrightarrow> list_all regular h' \<Longrightarrow> explained ifs rts w h sr \<Longrightarrow>
   explained ifs rts w (h @ h') sr'"
proof (induction h' arbitrary: h sr)
  case (Cons x h')
  then obtain sr1 where 1: "do_event x sr = Inr sr1" and 2: "run_history h' sr1 = Inr sr'"
    by (auto simp: rbind_eq_Inr)
  have "explained ifs rts w (h @ [x]) sr1" using event_explained [OF 1] Cons.prems(2,3) by simp
  then show ?case using Cons.IH [OF 2, of "h @ [x]"] Cons.prems(2) by simp
qed simp

lemma sound_init: "sound (sr_init sr)"
  by (simp add: sound_def sr_init_def cache_inv_init) (simp add: queue_ok_def waiting_def sr_arpcache_init_def)

lemma entries_all_init: "entries_all P (sr_init sr)"
  by (simp add: entries_all_def sr_init_def sr_arpcache_init_def)

lemma explained_init:
  "explained (if_list sr) (routing_table sr) (wire sr) [] (sr_init sr)"
proof -
  have "lookup_mac (cache (sr_init sr)) a = None" for a
    by (simp add: lookup_mac_def lookup_None entry_for_def sr_init_def sr_arpcache_init_def)
  then have "accounted (if_list sr) (routing_table sr) (wire sr) [] (net_of (sr_init sr))"
    by (simp add: accounted_def net_of_def pending_of_def) (simp add: sr_init_def sr_arpcache_init_def)
  then show ?thesis using sound_init entries_all_init by (simp add: explained_def) (simp add: sr_init_def)
qed

lemma explained_wire:
  "explained ifs rts w h sr \<Longrightarrow> \<exists>ms. wire sr = w @ ms \<and> (\<forall>msg\<in>set ms. caused ifs rts h msg)"
  by (simp add: explained_def accounted_def net_of_def)

lemma run_explained:
  "run_history h (sr_init sr0) = Inr sr \<Longrightarrow> list_all regular h \<Longrightarrow>
   explained (if_list sr0) (routing_table sr0) (wire sr0) h sr"
  using history_explained [OF _ _ explained_init [of sr0], of h sr] by simp

lemma run_entries_fresh:
  assumes run: "run_history (h @ (E, Tick) # h') (sr_init sr0) = Inr sr"
    and r: "list_all regular (h @ (E, Tick) # h')"
  shows "entries_all (\<lambda>e. now E - ae_added e \<le> SR_ARPCACHE_TO \<or> entry_taught (if_list sr0) h' e) sr"
proof -
  obtain sr1 sr2 where 1: "run_history h (sr_init sr0) = Inr sr1" "list_all regular h"
    and 2: "do_event (E, Tick) sr1 = Inr sr2" "regular (E, Tick)"
    and 3: "run_history h' sr2 = Inr sr" "list_all regular h'"
    using run r by (auto simp: run_history_append rbind_eq_Inr)
  have s1: "sound sr1" "if_list sr1 = if_list sr0" using run_explained [OF 1] by (simp_all add: explained_def)
  note k2 = event_keeps [OF 2 s1(1)]
  have "entries_all (\<lambda>e. True \<and> now E - ae_added e \<le> SR_ARPCACHE_TO) sr2"
    by (rule tick_entries_all [OF 2(1)]) (use s1 in \<open>simp_all add: sound_def entries_all_def\<close>)
  from history_entries_all [OF 3 k2(1) this] show ?thesis by (simp add: k2 s1)
qed

section \<open>Properties\<close>

text \<open>A second without a request, a packet for an unknown neighbour, the neighbour's reply, and a second
  that passes ten seconds later.\<close>

definition ex_history :: history where
  "ex_history = [(ex_env, Tick), (ex_env, Frame ex_udp (if_name ex_if1)),
     (ex_env, Frame ex_arp_reply (if_name ex_if2)), (ex_env\<lparr>now := 110\<rparr>, Tick)]"

lemma ex_history_runs:
  "\<exists>sr. run_history ex_history (sr_init ex_router) = Inr sr \<and> length (wire sr) = 2
    \<and> filter ae_valid (entries (cache sr)) = [\<lparr> ae_mac = Mac 2 0 0 0 0 8, ae_ip = of_le32 10 0 2 2, ae_added = 100, ae_valid = True \<rparr>]"
proof -
  have "case run_history ex_history (sr_init ex_router) of Inl _ \<Rightarrow> False | Inr sr \<Rightarrow> length (wire sr) = 2
    \<and> filter ae_valid (entries (cache sr)) = [\<lparr> ae_mac = Mac 2 0 0 0 0 8, ae_ip = of_le32 10 0 2 2, ae_added = 100, ae_valid = True \<rparr>]"
    by code_simp
  then show ?thesis by (auto split: sum.splits)
qed

lemma ex_history_regular: "list_all regular ex_history"
  by (simp_all add: ex_history_def regular_def full_write_def ex_env_def ex_udp_def ex_arp_reply_def)

text \<open>C5: everything the router says has a cause: in a run from \<open>sr_init\<close>, whatever frames arrive, every
  message written is a request for the destination of a packet received and to be forwarded, a reply to
  a request received for that interface, an echo reply or an error for a packet received, or a packet
  received, valid, not expired and not for the router, forwarded by the interface of its route to an
  address that an ARP reply has given for its destination.\<close>

theorem messages_have_causes:
  assumes "run_history h (sr_init sr0) = Inr sr" "list_all regular h"
  shows "\<exists>ms. wire sr = wire sr0 @ ms \<and> (\<forall>msg\<in>set ms. caused (if_list sr0) (routing_table sr0) h msg)"
  by (rule explained_wire [OF run_explained [OF assms]])

theorem messages_have_causes_witness:
  "\<exists>sr. run_history ex_history (sr_init ex_router) = Inr sr \<and> length (wire sr) = 2
    \<and> caused (if_list ex_router) (routing_table ex_router) ex_history (last (wire sr))"
proof -
  obtain sr where sr: "run_history ex_history (sr_init ex_router) = Inr sr" "length (wire sr) = 2"
    using ex_history_runs by blast
  then have "last (wire sr) \<in> set (wire sr)" by (intro last_in_set) auto
  moreover have "wire ex_router = []" by (simp add: ex_router_def)
  ultimately show ?thesis using messages_have_causes [OF sr(1) ex_history_regular] sr by auto
qed

text \<open>C7: what the router knows of its neighbours is neither invented nor old: every valid entry of the
  cache is what an ARP reply in the history has said, with the time it came, and after a tick of the
  ageing thread at time \<open>now E\<close> it is at most 15 seconds old then, or has been learnt since.\<close>

theorem neighbours_fresh:
  assumes "run_history (h @ (E, Tick) # h') (sr_init sr0) = Inr sr"
    and "list_all regular (h @ (E, Tick) # h')"
    and "e \<in> set (entries (cache sr))" "ae_valid e"
  shows "taught (if_list sr0) (h @ (E, Tick) # h') (ae_ip e) (ae_mac e) (ae_added e)
    \<and> (now E - ae_added e \<le> 15 \<or> taught (if_list sr0) h' (ae_ip e) (ae_mac e) (ae_added e))"
  using run_entries_fresh [OF assms(1,2)] run_explained [OF assms(1,2)] assms(3,4)
  by (auto simp: explained_def entries_all_def entry_taught_def SR_ARPCACHE_TO_def)

theorem neighbours_fresh_witness:
  "taught (if_list ex_router) ex_history (of_le32 10 0 2 2) (Mac 2 0 0 0 0 8) 100"
proof -
  obtain sr where sr: "run_history ex_history (sr_init ex_router) = Inr sr"
    "filter ae_valid (entries (cache sr)) = [\<lparr> ae_mac = Mac 2 0 0 0 0 8, ae_ip = of_le32 10 0 2 2, ae_added = 100, ae_valid = True \<rparr>]"
    using ex_history_runs by blast
  let ?e = "\<lparr> ae_mac = Mac 2 0 0 0 0 8, ae_ip = of_le32 10 0 2 2, ae_added = 100, ae_valid = True \<rparr>"
  have "?e \<in> set (filter ae_valid (entries (cache sr)))" unfolding sr(2) by simp
  then have e: "?e \<in> set (entries (cache sr))" by simp
  have h: "ex_history = butlast ex_history @ (ex_env\<lparr>now := 110\<rparr>, Tick) # []" by (simp add: ex_history_def)
  show ?thesis
    using neighbours_fresh [of "butlast ex_history" "ex_env\<lparr>now := 110\<rparr>" "[]" ex_router sr ?e]
      sr(1) e ex_history_regular unfolding h [symmetric] by simp
qed

end
