(* ===== verification/Sha1.thy ===== *)
theory Sha1
  imports Router_Prelude
begin

text \<open>
  \<open>sha1.c\<close>: the hash the router authenticates itself with. The context is fed byte by byte
  (\<open>SHA1Input\<close>), a full block is folded into the digest at once (\<open>SHA1ProcessMessageBlock\<close>), and
  \<open>SHA1Result\<close> pads the rest. The code is related to a one-piece description of the hash after FIPS
  180-1 (\<open>sha1_spec\<close>): pad the whole message, cut it into blocks, fold the compression function.
\<close>

section \<open>The code\<close>

type_synonym digest = "u32 \<times> u32 \<times> u32 \<times> u32 \<times> u32"

record SHA1Context =
  Message_Digest :: digest
  Length_Low :: u32
  Length_High :: u32
  Message_Block :: bytes
  Message_Block_Index :: nat
  Computed :: bool
  Corrupted :: bool

definition SHA1CircularShift :: "nat \<Rightarrow> u32 \<Rightarrow> u32" where
  "SHA1CircularShift bits word = push_bit bits word OR drop_bit (32 - bits) word"

definition SHA1Reset :: "SHA1Context \<Rightarrow> SHA1Context" where
  "SHA1Reset context = context\<lparr>
     Length_Low := 0, Length_High := 0, Message_Block_Index := 0,
     Message_Digest := (0x67452301, 0xEFCDAB89, 0x98BADCFE, 0x10325476, 0xC3D2E1F0),
     Computed := False, Corrupted := False\<rparr>"

text \<open>The array \<open>W\<close> of \<open>SHA1ProcessMessageBlock\<close>: 16 words from the block, then 64 computed ones.\<close>

definition W_init :: "bytes \<Rightarrow> u32 list" where
  "W_init block = map (\<lambda>t. push_bit 24 (ucast (block ! (t * 4)))
     OR push_bit 16 (ucast (block ! (t * 4 + 1))) OR push_bit 8 (ucast (block ! (t * 4 + 2)))
     OR ucast (block ! (t * 4 + 3))) [0..<16]"

definition W_next :: "u32 list \<Rightarrow> nat \<Rightarrow> u32 list" where
  "W_next W t = W @ [SHA1CircularShift 1 (W ! (t-3) XOR W ! (t-8) XOR W ! (t-14) XOR W ! (t-16))]"

definition message_schedule :: "bytes \<Rightarrow> u32 list" where
  "message_schedule block = foldl W_next (W_init block) [16..<80]"

text \<open>The body shared by the four loops, with the loop's function of \<open>B\<close>, \<open>C\<close>, \<open>D\<close> and its constant.\<close>

definition sha1_round ::
    "(u32 \<Rightarrow> u32 \<Rightarrow> u32 \<Rightarrow> u32) \<Rightarrow> u32 \<Rightarrow> u32 list \<Rightarrow> digest \<Rightarrow> nat \<Rightarrow> digest" where
  "sha1_round f k W = (\<lambda>(A, B, C, D, E) t.
     let temp = SHA1CircularShift 5 A + f B C D + E + W ! t + k
     in (temp, A, SHA1CircularShift 30 B, C, D))"

definition sha1_rounds :: "u32 list \<Rightarrow> digest \<Rightarrow> digest" where
  "sha1_rounds W v0 =
     (let v1 = foldl (sha1_round (\<lambda>B C D. (B AND C) OR (NOT B AND D)) 0x5A827999 W) v0 [0..<20];
          v2 = foldl (sha1_round (\<lambda>B C D. B XOR C XOR D) 0x6ED9EBA1 W) v1 [20..<40];
          v3 = foldl (sha1_round (\<lambda>B C D. (B AND C) OR (B AND D) OR (C AND D)) 0x8F1BBCDC W) v2 [40..<60]
      in foldl (sha1_round (\<lambda>B C D. B XOR C XOR D) 0xCA62C1D6 W) v3 [60..<80])"

definition digest_add :: "digest \<Rightarrow> digest \<Rightarrow> digest" where
  "digest_add = (\<lambda>(h0, h1, h2, h3, h4) (A, B, C, D, E). (h0 + A, h1 + B, h2 + C, h3 + D, h4 + E))"

definition SHA1ProcessMessageBlock :: "SHA1Context \<Rightarrow> SHA1Context" where
  "SHA1ProcessMessageBlock context =
     (let W = message_schedule (Message_Block context)
      in context\<lparr>Message_Digest := digest_add (Message_Digest context)
                   (sha1_rounds W (Message_Digest context)),
                 Message_Block_Index := 0\<rparr>)"

text \<open>\<open>context->Message_Block[context->Message_Block_Index++] = b\<close>.\<close>

definition put_byte :: "u8 \<Rightarrow> SHA1Context \<Rightarrow> SHA1Context res" where
  "put_byte b context =
     rbind (wr (Message_Block context) (Message_Block_Index context) [b]) (\<lambda>block.
     Inr (context\<lparr>Message_Block := block, Message_Block_Index := Message_Block_Index context + 1\<rparr>))"

text \<open>The body of the loop of \<open>SHA1Input\<close>; the 64-bit length is kept in two words.\<close>

definition input_byte :: "SHA1Context \<Rightarrow> u8 \<Rightarrow> SHA1Context res" where
  "input_byte context b =
     rbind (put_byte b context) (\<lambda>context.
     let context = context\<lparr>Length_Low := Length_Low context + 8\<rparr>;
         context = (if Length_Low context = 0
           then let context = context\<lparr>Length_High := Length_High context + 1\<rparr>
                in if Length_High context = 0 then context\<lparr>Corrupted := True\<rparr> else context
           else context)
     in Inr (if Message_Block_Index context = 64 then SHA1ProcessMessageBlock context else context))"

text \<open>\<open>while (length-- && !Corrupted)\<close>, with \<open>message_array\<close> moving through the caller's bytes.\<close>

fun input_loop :: "SHA1Context \<Rightarrow> bytes \<Rightarrow> nat \<Rightarrow> SHA1Context res" where
  "input_loop context message_array 0 = Inr context"
| "input_loop context message_array (Suc n) =
     (if Corrupted context then Inr context
      else case message_array of
        [] \<Rightarrow> Inl OutOfBounds
      | b # bs \<Rightarrow> rbind (input_byte context b) (\<lambda>context. input_loop context bs n))"

definition SHA1Input :: "SHA1Context \<Rightarrow> bytes \<Rightarrow> u32 \<Rightarrow> SHA1Context res" where
  "SHA1Input context message_array len =
     (if len = 0 then Inr context
      else if Computed context \<or> Corrupted context then Inr (context\<lparr>Corrupted := True\<rparr>)
      else input_loop context message_array (unat len))"

text \<open>The loops that fill the block with zeros up to index \<open>n\<close>.\<close>

function zero_fill :: "nat \<Rightarrow> SHA1Context \<Rightarrow> SHA1Context res" where
  "zero_fill n context =
     (if Message_Block_Index context < n
      then (case put_byte 0 context of
              Inl e \<Rightarrow> Inl e
            | Inr context' \<Rightarrow> zero_fill n context')
      else Inr context)"
  by pat_completeness auto
termination
  by (relation "measure (\<lambda>(n, context). n - Message_Block_Index context)")
    (auto simp: put_byte_def rbind_eq_Inr)

declare zero_fill.simps [simp del]

definition length_octets :: "SHA1Context \<Rightarrow> bytes" where
  "length_octets context =
     [ucast (drop_bit 24 (Length_High context)), ucast (drop_bit 16 (Length_High context)),
      ucast (drop_bit 8 (Length_High context)), ucast (Length_High context),
      ucast (drop_bit 24 (Length_Low context)), ucast (drop_bit 16 (Length_Low context)),
      ucast (drop_bit 8 (Length_Low context)), ucast (Length_Low context)]"

definition SHA1PadMessage :: "SHA1Context \<Rightarrow> SHA1Context res" where
  "SHA1PadMessage context =
     rbind
       (if Message_Block_Index context > 55
        then rbind (put_byte 0x80 context) (\<lambda>context.
             rbind (zero_fill 64 context) (\<lambda>context.
             zero_fill 56 (SHA1ProcessMessageBlock context)))
        else rbind (put_byte 0x80 context) (\<lambda>context.
             zero_fill 56 context)) (\<lambda>context.
     rbind (wr (Message_Block context) 56 (length_octets context)) (\<lambda>block.
     Inr (SHA1ProcessMessageBlock (context\<lparr>Message_Block := block\<rparr>))))"

definition SHA1Result :: "SHA1Context \<Rightarrow> (SHA1Context \<times> int) res" where
  "SHA1Result context =
     (if Corrupted context then Inr (context, 0)
      else if \<not> Computed context then
        rbind (SHA1PadMessage context) (\<lambda>context. Inr (context\<lparr>Computed := True\<rparr>, 1))
      else Inr (context, 1))"

section \<open>FIPS 180-1\<close>

text \<open>The standard's description of one block: words, functions and constants indexed by the round.\<close>

fun fips_W :: "bytes \<Rightarrow> nat \<Rightarrow> u32" where
  "fips_W M t =
     (if t < 16 then push_bit 24 (ucast (M ! (t * 4))) OR push_bit 16 (ucast (M ! (t * 4 + 1)))
        OR push_bit 8 (ucast (M ! (t * 4 + 2))) OR ucast (M ! (t * 4 + 3))
      else SHA1CircularShift 1
        (fips_W M (t-3) XOR fips_W M (t-8) XOR fips_W M (t-14) XOR fips_W M (t-16)))"

declare fips_W.simps [simp del]

definition fips_f :: "nat \<Rightarrow> u32 \<Rightarrow> u32 \<Rightarrow> u32 \<Rightarrow> u32" where
  "fips_f t B C D =
     (if t < 20 then (B AND C) OR (NOT B AND D)
      else if t < 40 then B XOR C XOR D
      else if t < 60 then (B AND C) OR (B AND D) OR (C AND D)
      else B XOR C XOR D)"

definition fips_K :: "nat \<Rightarrow> u32" where
  "fips_K t = (if t < 20 then 0x5A827999 else if t < 40 then 0x6ED9EBA1
     else if t < 60 then 0x8F1BBCDC else 0xCA62C1D6)"

definition fips_round :: "bytes \<Rightarrow> digest \<Rightarrow> nat \<Rightarrow> digest" where
  "fips_round M = (\<lambda>(A, B, C, D, E) t.
     (SHA1CircularShift 5 A + fips_f t B C D + E + fips_W M t + fips_K t,
      A, SHA1CircularShift 30 B, C, D))"

definition fips_compress :: "digest \<Rightarrow> bytes \<Rightarrow> digest" where
  "fips_compress h M = digest_add h (foldl (fips_round M) h [0..<80])"

definition fips_H0 :: digest where
  "fips_H0 = (0x67452301, 0xEFCDAB89, 0x98BADCFE, 0x10325476, 0xC3D2E1F0)"

text \<open>The whole blocks of a message, and the padded message.\<close>

fun chunks :: "bytes \<Rightarrow> bytes list" where
  "chunks m = (if length m < 64 then [] else take 64 m # chunks (drop 64 m))"

declare chunks.simps [simp del]

definition be64 :: "nat \<Rightarrow> bytes" where
  "be64 n = map (\<lambda>i. of_nat (n div 256 ^ (7 - i))) [0..<8]"

definition sha1_pad :: "bytes \<Rightarrow> bytes" where
  "sha1_pad m = m @ [0x80] @ replicate ((119 - length m mod 64) mod 64) 0 @ be64 (8 * length m)"

definition sha1_spec :: "bytes \<Rightarrow> digest" where
  "sha1_spec m = foldl fips_compress fips_H0 (chunks (sha1_pad m))"

section \<open>The code computes the compression function\<close>

lemma message_schedule_upto:
  "16 \<le> n \<Longrightarrow> foldl W_next (W_init M) [16..<n] = map (fips_W M) [0..<n]"
proof (induction n rule: nat_induct_at_least)
  case base
  show ?case by (simp add: W_init_def fips_W.simps [of M])
next
  case (Suc n)
  have w: "fips_W M n = SHA1CircularShift 1
      (fips_W M (n-3) XOR fips_W M (n-8) XOR fips_W M (n-14) XOR fips_W M (n-16))"
    using Suc.hyps by (subst fips_W.simps) simp
  have "foldl W_next (W_init M) [16..<Suc n] = W_next (foldl W_next (W_init M) [16..<n]) n"
    using Suc.hyps by simp
  also have "\<dots> = W_next (map (fips_W M) [0..<n]) n" by (simp only: Suc.IH)
  also have "\<dots> = map (fips_W M) [0..<n] @ [fips_W M n]"
    using Suc.hyps unfolding w by (simp add: W_next_def)
  finally show ?case by simp
qed

lemma message_schedule_nth: "t < 80 \<Longrightarrow> message_schedule M ! t = fips_W M t"
proof -
  have "message_schedule M = map (fips_W M) [0..<80]"
    unfolding message_schedule_def by (rule message_schedule_upto) simp
  then show "t < 80 \<Longrightarrow> message_schedule M ! t = fips_W M t"
    using nth_map_upt [of t 80 0 "fips_W M"] by (simp only: diff_zero add_0)
qed

lemma sha1_round_fips:
  assumes "t < 80" "f = fips_f t" "k = fips_K t"
  shows "sha1_round f k (message_schedule M) v t = fips_round M v t"
  using assms by (auto simp: sha1_round_def fips_round_def Let_def message_schedule_nth split: prod.split)

lemma sha1_round_foldl:
  assumes "\<forall>t\<in>set ts. t < 80 \<and> f = fips_f t \<and> k = fips_K t"
  shows "foldl (sha1_round f k (message_schedule M)) v ts = foldl (fips_round M) v ts"
  using assms by (induction ts arbitrary: v) (simp_all add: sha1_round_fips)

lemma sha1_rounds_fips: "sha1_rounds (message_schedule M) v = foldl (fips_round M) v [0..<80]"
proof -
  have f: "\<forall>t\<in>set [0..<20]. t < 80 \<and> (\<lambda>B C D. (B AND C) OR (NOT B AND D)) = fips_f t \<and> 0x5A827999 = fips_K t"
    "\<forall>t\<in>set [20..<40]. t < 80 \<and> (\<lambda>B C D. B XOR C XOR D) = fips_f t \<and> 0x6ED9EBA1 = fips_K t"
    "\<forall>t\<in>set [40..<60]. t < 80 \<and> (\<lambda>B C D. (B AND C) OR (B AND D) OR (C AND D)) = fips_f t \<and> 0x8F1BBCDC = fips_K t"
    "\<forall>t\<in>set [60..<80]. t < 80 \<and> (\<lambda>B C D. B XOR C XOR D) = fips_f t \<and> 0xCA62C1D6 = fips_K t"
    by (auto simp: fips_f_def fips_K_def fun_eq_iff)
  have "[0..<80] = [0..<20] @ [20..<40] @ [40..<60] @ [60..<80 :: nat]"
    using upt_add_eq_append [of 0 60 20] upt_add_eq_append [of 0 40 20] upt_add_eq_append [of 0 20 20]
    by simp
  then have "foldl (fips_round M) v [0..<80] = foldl (fips_round M) (foldl (fips_round M)
      (foldl (fips_round M) (foldl (fips_round M) v [0..<20]) [20..<40]) [40..<60]) [60..<80]"
    by (simp only: foldl_append)
  then show ?thesis
    unfolding sha1_rounds_def Let_def by (simp only: f [THEN sha1_round_foldl])
qed

lemma process_block:
  "SHA1ProcessMessageBlock c = c\<lparr>Message_Digest := fips_compress (Message_Digest c) (Message_Block c),
     Message_Block_Index := 0\<rparr>"
  by (simp add: SHA1ProcessMessageBlock_def fips_compress_def sha1_rounds_fips)


section \<open>Blocks of a message\<close>

lemma chunks_short: "length m < 64 \<Longrightarrow> chunks m = []"
  by (subst chunks.simps) simp

lemma chunks_append: "64 dvd length xs \<Longrightarrow> chunks (xs @ ys) = chunks xs @ chunks ys"
proof (induction xs rule: chunks.induct)
  case (1 m)
  show ?case
  proof (cases "length m < 64")
    case True
    then have "m = []" using 1(2) by (auto elim: dvdE)
    then show ?thesis by (simp add: chunks_short)
  next
    case False
    then have "64 dvd length (drop 64 m)" using 1(2) by (simp add: dvd_diff_nat)
    then have "chunks (drop 64 m @ ys) = chunks (drop 64 m) @ chunks ys"
      using 1(1) False by simp
    then show ?thesis
      using False by (subst (1 2) chunks.simps) simp
  qed
qed

lemma chunks_block: "length b = 64 \<Longrightarrow> chunks b = [b]"
  by (subst chunks.simps) (simp add: chunks_short)

text \<open>The part of a message that is still in the block, and the whole blocks before it.\<close>

definition tail_of :: "bytes \<Rightarrow> bytes" where
  "tail_of m = drop (64 * (length m div 64)) m"

lemma tail_of_split:
  "length (tail_of m) = length m mod 64" "length (tail_of m) < 64"
  "chunks (m @ ys) = chunks m @ chunks (tail_of m @ ys)"
proof -
  have l: "length m = 64 * (length m div 64) + length m mod 64" by simp
  show len: "length (tail_of m) = length m mod 64"
    unfolding tail_of_def length_drop using l by linarith
  then show "length (tail_of m) < 64" by simp
  let ?h = "take (64 * (length m div 64)) m"
  have "length ?h = 64 * (length m div 64)" by simp
  then have h: "64 dvd length ?h" by (simp only: dvd_triv_left)
  have m: "m = ?h @ tail_of m" by (simp add: tail_of_def)
  have "chunks (?h @ (tail_of m @ ys)) = chunks ?h @ chunks (tail_of m @ ys)"
    using h by (rule chunks_append)
  moreover have "chunks (?h @ tail_of m) = chunks ?h @ chunks (tail_of m)"
    using h by (rule chunks_append)
  moreover have "chunks (tail_of m) = []" using len by (intro chunks_short) simp
  ultimately show "chunks (m @ ys) = chunks m @ chunks (tail_of m @ ys)"
    using m by (metis append_assoc append_Nil2)
qed

lemma tail_of_snoc:
  "tail_of (m @ [b]) = (if length m mod 64 = 63 then [] else tail_of m @ [b])"
proof -
  have "Suc (length m) div 64 = (if length m mod 64 = 63 then Suc (length m div 64) else length m div 64)"
    by (simp add: div_Suc mod_Suc)
  moreover have "64 * (length m div 64) + length m mod 64 = length m" by simp
  moreover have "64 * (length m div 64) \<le> length m" by simp
  ultimately show ?thesis by (auto simp: tail_of_def)
qed

section \<open>The state after feeding a message\<close>

definition fed :: "SHA1Context \<Rightarrow> bytes \<Rightarrow> bool" where
  "fed c m \<longleftrightarrow> \<not> Computed c \<and> \<not> Corrupted c \<and> length (Message_Block c) = 64
     \<and> Message_Block_Index c = length m mod 64
     \<and> take (length m mod 64) (Message_Block c) = tail_of m
     \<and> Message_Digest c = foldl fips_compress fips_H0 (chunks m)
     \<and> 2 ^ 32 * unat (Length_High c) + unat (Length_Low c) = 8 * length m"

lemma fed_reset: "length (Message_Block c) = 64 \<Longrightarrow> fed (SHA1Reset c) []"
  by (simp add: fed_def SHA1Reset_def tail_of_def chunks_short fips_H0_def)

lemma put_byte_ok:
  assumes "length (Message_Block c) = 64" "Message_Block_Index c < 64"
  shows "put_byte b c = Inr (c\<lparr>Message_Block := (Message_Block c)[Message_Block_Index c := b],
    Message_Block_Index := Message_Block_Index c + 1\<rparr>)"
proof -
  have "wr (Message_Block c) (Message_Block_Index c) [b]
      = Inr ((Message_Block c)[Message_Block_Index c := b])"
    using assms by (simp add: wr_def upd_conv_take_nth_drop)
  then show ?thesis by (simp add: put_byte_def)
qed

text \<open>The 64-bit counter: adding 8 to a multiple of 8 carries exactly when the low word gets 0.\<close>

lemma counter_add:
  fixes L H :: u32
  assumes n: "2 ^ 32 * unat H + unat L = 8 * n" and le: "8 * Suc n < 2 ^ 64"
  shows "L + 8 = 0 \<Longrightarrow> H + 1 \<noteq> 0 \<and> 2 ^ 32 * unat (H + 1) = 8 * Suc n"
    and "L + 8 \<noteq> 0 \<Longrightarrow> 2 ^ 32 * unat H + unat (L + 8) = 8 * Suc n"
proof -
  have "4294967296 * unat H + unat L = 8 * n" using n by simp
  then have L8: "unat L mod 8 = 0" by presburger
  have Lb: "unat L < 4294967296" by (rule unat_u32_less)
  have sum: "unat (L + 8) = (unat L + 8) mod 4294967296" by (simp add: unat_word_ariths)
  have Lle: "unat L \<le> 4294967288" using L8 Lb by presburger
  have z: "L + 8 = 0 \<longleftrightarrow> unat L = 4294967288"
  proof -
    have "L + 8 = 0 \<longleftrightarrow> unat (L + 8) = 0" by (simp add: unat_eq_0)
    also have "\<dots> \<longleftrightarrow> unat L = 4294967288"
      unfolding sum using Lle by (cases "unat L = 4294967288") auto
    finally show ?thesis .
  qed
  show "L + 8 = 0 \<Longrightarrow> H + 1 \<noteq> 0 \<and> 2 ^ 32 * unat (H + 1) = 8 * Suc n"
  proof -
    assume "L + 8 = 0"
    then have "unat L = 4294967288" by (simp add: z)
    then have e: "4294967296 * (unat H + 1) = 8 * Suc n" using n by simp
    then have "unat H + 1 < 4294967296" using le by simp
    then have "unat (H + 1) = unat H + 1" by (simp add: unat_word_ariths)
    then show ?thesis using e by (auto simp: unat_eq_0)
  qed
  show "L + 8 \<noteq> 0 \<Longrightarrow> 2 ^ 32 * unat H + unat (L + 8) = 8 * Suc n"
  proof -
    assume "L + 8 \<noteq> 0"
    then have "unat L + 8 < 4294967296" using Lle by (simp add: z)
    then have "unat (L + 8) = unat L + 8" by (simp add: sum)
    then show ?thesis using n by simp
  qed
qed

lemma input_byte_fed:
  assumes f: "fed c m" and len: "8 * Suc (length m) < 2 ^ 64"
  shows "\<exists>c'. input_byte c b = Inr c' \<and> fed c' (m @ [b])"
proof -
  let ?i = "length m mod 64" and ?B = "Message_Block c"
  have i: "?i < 64" "Message_Block_Index c = ?i" "length ?B = 64" "take ?i ?B = tail_of m"
    using f by (simp_all add: fed_def)
  define c1 where "c1 = c\<lparr>Message_Block := ?B[?i := b], Message_Block_Index := ?i + 1\<rparr>"
  define c2 where "c2 = c1\<lparr>Length_Low := Length_Low c + 8\<rparr>"
  define c3 where "c3 = (if Length_Low c2 = 0 then c2\<lparr>Length_High := Length_High c + 1\<rparr> else c2)"
  have p: "put_byte b c = Inr c1" using put_byte_ok [of c b] i by (simp add: c1_def)
  have n: "2 ^ 32 * unat (Length_High c) + unat (Length_Low c) = 8 * length m"
    using f by (simp add: fed_def)
  note cnt = counter_add [OF n len]
  have c3: "2 ^ 32 * unat (Length_High c3) + unat (Length_Low c3) = 8 * length (m @ [b])"
    using cnt by (cases "Length_Low c + 8 = 0") (simp_all add: c3_def c2_def c1_def)
  have sel: "\<not> Computed c3" "\<not> Corrupted c3" "Message_Block c3 = ?B[?i := b]"
    "Message_Block_Index c3 = ?i + 1" "Message_Digest c3 = foldl fips_compress fips_H0 (chunks m)"
    using f by (simp_all add: c3_def c2_def c1_def fed_def)
  have run: "input_byte c b = Inr (if ?i + 1 = 64 then SHA1ProcessMessageBlock c3 else c3)"
  proof -
    have "Length_Low c + 8 = 0 \<Longrightarrow> Length_High c + 1 \<noteq> 0" using cnt(1) by blast
    then show ?thesis
      using sel(4) by (simp add: input_byte_def p Let_def c3_def c2_def c1_def)
  qed
  have upd: "take (Suc ?i) (?B[?i := b]) = tail_of m @ [b]"
    using i by (simp add: take_Suc_conv_app_nth)
  show ?thesis
  proof (cases "?i = 63")
    case True
    then have blk: "?B[?i := b] = tail_of m @ [b]" using upd i(3) by simp
    have "chunks (m @ [b]) = chunks m @ [tail_of m @ [b]]"
      unfolding tail_of_split(3) [of m "[b]"] using True tail_of_split(1) [of m]
      by (simp add: chunks_block)
    moreover have "Suc (length m) mod 64 = 0" using True by (simp add: mod_Suc)
    ultimately have "fed (SHA1ProcessMessageBlock c3) (m @ [b])"
      using sel c3 i(3) True blk tail_of_split(1) [of m]
      by (simp add: fed_def process_block tail_of_snoc)
    then show ?thesis using run True by simp
  next
    case False
    then have "chunks (tail_of m @ [b]) = []"
      using i(1) by (intro chunks_short) (simp add: tail_of_split(1))
    then have "chunks (m @ [b]) = chunks m"
      unfolding tail_of_split(3) [of m "[b]"] by (simp only: append_Nil2)
    moreover have "Suc (length m) mod 64 = Suc ?i" using False by (simp add: mod_Suc)
    ultimately have "fed c3 (m @ [b])"
      using sel c3 i(3) False upd by (simp add: fed_def tail_of_snoc)
    then show ?thesis using run False by simp
  qed
qed

lemma input_loop_fed:
  assumes "fed c m" "8 * (length m + length bs) < 2 ^ 64"
  shows "\<exists>c'. input_loop c bs (length bs) = Inr c' \<and> fed c' (m @ bs)"
  using assms
proof (induction bs arbitrary: c m)
  case (Cons b bs)
  have "8 * Suc (length m) < 2 ^ 64" using Cons.prems(2) by simp
  then obtain c1 where "input_byte c b = Inr c1" "fed c1 (m @ [b])"
    using input_byte_fed [OF Cons.prems(1)] by blast
  moreover have "\<exists>c'. input_loop c1 bs (length bs) = Inr c' \<and> fed c' ((m @ [b]) @ bs)"
    by (rule Cons.IH) (use \<open>fed c1 (m @ [b])\<close> Cons.prems(2) in simp_all)
  moreover have "\<not> Corrupted c" using Cons.prems(1) by (simp add: fed_def)
  ultimately show ?case by simp
qed auto

lemma SHA1Input_fed:
  assumes "fed c m" "8 * (length m + length bs) < 2 ^ 64" "unat len = length bs"
  shows "\<exists>c'. SHA1Input c bs len = Inr c' \<and> fed c' (m @ bs)"
proof (cases "len = 0")
  case True
  then show ?thesis using assms by (auto simp: SHA1Input_def)
next
  case False
  then show ?thesis
    using input_loop_fed [OF assms(1,2)] assms(1,3) by (auto simp: SHA1Input_def fed_def)
qed


section \<open>Padding\<close>

lemma zero_fill_ok:
  assumes "length (Message_Block c) = 64" "Message_Block_Index c \<le> n" "n \<le> 64"
  shows "zero_fill n c = Inr (c\<lparr>Message_Block := take (Message_Block_Index c) (Message_Block c)
      @ replicate (n - Message_Block_Index c) 0 @ drop n (Message_Block c),
    Message_Block_Index := n\<rparr>)"
  using assms
proof (induction n c rule: zero_fill.induct)
  case (1 n c)
  let ?i = "Message_Block_Index c" and ?B = "Message_Block c"
  show ?case
  proof (cases "?i < n")
    case True
    let ?c = "c\<lparr>Message_Block := ?B[?i := 0], Message_Block_Index := ?i + 1\<rparr>"
    have p: "put_byte 0 c = Inr ?c" using put_byte_ok [of c 0] "1.prems" True by simp
    have t: "take (Suc ?i) (?B[?i := 0]) = take ?i ?B @ [0]"
      using "1.prems" True by (simp add: take_Suc_conv_app_nth)
    have d: "drop n (?B[?i := 0]) = drop n ?B" using True by simp
    have r: "0 # replicate (n - Suc ?i) 0 = replicate (n - ?i) (0 :: u8)"
      using True by (metis Suc_diff_Suc replicate_Suc)
    have "zero_fill n ?c = Inr (?c\<lparr>Message_Block := take (?i + 1) (?B[?i := 0])
        @ replicate (n - (?i + 1)) 0 @ drop n (?B[?i := 0]), Message_Block_Index := n\<rparr>)"
      using "1.IH" [OF True p] "1.prems" True by simp
    then show ?thesis
      using True p t d r by (subst zero_fill.simps) simp
  next
    case False
    then have "?i = n" using "1.prems" by simp
    then show ?thesis by (subst zero_fill.simps) simp
  qed
qed

lemma word_octet: "ucast (drop_bit k (w :: u32)) = (of_nat (unat w div 2 ^ k) :: u8)"
proof -
  have "take_bit 32 (unat w) = unat w" using unat_u32_less [of w] by (simp add: take_bit_eq_mod)
  then have "unat (drop_bit k w) = unat w div 2 ^ k"
    by (simp add: unsigned_drop_bit_eq drop_bit_eq_div [of k "unat w"])
  moreover have "ucast v = (of_nat (unat v) :: u8)" for v :: u32 by simp
  ultimately show ?thesis by metis
qed

lemma of_nat_u8_cong: "a mod 256 = b mod 256 \<Longrightarrow> (of_nat a :: u8) = of_nat b"
  by (simp add: word_of_nat_eq_iff take_bit_eq_mod)

text \<open>The eight length octets are the big-endian 64-bit length.\<close>

lemma length_octets_be64:
  assumes n: "2 ^ 32 * unat (Length_High c) + unat (Length_Low c) = n"
  shows "length_octets c = be64 n"
proof -
  let ?H = "unat (Length_High c)" and ?L = "unat (Length_Low c)"
  have L: "?L < 4294967296" by (rule unat_u32_less)
  have n': "n = 4294967296 * ?H + ?L" using n by simp
  have hi: "n div (4294967296 * k) = ?H div k" if "0 < k" for k
  proof -
    have "n div 4294967296 = ?H" using L by (simp add: n')
    then show ?thesis by (simp add: div_mult2_eq)
  qed
  have lo: "n div k mod 256 = ?L div k mod 256" if "k * j = 4294967296" "256 dvd j" "0 < k" for k j
  proof -
    have "n div k = j * ?H + ?L div k"
      using that(3) unfolding n' that(1) [symmetric] by (simp add: mult.assoc)
    then show ?thesis using that(2) by (auto elim!: dvdE simp: mult.assoc)
  qed
  have e: "[0..<8] = [0, 1, 2, 3, 4, 5, 6, 7 :: nat]" by (simp add: upt_rec)
  have "be64 n = map (\<lambda>k. of_nat (n div k)) [72057594037927936, 281474976710656, 1099511627776,
      4294967296, 16777216, 65536, 256, 1]"
    unfolding be64_def e by simp
  moreover have "(of_nat (n div 72057594037927936) :: u8) = ucast (drop_bit 24 (Length_High c))"
    "(of_nat (n div 281474976710656) :: u8) = ucast (drop_bit 16 (Length_High c))"
    "(of_nat (n div 1099511627776) :: u8) = ucast (drop_bit 8 (Length_High c))"
    "(of_nat (n div 4294967296) :: u8) = ucast (drop_bit 0 (Length_High c))"
    using hi [of 16777216] hi [of 65536] hi [of 256] hi [of 1] unfolding word_octet by simp_all
  moreover have "(of_nat (n div 16777216) :: u8) = ucast (drop_bit 24 (Length_Low c))"
    "(of_nat (n div 65536) :: u8) = ucast (drop_bit 16 (Length_Low c))"
    "(of_nat (n div 256) :: u8) = ucast (drop_bit 8 (Length_Low c))"
    "(of_nat (n div 1) :: u8) = ucast (drop_bit 0 (Length_Low c))"
    unfolding word_octet
    using lo [of 16777216 256] lo [of 65536 65536] lo [of 256 16777216] lo [of 1 4294967296]
    by - (rule of_nat_u8_cong, simp)+
  ultimately show ?thesis by (simp add: length_octets_def)
qed

lemma length_be64: "length (be64 n) = 8"
  by (simp add: be64_def)

lemma wr_tail: "length xs = 56 \<Longrightarrow> length B = 64 \<Longrightarrow> length o8 = 8 \<Longrightarrow> take 56 B = xs \<Longrightarrow>
   wr B 56 o8 = Inr (xs @ o8)"
  by (simp add: wr_def)

text \<open>Padding a context that has been fed \<open>m\<close> gives the digest of the padded message.\<close>

lemma SHA1PadMessage_fed:
  assumes f: "fed c m"
  shows "\<exists>c'. SHA1PadMessage c = Inr c' \<and> Message_Digest c' = sha1_spec m \<and> \<not> Corrupted c'"
proof -
  let ?i = "length m mod 64" and ?B = "Message_Block c" and ?L = "be64 (8 * length m)"
  have i: "?i < 64" "Message_Block_Index c = ?i" "length ?B = 64" "take ?i ?B = tail_of m"
    "\<not> Corrupted c" "Message_Digest c = foldl fips_compress fips_H0 (chunks m)"
    using f by (simp_all add: fed_def)
  have lt: "length (tail_of m) = ?i" by (rule tail_of_split)
  define c1 where "c1 = c\<lparr>Message_Block := ?B[?i := 0x80], Message_Block_Index := ?i + 1\<rparr>"
  have p: "put_byte 0x80 c = Inr c1" using put_byte_ok [of c "0x80"] i by (simp add: c1_def)
  have t1: "take (Suc ?i) (Message_Block c1) = tail_of m @ [0x80]"
    using i by (simp add: c1_def take_Suc_conv_app_nth)
  have c1: "length (Message_Block c1) = 64" "Message_Block_Index c1 = Suc ?i" "\<not> Corrupted c1"
    "Message_Digest c1 = Message_Digest c" "Length_High c1 = Length_High c" "Length_Low c1 = Length_Low c"
    using i by (simp_all add: c1_def)
  have oct: "length_octets c' = ?L" if "Length_High c' = Length_High c" "Length_Low c' = Length_Low c" for c'
    using length_octets_be64 [of c] f that by (simp add: fed_def length_octets_def)
  have spec: "sha1_spec m = foldl fips_compress (foldl fips_compress fips_H0 (chunks m))
      (chunks (tail_of m @ 0x80 # replicate ((119 - ?i) mod 64) 0 @ ?L))"
    unfolding sha1_spec_def sha1_pad_def tail_of_split(3) [of m "[0x80] @ _"] by simp
  show ?thesis
  proof (cases "?i > 55")
    case True
    define b1 where "b1 = tail_of m @ 0x80 # replicate (63 - ?i) 0"
    define c2 where "c2 = c1\<lparr>Message_Block := b1, Message_Block_Index := 64\<rparr>"
    define c3 where "c3 = SHA1ProcessMessageBlock c2"
    define c4 where "c4 = c3\<lparr>Message_Block := replicate 56 0 @ drop 56 b1, Message_Block_Index := 56\<rparr>"
    have b1: "length b1 = 64" using i(1) lt by (simp add: b1_def)
    have z1: "zero_fill 64 c1 = Inr c2"
      using zero_fill_ok [of c1 64] c1 t1 i(1) by (simp add: c2_def b1_def)
    have c3: "Message_Block c3 = b1" "Message_Block_Index c3 = 0"
      by (simp_all add: c3_def c2_def process_block)
    have z2: "zero_fill 56 c3 = Inr c4"
      using zero_fill_ok [of c3 56] b1 c3 by (simp add: c4_def)
    have w: "wr (Message_Block c4) 56 (length_octets c4) = Inr (replicate 56 0 @ ?L)"
      using wr_tail [of "replicate 56 0" "Message_Block c4" ?L] b1 oct [of c4]
      by (simp add: c4_def c3_def c2_def c1_def process_block length_be64)
    let ?c5 = "SHA1ProcessMessageBlock (c4\<lparr>Message_Block := replicate 56 0 @ ?L\<rparr>)"
    have run: "SHA1PadMessage c = Inr ?c5"
      using True i(2) p z1 z2 w by (simp add: SHA1PadMessage_def flip: c3_def)
    have "(119 - ?i) mod 64 = 119 - ?i" using True i(1) by simp
    moreover have "replicate (119 - ?i) 0 = replicate (63 - ?i) (0 :: u8) @ replicate 56 0"
      using i(1) by (simp flip: replicate_add)
    ultimately have s: "tail_of m @ 0x80 # replicate ((119 - ?i) mod 64) 0 @ ?L = b1 @ (replicate 56 0 @ ?L)"
      by (simp add: b1_def)
    have ch: "chunks (b1 @ (replicate 56 0 @ ?L)) = [b1, replicate 56 0 @ ?L]"
      using chunks_append [of b1 "replicate 56 0 @ ?L"] b1 by (simp add: chunks_block length_be64)
    have "sha1_spec m = fips_compress (fips_compress (Message_Digest c) b1) (replicate 56 0 @ ?L)"
      unfolding spec i(6) s ch by simp
    then show ?thesis
      using run i(5) by (simp add: process_block c4_def c3_def c2_def c1_def)
  next
    case False
    define b1 where "b1 = tail_of m @ 0x80 # replicate (55 - ?i) 0"
    define c2 where "c2 = c1\<lparr>Message_Block := b1 @ drop 56 (Message_Block c1), Message_Block_Index := 56\<rparr>"
    have b1: "length b1 = 56" using False lt by (simp add: b1_def)
    have z1: "zero_fill 56 c1 = Inr c2"
      using zero_fill_ok [of c1 56] c1 t1 False by (simp add: c2_def b1_def)
    have w: "wr (Message_Block c2) 56 (length_octets c2) = Inr (b1 @ ?L)"
      using wr_tail [of b1 "Message_Block c2" ?L] b1 c1 oct [of c2]
      by (simp add: c2_def length_be64)
    let ?c3 = "SHA1ProcessMessageBlock (c2\<lparr>Message_Block := b1 @ ?L\<rparr>)"
    have run: "SHA1PadMessage c = Inr ?c3"
      using False i(2) p z1 w by (simp add: SHA1PadMessage_def)
    have "(119 - ?i) mod 64 = 55 - ?i" using False by (subst le_mod_geq) simp_all
    then have s: "tail_of m @ 0x80 # replicate ((119 - ?i) mod 64) 0 @ ?L = b1 @ ?L"
      by (simp add: b1_def)
    have ch: "chunks (b1 @ ?L) = [b1 @ ?L]" using b1 by (intro chunks_block) (simp only: length_append length_be64)
    have "sha1_spec m = fips_compress (Message_Digest c) (b1 @ ?L)"
      unfolding spec i(6) s ch by simp
    then show ?thesis using run i(5) by (simp add: process_block c2_def c1_def)
  qed
qed

section \<open>The test vector of the standard\<close>

text \<open>The padded message \<open>abc\<close>, its 80 words, and the registers after each of the four loops.\<close>

definition abc_block :: bytes where
  "abc_block = [97, 98, 99, 0x80] @ replicate 59 0 @ [24]"

definition abc_W :: "u32 list" where
  "abc_W = [0x61626380, 0x0, 0x0, 0x0, 0x0, 0x0, 0x0, 0x0,
     0x0, 0x0, 0x0, 0x0, 0x0, 0x0, 0x0, 0x18,
     0xC2C4C700, 0x0, 0x30, 0x85898E01, 0x0, 0x60, 0xB131C03, 0x30,
     0x85898EC1, 0x16263806, 0x0, 0x180, 0x2C4C700C, 0xF0, 0x93AFB507, 0x5898E048,
     0x8E9A9202, 0x600, 0xB131C0F0, 0x16263BC6, 0x4EBED41E, 0x626380A1, 0x16263806, 0x18C0,
     0xD2E138C4, 0xF00, 0x3AFB5079, 0x898E04E5, 0xE2BA3C2B, 0x60C0, 0x53A37CD, 0x74458547,
     0xDA9415ED, 0x26380A16, 0x626383A1, 0x4EBF54DE, 0x3835B44B, 0xF600, 0x1E84C7A3, 0x98E04D98,
     0x651D16A0, 0x62658CA1, 0x458544D6, 0x44584CB7, 0x7BA06619, 0x6380AEA2, 0xAE55269, 0x627B49A1,
     0x7CD45C9D, 0xF0000, 0xFB50753A, 0xEC6765E8, 0xBA3C2BE2, 0x60C000, 0x3A37CD05, 0x458546F4,
     0xB8599DD6, 0x380A1A26, 0x1E02203, 0xE7CC3456, 0xE6E60B69, 0xF60A00, 0x5795EF4F, 0x822E0879]"

lemmas sha1_eval = upt_rec SHA1CircularShift_def push_bit_eq_mult drop_bit_eq_div Let_def

lemma abc_W_init: "W_init abc_block = take 16 abc_W"
  by (simp add: sha1_eval W_init_def abc_block_def abc_W_def nth_append nth_Cons')

lemma abc_W_32: "foldl W_next (take 16 abc_W) [16..<32] = take 32 abc_W"
  by (simp add: sha1_eval W_next_def abc_W_def)

lemma abc_W_48: "foldl W_next (take 32 abc_W) [32..<48] = take 48 abc_W"
  by (simp add: sha1_eval W_next_def abc_W_def)

lemma abc_W_64: "foldl W_next (take 48 abc_W) [48..<64] = take 64 abc_W"
  by (simp add: sha1_eval W_next_def abc_W_def)

lemma abc_W_80: "foldl W_next (take 64 abc_W) [64..<80] = take 80 abc_W"
  by (simp add: sha1_eval W_next_def abc_W_def)

lemma abc_schedule: "message_schedule abc_block = abc_W"
proof -
  have "[16..<80] = [16..<32] @ [32..<48] @ [48..<64] @ [64..<80 :: nat]"
    using upt_add_eq_append [of 16 64 16] upt_add_eq_append [of 16 48 16] upt_add_eq_append [of 16 32 16]
    by simp
  then have "message_schedule abc_block = take 80 abc_W"
    unfolding message_schedule_def abc_W_init
    by (simp only: foldl_append abc_W_32 abc_W_48 abc_W_64 abc_W_80)
  then show ?thesis by (simp add: abc_W_def)
qed

lemma abc_rounds_20:
  "foldl (sha1_round (\<lambda>B C D. (B AND C) OR (NOT B AND D)) 0x5A827999 abc_W)
     (0x67452301, 0xEFCDAB89, 0x98BADCFE, 0x10325476, 0xC3D2E1F0) [0..<20]
   = (0xFD9E1D7D, 0xDC64901D, 0x20AA99CA, 0xD3A49608, 0xC82F758B)"
  by (simp add: sha1_eval sha1_round_def abc_W_def)

lemma abc_rounds_40:
  "foldl (sha1_round (\<lambda>B C D. B XOR C XOR D) 0x6ED9EBA1 abc_W)
     (0xFD9E1D7D, 0xDC64901D, 0x20AA99CA, 0xD3A49608, 0xC82F758B) [20..<40]
   = (0x32DE1CBA, 0x4C986405, 0xF718E5CF, 0x3D447F6, 0xF72EEC32)"
  by (simp add: sha1_eval sha1_round_def abc_W_def)

lemma abc_rounds_60:
  "foldl (sha1_round (\<lambda>B C D. (B AND C) OR (B AND D) OR (C AND D)) 0x8F1BBCDC abc_W)
     (0x32DE1CBA, 0x4C986405, 0xF718E5CF, 0x3D447F6, 0xF72EEC32) [40..<60]
   = (0x3F52DE5A, 0x9D785FD, 0x3498BFD4, 0xF211824F, 0xD79915AB)"
  by (simp add: sha1_eval sha1_round_def abc_W_def)

lemma abc_rounds_80:
  "foldl (sha1_round (\<lambda>B C D. B XOR C XOR D) 0xCA62C1D6 abc_W)
     (0x3F52DE5A, 0x9D785FD, 0x3498BFD4, 0xF211824F, 0xD79915AB) [60..<80]
   = (0x42541B35, 0x5738D5E1, 0x21834873, 0x681E6DF6, 0xD8FDF6AD)"
  by (simp add: sha1_eval sha1_round_def abc_W_def)

lemma abc_compress: "fips_compress fips_H0 abc_block = (0xA9993E36, 0x4706816A, 0xBA3E2571, 0x7850C26C, 0x9CD0D89D)"
proof -
  have "sha1_rounds abc_W fips_H0 = (0x42541B35, 0x5738D5E1, 0x21834873, 0x681E6DF6, 0xD8FDF6AD)"
    unfolding sha1_rounds_def Let_def fips_H0_def
    by (simp only: abc_rounds_20 abc_rounds_40 abc_rounds_60 abc_rounds_80)
  then show ?thesis
    unfolding fips_compress_def sha1_rounds_fips [symmetric] abc_schedule
    by (simp add: digest_add_def fips_H0_def)
qed

lemma sha1_abc: "sha1_spec [97, 98, 99] = (0xA9993E36, 0x4706816A, 0xBA3E2571, 0x7850C26C, 0x9CD0D89D)"
proof -
  have "be64 24 = replicate 7 0 @ [24]"
  proof -
    have "replicate 7 (0 :: u8) = [0, 0, 0, 0, 0, 0, 0]" by code_simp
    then show ?thesis by (simp add: be64_def upt_rec)
  qed
  then have "sha1_pad [97, 98, 99] = abc_block"
    using replicate_add [of 52 7 "0 :: u8"] by (simp add: sha1_pad_def abc_block_def)
  moreover have "chunks abc_block = [abc_block]" by (intro chunks_block) (simp add: abc_block_def)
  ultimately show ?thesis by (simp add: sha1_spec_def abc_compress)
qed

section \<open>The hash of a message fed in parts\<close>

text \<open>A client's use of the interface: one \<open>SHA1Input\<close> per part of the message.\<close>

fun SHA1Inputs :: "SHA1Context \<Rightarrow> bytes list \<Rightarrow> SHA1Context res" where
  "SHA1Inputs c [] = Inr c"
| "SHA1Inputs c (p # ps) = rbind (SHA1Input c p (of_nat (length p))) (\<lambda>c. SHA1Inputs c ps)"

lemma SHA1Inputs_fed:
  assumes "fed c m" "8 * (length m + length (concat ps)) < 2 ^ 64" "\<forall>p\<in>set ps. length p < 2 ^ 32"
  shows "\<exists>c'. SHA1Inputs c ps = Inr c' \<and> fed c' (m @ concat ps)"
  using assms
proof (induction ps arbitrary: c m)
  case (Cons p ps)
  have u: "unat (of_nat (length p) :: u32) = length p"
    using Cons.prems(3) by (simp add: unat_of_nat take_bit_nat_eq_self)
  have "8 * (length m + length p) < 2 ^ 64" using Cons.prems(2) by simp
  then obtain c1 where c1: "SHA1Input c p (of_nat (length p)) = Inr c1" "fed c1 (m @ p)"
    using SHA1Input_fed [OF Cons.prems(1) _ u] by blast
  have "\<exists>c'. SHA1Inputs c1 ps = Inr c' \<and> fed c' ((m @ p) @ concat ps)"
    by (rule Cons.IH) (use c1 Cons.prems in simp_all)
  then show ?case using c1 by simp
qed auto

lemma SHA1Result_fed:
  assumes "fed c m"
  shows "\<exists>c'. SHA1Result c = Inr (c', 1) \<and> Computed c' \<and> Message_Digest c' = sha1_spec m"
proof -
  obtain c' where "SHA1PadMessage c = Inr c'" "Message_Digest c' = sha1_spec m"
    using SHA1PadMessage_fed [OF assms] by blast
  moreover have "\<not> Computed c" "\<not> Corrupted c" using assms by (simp_all add: fed_def)
  ultimately show ?thesis by (simp add: SHA1Result_def)
qed

definition SHA1_blank :: SHA1Context where
  "SHA1_blank = \<lparr>Message_Digest = (0, 0, 0, 0, 0), Length_Low = 0, Length_High = 0,
     Message_Block = replicate 64 0, Message_Block_Index = 0, Computed = False, Corrupted = False\<rparr>"

text \<open>C12: For a message below \<open>2^64\<close> bits, however it is cut into parts, \<open>SHA1Reset\<close>, one
  \<open>SHA1Input\<close> per part and \<open>SHA1Result\<close> stay inside the 64-byte block, report success and leave the
  FIPS 180-1 digest of the whole message in the context.\<close>

theorem sha1_of_parts:
  assumes "length (Message_Block c) = 64" "8 * length (concat parts) < 2 ^ 64"
    "\<forall>p\<in>set parts. length p < 2 ^ 32"
  shows "\<exists>c'. rbind (SHA1Inputs (SHA1Reset c) parts) SHA1Result = Inr (c', 1)
    \<and> Computed c' \<and> Message_Digest c' = sha1_spec (concat parts)"
proof -
  obtain c1 where "SHA1Inputs (SHA1Reset c) parts = Inr c1" "fed c1 ([] @ concat parts)"
    using SHA1Inputs_fed [OF fed_reset [OF assms(1)], of parts] assms(2,3) by auto
  then show ?thesis using SHA1Result_fed [of c1 "concat parts"] by auto
qed

theorem sha1_of_parts_witness:
  "\<exists>c'. rbind (SHA1Inputs (SHA1Reset SHA1_blank) [[97], [98, 99]]) SHA1Result = Inr (c', 1)
    \<and> Message_Digest c' = (0xA9993E36, 0x4706816A, 0xBA3E2571, 0x7850C26C, 0x9CD0D89D)"
  using sha1_of_parts [of SHA1_blank "[[97], [98, 99]]"] sha1_abc
  by (auto simp: SHA1_blank_def)

text \<open>\<open>SHA1ProcessMessageBlock\<close>, with its array of 80 words and its four loops, replaces the digest
  by the FIPS compression of the digest and the block, and rewinds the index.\<close>

theorem process_block_is_compression:
  "SHA1ProcessMessageBlock c = c\<lparr>Message_Digest := fips_compress (Message_Digest c) (Message_Block c),
     Message_Block_Index := 0\<rparr>"
  by (rule process_block)

lemma put_byte_flags: "put_byte b c = Inr c' \<Longrightarrow> Corrupted c' = Corrupted c"
  by (auto simp: put_byte_def rbind_eq_Inr)

lemma zero_fill_flags: "zero_fill n c = Inr c' \<Longrightarrow> Corrupted c' = Corrupted c"
proof (induction n c rule: zero_fill.induct)
  case (1 n c)
  from 1(2) show ?case
    by (subst (asm) zero_fill.simps) (auto split: if_splits sum.splits dest: 1(1) put_byte_flags)
qed

lemma SHA1PadMessage_flags: "SHA1PadMessage c = Inr c' \<Longrightarrow> Corrupted c' = Corrupted c"
  by (auto simp: SHA1PadMessage_def rbind_eq_Inr process_block split: if_splits
      dest!: put_byte_flags zero_fill_flags)

text \<open>Once a digest has been taken, taking it again changes nothing and succeeds; feeding more bytes
  then only marks the context corrupted, after which \<open>SHA1Result\<close> fails.\<close>

theorem sha1_after_result:
  assumes "SHA1Result c = Inr (c', 1)" "len \<noteq> 0"
  shows "SHA1Result c' = Inr (c', 1) \<and> SHA1Input c' bs len = Inr (c'\<lparr>Corrupted := True\<rparr>)
    \<and> SHA1Result (c'\<lparr>Corrupted := True\<rparr>) = Inr (c'\<lparr>Corrupted := True\<rparr>, 0)"
proof -
  have "Computed c'" "\<not> Corrupted c'"
    using assms(1) by (auto simp: SHA1Result_def rbind_eq_Inr dest: SHA1PadMessage_flags split: if_splits)
  then show ?thesis using assms(2) by (simp add: SHA1Result_def SHA1Input_def)
qed

theorem sha1_after_result_witness:
  "SHA1Input (SHA1_blank\<lparr>Computed := True\<rparr>) [7] 1
    = Inr (SHA1_blank\<lparr>Computed := True, Corrupted := True\<rparr>)"
  using sha1_after_result [of "SHA1_blank\<lparr>Computed := True\<rparr>" "SHA1_blank\<lparr>Computed := True\<rparr>" 1 "[7]"]
  by (simp add: SHA1Result_def SHA1_blank_def)

end
