(* ===== verification/Sr_Server_Msg.thy ===== *)
theory Sr_Server_Msg
  imports Sr_Router Sha1
begin

text \<open>
  The messages of \<open>vnscommand.h\<close> that set a session up, and what \<open>sr_vns_comm.c\<close> does with each:
  the hardware information (\<open>sr_handle_hwinfo\<close>), a routing table (\<open>sr_handle_rtable\<close>), the
  challenge of the authentication (\<open>sr_handle_auth_request\<close>, which hashes with \<open>Sha1\<close>) and its
  outcome (\<open>sr_handle_auth_status\<close>). A handler gets the whole message, header included.
\<close>

section \<open>The session\<close>

text \<open>
  The router together with the process around it: what the socket is still going to deliver (a piece
  of the stream, an interrupted call, a broken connection; at the end of the list the peer has
  closed), whether the code has closed it, and the files of the working directory.
\<close>

datatype rx = Data bytes | Signal | Broken

record session =
  inst :: sr_instance
  incoming :: "rx list"
  sock_open :: bool
  files :: "bytes \<Rightarrow> bytes option"

text \<open>
  What a call takes from outside: the environment of the packet handlers, the bytes \<open>malloc\<close> leaves
  in a new interface node, the files that can be opened for writing, and the contents of the two local
  objects \<open>sr_handle_auth_request\<close> does not initialise.
\<close>

record host_env =
  base :: env
  fresh_if :: sr_if
  writable :: "bytes \<Rightarrow> bool"
  key_junk :: bytes
  sha_junk :: SHA1Context

definition IDSIZE :: nat where "IDSIZE = 32"

text \<open>\<open>send\<close> and \<open>write\<close>: the bytes the socket takes are on the wire; the result is their number.\<close>

definition sock_send :: "env \<Rightarrow> sr_instance \<Rightarrow> bytes \<Rightarrow> sr_instance \<times> int" where
  "sock_send E sr m = (let n = sock_write E m
     in (sr\<lparr>wire := wire sr @ (if 0 < n then [take (nat n) m] else [])\<rparr>, n))"

section \<open>Hardware information\<close>

definition HWINTERFACE :: u32 where "HWINTERFACE = 1"
definition HWSPEED :: u32 where "HWSPEED = 2"
definition HWSUBNET :: u32 where "HWSUBNET = 4"
definition HWFIXEDIP :: u32 where "HWFIXEDIP = 16"
definition HWETHER :: u32 where "HWETHER = 32"
definition HWETHIP :: u32 where "HWETHIP = 64"
definition HWMASK :: u32 where "HWMASK = 128"

lemmas HW_defs = HWINTERFACE_def HWSPEED_def HWSUBNET_def HWFIXEDIP_def HWETHER_def HWETHIP_def HWMASK_def

record c_hw_entry =
  mKey :: u32
  hw_value :: bytes

definition sizeof_hw_entry :: nat where "sizeof_hw_entry = 36"

definition enc_hw_entry :: "c_hw_entry \<Rightarrow> bytes" where
  "enc_hw_entry e = le32 (mKey e) @ hw_value e"

definition dec_hw_entry :: "bytes \<Rightarrow> c_hw_entry" where
  "dec_hw_entry bs = \<lparr>mKey = of_le32 (bs ! 0) (bs ! 1) (bs ! 2) (bs ! 3), hw_value = drop 4 bs\<rparr>"

definition hw_entry_ok :: "c_hw_entry \<Rightarrow> bool" where
  "hw_entry_ok e \<longleftrightarrow> length (hw_value e) = 32"

interpretation hw: codec enc_hw_entry dec_hw_entry sizeof_hw_entry hw_entry_ok
proof
  fix bs :: bytes
  assume l: "length bs = sizeof_hw_entry"
  then obtain a b c d r where "bs = a # b # c # d # r"
    by (auto simp: sizeof_hw_entry_def eval_nat_numeral length_Suc_conv)
  then show "enc_hw_entry (dec_hw_entry bs) = bs"
    by (simp add: enc_hw_entry_def dec_hw_entry_def)
  show "hw_entry_ok (dec_hw_entry bs)"
    using l by (simp add: hw_entry_ok_def dec_hw_entry_def sizeof_hw_entry_def)
qed (simp_all add: enc_hw_entry_def dec_hw_entry_def hw_entry_ok_def sizeof_hw_entry_def le32_def)

text \<open>One turn of the loop: the cases that only print change nothing.\<close>

definition hw_apply :: "host_env \<Rightarrow> sr_instance \<Rightarrow> c_hw_entry \<Rightarrow> sr_instance res" where
  "hw_apply H sr e =
     (let key = ntohl (mKey e) in
      if key = HWFIXEDIP then Inr sr
      else if key = HWINTERFACE then Inr (sr_add_interface (fresh_if H) sr (hw_value e))
      else if key = HWSPEED then Inr sr
      else if key = HWSUBNET then Inr sr
      else if key = HWMASK then Inr sr
      else if key = HWETHIP then rbind (rd32 (hw_value e) 0) (sr_set_ether_ip sr)
      else if key = HWETHER then rbind (rd (hw_value e) 0 ETHER_ADDR_LEN) (\<lambda>a. sr_set_ether_addr sr (dec_mac a))
      else Inr sr)"

fun hw_loop :: "host_env \<Rightarrow> bytes \<Rightarrow> nat \<Rightarrow> nat \<Rightarrow> sr_instance \<Rightarrow> sr_instance res" where
  "hw_loop H hwinfo i 0 sr = Inr sr"
| "hw_loop H hwinfo i (Suc n) sr =
     rbind (ld dec_hw_entry sizeof_hw_entry hwinfo (8 + sizeof_hw_entry * i)) (\<lambda>e.
     rbind (hw_apply H sr e) (hw_loop H hwinfo (Suc i) n))"

text \<open>\<open>sizeof\<close> makes the subtraction and the division 64 bits wide; \<open>num_entries\<close> is an \<open>int\<close>.\<close>

definition hw_num_entries :: "u32 \<Rightarrow> int" where
  "hw_num_entries mLen =
     sint (ucast ((ucast (ntohl mLen) - 8 :: 64 word) div of_nat sizeof_hw_entry) :: u32)"

definition sr_handle_hwinfo :: "host_env \<Rightarrow> sr_instance \<Rightarrow> bytes \<Rightarrow> (sr_instance \<times> int) res" where
  "sr_handle_hwinfo H sr hwinfo =
     rbind (rd32 hwinfo 0) (\<lambda>mLen.
     let num_entries = hw_num_entries mLen in
     rbind (hw_loop H hwinfo 0 (nat num_entries) sr) (\<lambda>sr. Inr (sr, num_entries)))"

section \<open>The routing table file\<close>

text \<open>
  \<open>fn\<close> has room for a name of \<open>IDSIZE\<close> characters; \<open>strcat\<close> reads the name to its NUL. The length of
  the table is computed in 32 bits.
\<close>

definition rtable_prefix :: bytes where
  "rtable_prefix = [114, 116, 97, 98, 108, 101, 46]"

definition sr_handle_rtable :: "host_env \<Rightarrow> session \<Rightarrow> bytes \<Rightarrow> (session \<times> int) res" where
  "sr_handle_rtable H s rtable =
     rbind (c_string (drop 8 rtable)) (\<lambda>name.
     if length rtable_prefix + length name + 1 > 7 + IDSIZE + 1 then Inl OutOfBounds
     else let fn = rtable_prefix @ name in
       if writable H fn then
         rbind (rd32 rtable 0) (\<lambda>mLen.
         rbind (rd rtable (8 + IDSIZE) (unat (ntohl mLen - 8 - of_nat IDSIZE))) (\<lambda>contents.
         Inr (s\<lparr>files := (files s)(fn \<mapsto> contents)\<rparr>, 1)))
       else Inr (s, 0))"

section \<open>Authentication\<close>

definition AUTH_KEY_LEN :: nat where "AUTH_KEY_LEN = 64"
definition SHA1_LEN :: nat where "SHA1_LEN = 20"
definition VNS_AUTH_REPLY :: u32 where "VNS_AUTH_REPLY = 256"
definition sizeof_auth_reply :: nat where "sizeof_auth_reply = 12"

definition auth_key_file :: bytes where
  "auth_key_file = [97, 117, 116, 104, 95, 107, 101, 121]"

text \<open>The array after \<open>fgets\<close>: the line, a NUL, and what was there before.\<close>

definition fgets_into :: "bytes \<Rightarrow> bytes \<Rightarrow> bytes" where
  "fgets_into line old = line @ [0] @ drop (length line + 1) old"

definition digest_bytes :: "digest \<Rightarrow> bytes" where
  "digest_bytes = (\<lambda>(a, b, c, d, e).
     le32 (htonl a) @ le32 (htonl b) @ le32 (htonl c) @ le32 (htonl d) @ le32 (htonl e))"

definition auth_reply :: "bytes \<Rightarrow> digest \<Rightarrow> bytes" where
  "auth_reply username dig =
     le32 (htonl (of_nat (sizeof_auth_reply + length username + SHA1_LEN)))
       @ le32 (htonl VNS_AUTH_REPLY) @ le32 (htonl (of_nat (length username)))
       @ username @ digest_bytes dig"

definition sr_handle_auth_request :: "host_env \<Rightarrow> session \<Rightarrow> bytes \<Rightarrow> (session \<times> int) res" where
  "sr_handle_auth_request H s req =
     (case files s auth_key_file of
        None \<Rightarrow> Inr (s, 0)
      | Some contents \<Rightarrow>
        (case c_fgets (AUTH_KEY_LEN + 1) contents of
           None \<Rightarrow> Inr (s, 0)
         | Some (line, _) \<Rightarrow>
           let auth_key = fgets_into line (key_junk H) in
           rbind (rd32 req 0) (\<lambda>mLen.
           rbind (SHA1Input (SHA1Reset (sha_junk H)) (drop 8 req) (ntohl mLen - 8)) (\<lambda>sha1.
           rbind (SHA1Input sha1 auth_key (of_nat AUTH_KEY_LEN)) (\<lambda>sha1.
           rbind (SHA1Result sha1) (\<lambda>(sha1, ok).
           if ok = 0 then Inr (s, 0)
           else
             rbind (c_string (user (inst s))) (\<lambda>username.
             let buf = auth_reply username (Message_Digest sha1);
                 (sr, n) = sock_send (base H) (inst s) buf
             in Inr (s\<lparr>inst := sr\<rparr>,
                     if n \<noteq> int (sizeof_auth_reply + length username + SHA1_LEN) then 0 else 1))))))))"

text \<open>The result is the byte \<open>auth_ok\<close>; both messages print strings.\<close>

definition sr_handle_auth_status :: "session \<Rightarrow> bytes \<Rightarrow> int res" where
  "sr_handle_auth_status s status =
     rbind (rd status 8 1) (\<lambda>b.
     rbind (c_string (user (inst s))) (\<lambda>_.
     if b ! 0 \<noteq> 0 then Inr (uint (b ! 0))
     else rbind (c_string (drop 9 status)) (\<lambda>_. Inr (uint (b ! 0)))))"

section \<open>Reading the hardware information\<close>

text \<open>The entries that fit into a message, and their effects one after the other.\<close>

definition hw_entries :: "bytes \<Rightarrow> c_hw_entry list" where
  "hw_entries buf = map (\<lambda>i. dec_hw_entry (take 36 (drop (8 + 36 * i) buf))) [0..<(length buf - 8) div 36]"

fun apply_entries :: "host_env \<Rightarrow> c_hw_entry list \<Rightarrow> sr_instance \<Rightarrow> sr_instance res" where
  "apply_entries H [] sr = Inr sr"
| "apply_entries H (e # es) sr = rbind (hw_apply H sr e) (apply_entries H es)"

lemma apply_entries_append:
  "apply_entries H (es @ es') sr = rbind (apply_entries H es sr) (apply_entries H es')"
  by (induction es arbitrary: sr) (auto simp: rbind_def split: sum.splits)

lemma hw_loop_entries:
  "8 + 36 * (i + n) \<le> length buf \<Longrightarrow> hw_loop H buf i n sr
     = apply_entries H (map (\<lambda>i. dec_hw_entry (take 36 (drop (8 + 36 * i) buf))) [i..<i + n]) sr"
proof (induction n arbitrary: i sr)
  case (Suc n)
  have "ld dec_hw_entry sizeof_hw_entry buf (8 + sizeof_hw_entry * i)
      = Inr (dec_hw_entry (take 36 (drop (8 + 36 * i) buf)))"
    using Suc.prems hw.ld_ok [of "8 + 36 * i" buf] by (simp add: sizeof_hw_entry_def)
  moreover have "[i..<i + Suc n] = i # [Suc i..<Suc i + n]" by (simp add: upt_conv_Cons)
  moreover have "hw_loop H buf (Suc i) n = apply_entries H
      (map (\<lambda>i. dec_hw_entry (take 36 (drop (8 + 36 * i) buf))) [Suc i..<Suc i + n])"
    by (rule ext, rule Suc.IH) (use Suc.prems in simp)
  ultimately show ?case by (simp only: hw_loop.simps apply_entries.simps list.map rbind_Inr)
qed simp

lemma hw_num_entries:
  assumes "8 \<le> n" "n < 2 ^ 31"
  shows "hw_num_entries (htonl (of_nat n)) = int ((n - 8) div 36)"
proof -
  have u: "(ucast (of_nat n :: u32) :: 64 word) = of_nat n"
    by (rule word_unat_eq_iff [THEN iffD2]) (use assms in \<open>simp add: unsigned_ucast_eq unat_of_nat take_bit_nat_eq_self\<close>)
  have un: "unat (of_nat k :: 64 word) = k" if "k < 2 ^ 31" for k
    using that by (simp add: unat_of_nat take_bit_nat_eq_self)
  have sub: "(of_nat n - 8 :: 64 word) = of_nat (n - 8)" using assms by (simp add: of_nat_diff)
  have dv: "(of_nat k :: 64 word) div of_nat 36 = of_nat (k div 36)" if "k < 2 ^ 31" for k
    by (rule word_unat_eq_iff [THEN iffD2]) (use un [of k] un [of "k div 36"] that in \<open>simp add: unat_div\<close>)
  have quot: "(of_nat (n - 8) :: 64 word) div of_nat 36 = of_nat ((n - 8) div 36)"
    by (rule dv) (use assms(2) in linarith)
  have narrow: "(ucast (of_nat ((n - 8) div 36) :: 64 word) :: u32) = of_nat ((n - 8) div 36)"
    by (rule word_unat_eq_iff [THEN iffD2]) (use assms in \<open>simp add: unsigned_ucast_eq unat_of_nat take_bit_nat_eq_self\<close>)
  have "(n - 8) div 36 < 2 ^ 31" using assms(2) by (simp add: div_less_iff_less_mult)
  then show ?thesis
    unfolding hw_num_entries_def ntohl_def htonl_htonl u sub sizeof_hw_entry_def quot narrow
    by (rule sint_small)
qed

lemma sr_handle_hwinfo_entries:
  assumes "rd32 buf 0 = Inr (htonl (of_nat (length buf)))" "8 \<le> length buf" "length buf < 2 ^ 31"
  shows "sr_handle_hwinfo H sr buf = rbind (apply_entries H (hw_entries buf) sr) (\<lambda>sr'.
    Inr (sr', int ((length buf - 8) div 36)))"
proof -
  have "8 + 36 * (0 + (length buf - 8) div 36) \<le> length buf" using assms(2) by presburger
  from hw_loop_entries [OF this] show ?thesis
    using assms(1) hw_num_entries [OF assms(2,3)]
    by (simp add: sr_handle_hwinfo_def hw_entries_def)
qed

lemma nth_concat_uniform:
  "(\<forall>x\<in>set xs. length (f x) = k) \<Longrightarrow> i < length xs \<Longrightarrow>
   take k (drop (k * i) (concat (map f xs))) = f (xs ! i)"
proof (induction xs arbitrary: i)
  case (Cons x xs)
  then show ?case
  proof (cases i)
    case (Suc j)
    then have "drop (k * i) (concat (map f (x # xs))) = drop (k * j) (concat (map f xs))"
      using Cons.prems(1) by simp
    then show ?thesis using Cons Suc by simp
  qed simp
qed simp

lemma length_concat_uniform:
  "(\<forall>x\<in>set xs. length (f x) = k) \<Longrightarrow> length (concat (map f xs)) = k * length xs"
  by (induction xs) auto

lemma hw_entries_enc:
  assumes "length h = 8" "\<forall>e\<in>set es. hw_entry_ok e"
  shows "hw_entries (h @ concat (map enc_hw_entry es)) = es"
proof (rule nth_equalityI)
  let ?b = "h @ concat (map enc_hw_entry es)"
  have u: "\<forall>e\<in>set es. length (enc_hw_entry e) = 36"
    using assms(2) hw.length_enc by (simp add: sizeof_hw_entry_def)
  have n: "(length ?b - 8) div 36 = length es"
    using assms(1) length_concat_uniform [OF u] by simp
  then show "length (hw_entries ?b) = length es" unfolding hw_entries_def length_map length_upt by simp
  fix i assume "i < length (hw_entries ?b)"
  then have i: "i < length es" using n by (simp add: hw_entries_def)
  have "hw_entries ?b ! i = dec_hw_entry (take 36 (drop (8 + 36 * i) ?b))"
    unfolding hw_entries_def n using i by simp
  also have "drop (8 + 36 * i) ?b = drop (36 * i) (concat (map enc_hw_entry es))" using assms(1) by simp
  also have "take 36 \<dots> = enc_hw_entry (es ! i)" by (rule nth_concat_uniform [OF u i])
  finally show "hw_entries ?b ! i = es ! i" using i assms(2) hw.dec_enc by simp
qed

text \<open>The entries a server sends for an interface, and the node they make.\<close>

definition hw_of :: "bytes \<times> mac \<times> u32 \<Rightarrow> c_hw_entry list" where
  "hw_of = (\<lambda>(name, addr, ip).
     [\<lparr>mKey = htonl HWINTERFACE, hw_value = c_strncpy 32 name\<rparr>,
      \<lparr>mKey = htonl HWETHER, hw_value = enc_mac addr @ replicate 26 0\<rparr>,
      \<lparr>mKey = htonl HWETHIP, hw_value = le32 ip @ replicate 28 0\<rparr>])"

definition hw_if :: "host_env \<Rightarrow> bytes \<times> mac \<times> u32 \<Rightarrow> sr_if" where
  "hw_if H = (\<lambda>(name, addr, ip).
     (fresh_if H)\<lparr>if_name := c_strncpy sr_IFACE_NAMELEN name, if_addr := addr, if_ip := ip\<rparr>)"

definition hwinfo_msg :: "u32 \<Rightarrow> (bytes \<times> mac \<times> u32) list \<Rightarrow> bytes" where
  "hwinfo_msg command ifs = le32 (htonl (of_nat (8 + 108 * length ifs))) @ le32 command
     @ concat (map enc_hw_entry (concat (map hw_of ifs)))"

lemma hw_of_ok: "\<forall>e\<in>set (hw_of t). hw_entry_ok e" "length (hw_of t) = 3"
  by (auto simp: hw_of_def hw_entry_ok_def split: prod.splits)

lemma c_strncpy_idem: "c_strncpy n (c_strncpy n s) = c_strncpy n s"
  unfolding c_strncpy_def [of n "c_strncpy n s"] cstr_strncpy by (simp add: c_strncpy_def min_def)

lemma hw_apply_simps:
  "hw_apply H sr \<lparr>mKey = htonl HWINTERFACE, hw_value = v\<rparr> = Inr (sr_add_interface (fresh_if H) sr v)"
  "hw_apply H sr \<lparr>mKey = htonl HWETHER, hw_value = enc_mac m @ r\<rparr> = sr_set_ether_addr sr m"
  "hw_apply H sr \<lparr>mKey = htonl HWETHIP, hw_value = le32 ip @ r\<rparr> = sr_set_ether_ip sr ip"
  by (simp_all add: hw_apply_def HW_defs rd32_head rd_def ETHER_ADDR_LEN_def)

lemma apply_hw_of:
  "apply_entries H (hw_of t) sr = Inr (sr\<lparr>if_list := if_list sr @ [hw_if H t]\<rparr>)"
proof -
  obtain name addr ip where t: "t = (name, addr, ip)" by (cases t)
  let ?sr = "sr_add_interface (fresh_if H) sr (c_strncpy 32 name)"
  have "sr_IFACE_NAMELEN = 32" by (simp add: sr_IFACE_NAMELEN_def)
  then have l: "?sr = sr\<lparr>if_list := if_list sr @ [(fresh_if H)\<lparr>if_name := c_strncpy sr_IFACE_NAMELEN name\<rparr>]\<rparr>"
    by (simp add: sr_add_interface_def Let_def c_strncpy_idem split: list.split)
  have "apply_entries H (hw_of t) sr = rbind (sr_set_ether_addr ?sr addr) (\<lambda>sr. sr_set_ether_ip sr ip)"
    by (simp add: t hw_of_def hw_apply_simps rbind_def split: sum.split)
  also have "\<dots> = Inr (sr\<lparr>if_list := if_list sr @ [hw_if H t]\<rparr>)"
    unfolding l by (cases "if_list sr")
      (simp_all add: sr_set_ether_addr_def sr_set_ether_ip_def t hw_if_def)
  finally show ?thesis .
qed

lemma apply_hw_all:
  "apply_entries H (concat (map hw_of ifs)) sr = Inr (sr\<lparr>if_list := if_list sr @ map (hw_if H) ifs\<rparr>)"
  by (induction ifs arbitrary: sr) (simp_all add: apply_entries_append apply_hw_of)

section \<open>The answer to a challenge\<close>

text \<open>The array that is hashed after the salt, as a function of the key file.\<close>

definition hashed_key :: "host_env \<Rightarrow> bytes \<Rightarrow> bytes" where
  "hashed_key H contents = take 64 (fgets_into (take 64 (first_line contents)) (key_junk H))"

lemma first_line_no_newline: "10 \<notin> set s \<Longrightarrow> first_line s = s"
  by (induction s) (auto simp: first_line_def)

lemma takeWhile_stops: "x \<in> set s \<Longrightarrow> \<not> P x \<Longrightarrow> length (takeWhile P s) < length s"
  by (induction s) auto

lemma input_loop_take: "n \<le> length bs \<Longrightarrow> input_loop c bs n = input_loop c (take n bs) n"
proof (induction n arbitrary: c bs)
  case (Suc n)
  then obtain b bs' where bs: "bs = b # bs'" by (cases bs) auto
  have "n \<le> length bs'" using Suc.prems bs by simp
  then have e: "(\<lambda>c. input_loop c bs' n) = (\<lambda>c. input_loop c (take n bs') n)"
    by (intro ext Suc.IH)
  show ?case unfolding bs take_Suc_Cons input_loop.simps list.case e ..
qed simp

lemma SHA1Input_take: "unat len \<le> length bs \<Longrightarrow> SHA1Input c bs len = SHA1Input c (take (unat len) bs) len"
  using input_loop_take [of "unat len" bs c] by (simp add: SHA1Input_def)

lemma length_auth_reply: "length (auth_reply name d) = 32 + length name"
  by (simp add: auth_reply_def digest_bytes_def split: prod.split)

text \<open>A challenge message.\<close>

definition auth_request_msg :: "u32 \<Rightarrow> bytes \<Rightarrow> bytes" where
  "auth_request_msg command salt = le32 (htonl (of_nat (8 + length salt))) @ le32 command @ salt"

lemma salted_hash:
  assumes "length (Message_Block (sha_junk H)) = 64" "length salt < 2 ^ 31" "length key = 65"
  shows "\<exists>c1 c2 c3. SHA1Input (SHA1Reset (sha_junk H)) salt (of_nat (length salt)) = Inr c1
    \<and> SHA1Input c1 key 64 = Inr c2 \<and> SHA1Result c2 = Inr (c3, 1)
    \<and> Message_Digest c3 = sha1_spec (salt @ take 64 key)"
proof -
  have "unat (of_nat (length salt) :: u32) = length salt" using assms(2) by (simp add: unat_of_nat)
  moreover have "8 * (length [] + length salt) < 2 ^ 64" using assms(2) by simp
  ultimately obtain c1 where c1: "SHA1Input (SHA1Reset (sha_junk H)) salt (of_nat (length salt)) = Inr c1"
    "fed c1 ([] @ salt)"
    using SHA1Input_fed [OF fed_reset [OF assms(1)], of salt "of_nat (length salt)"] by blast
  have "8 * (length salt + length (take 64 key)) < 2 ^ 64" using assms(2) by simp
  moreover have "unat (64 :: u32) = length (take 64 key)" using assms(3) by simp
  ultimately obtain c2 where "SHA1Input c1 (take 64 key) 64 = Inr c2" "fed c2 (salt @ take 64 key)"
    using SHA1Input_fed [of c1 salt "take 64 key" 64] c1(2) by auto
  moreover have "SHA1Input c1 key 64 = SHA1Input c1 (take 64 key) 64"
    using SHA1Input_take [of 64 key c1] assms(3) by simp
  ultimately show ?thesis using c1(1) SHA1Result_fed [of c2 "salt @ take 64 key"] by auto
qed

section \<open>A session to try the theorems on\<close>

definition ex_host :: host_env where
  "ex_host = \<lparr>base = ex_env, fresh_if = ex_if1\<lparr>if_name := [], if_addr := 0, if_ip := 0\<rparr>,
     writable = (\<lambda>_. True), key_junk = replicate 65 7, sha_junk = SHA1_blank\<rparr>"

definition ex_session :: session where
  "ex_session = \<lparr>inst = ex_router\<lparr>user := [117] @ 0 # replicate 30 0\<rparr>, incoming = [], sock_open = True,
     files = [auth_key_file \<mapsto> replicate 64 65]\<rparr>"

lemma challenge_body:
  assumes "files s auth_key_file = Some contents" "contents \<noteq> []"
    "c_string (user (inst s)) = Inr username"
    "length (key_junk H) = 65" "length (Message_Block (sha_junk H)) = 64" "length salt < 10000"
  shows "sr_handle_auth_request H s (auth_request_msg command salt)
    = (let m = auth_reply username (sha1_spec (salt @ hashed_key H contents));
           (sr, n) = sock_send (base H) (inst s) m
       in Inr (s\<lparr>inst := sr\<rparr>, if n = int (length m) then 1 else 0))"
proof -
  let ?line = "take 64 (first_line contents)" and ?m = "auth_request_msg command salt"
  have fg: "c_fgets (AUTH_KEY_LEN + 1) contents = Some (?line, drop (length ?line) contents)"
    using assms(2) by (simp add: c_fgets_def AUTH_KEY_LEN_def Let_def)
  have key: "length (fgets_into ?line (key_junk H)) = 65" using assms(4) by (simp add: fgets_into_def)
  have mlen: "rd32 ?m 0 = Inr (htonl (of_nat (8 + length salt)))"
    unfolding auth_request_msg_def by (rule rd32_head)
  have sub: "ntohl (htonl (of_nat (8 + length salt))) - 8 = (of_nat (length salt) :: u32)"
    by (simp add: ntohl_def)
  have salt: "drop 8 ?m = salt" by (simp add: auth_request_msg_def)
  obtain c1 c2 c3 where c: "SHA1Input (SHA1Reset (sha_junk H)) salt (of_nat (length salt)) = Inr c1"
    "SHA1Input c1 (fgets_into ?line (key_junk H)) 64 = Inr c2" "SHA1Result c2 = Inr (c3, 1)"
    "Message_Digest c3 = sha1_spec (salt @ hashed_key H contents)"
    using salted_hash [OF assms(5) _ key, of salt] assms(6) unfolding hashed_key_def by auto
  show "sr_handle_auth_request H s ?m
    = (let m = auth_reply username (sha1_spec (salt @ hashed_key H contents));
           (sr, n) = sock_send (base H) (inst s) m
       in Inr (s\<lparr>inst := sr\<rparr>, if n = int (length m) then 1 else 0))"
    unfolding sr_handle_auth_request_def assms(1) option.case fg Let_def prod.case mlen rbind_Inr sub salt c(1)
    using c(2-4) assms(3)
    by (simp add: AUTH_KEY_LEN_def length_auth_reply sizeof_auth_reply_def SHA1_LEN_def split: prod.split)
qed

lemma handle_hwinfo_msg:
  assumes "8 + 108 * length ifs < 2 ^ 31"
  shows "sr_handle_hwinfo H sr (hwinfo_msg command ifs)
    = Inr (sr\<lparr>if_list := if_list sr @ map (hw_if H) ifs\<rparr>, int (3 * length ifs))"
proof -
  let ?es = "concat (map hw_of ifs)" and ?h = "le32 (htonl (of_nat (8 + 108 * length ifs))) @ le32 command"
  have ok: "\<forall>e\<in>set ?es. hw_entry_ok e" using hw_of_ok(1) by auto
  have n: "length ?es = 3 * length ifs" using hw_of_ok(2) by (intro length_concat_uniform) simp
  have m: "hwinfo_msg command ifs = ?h @ concat (map enc_hw_entry ?es)" by (simp add: hwinfo_msg_def)
  have "length (concat (map enc_hw_entry ?es)) = 36 * length ?es"
    using ok hw.length_enc by (intro length_concat_uniform) (simp add: sizeof_hw_entry_def)
  then have len: "length (hwinfo_msg command ifs) = 8 + 108 * length ifs" using n by (simp add: m)
  have "rd32 (hwinfo_msg command ifs) 0 = Inr (htonl (of_nat (length (hwinfo_msg command ifs))))"
    unfolding len unfolding hwinfo_msg_def by (rule rd32_head)
  moreover have "hw_entries (hwinfo_msg command ifs) = ?es"
    unfolding m using ok by (intro hw_entries_enc) simp_all
  ultimately show ?thesis
    using sr_handle_hwinfo_entries [of "hwinfo_msg command ifs" H sr] assms
    by (simp add: len apply_hw_all)
qed

section \<open>Properties\<close>

text \<open>the hardware information of any interfaces (name, address, IP for each, as the server lays
  them out) adds exactly these interfaces, in order, to the interface list.\<close>

theorem hwinfo_configures:
  assumes "8 + 108 * length ifs < 2 ^ 31"
  shows "sr_handle_hwinfo H sr (hwinfo_msg command ifs)
    = Inr (sr\<lparr>if_list := if_list sr @ map (hw_if H) ifs\<rparr>, int (3 * length ifs))"
  using assms by (rule handle_hwinfo_msg)

theorem hwinfo_configures_witness:
  "\<exists>sr'. sr_handle_hwinfo ex_host ex_router (hwinfo_msg 16 [([101, 116, 104, 51], Mac 2 0 0 0 0 3, 7)])
      = Inr (sr', 3) \<and> map if_ip (if_list sr') = [of_le32 10 0 1 1, of_le32 10 0 2 1, 7]"
proof -
  have "sr_handle_hwinfo ex_host ex_router (hwinfo_msg 16 [([101, 116, 104, 51], Mac 2 0 0 0 0 3, 7)])
      = Inr (ex_router\<lparr>if_list := if_list ex_router
          @ map (hw_if ex_host) [([101, 116, 104, 51], Mac 2 0 0 0 0 3, 7)]\<rparr>, int (3 * 1))"
    using hwinfo_configures [of "[([101, 116, 104, 51], Mac 2 0 0 0 0 3, 7)]" ex_host ex_router 16] by simp
  then show ?thesis by (simp add: ex_router_def hw_if_def ex_if1_def ex_if2_def)
qed

text \<open>the answer to a challenge is the user's name with the SHA-1 digest of the salt and the 64
  bytes of the key array, the key itself when the file starts with 64 characters without a newline.
  Nothing else is sent, and the call succeeds exactly when the socket takes the whole message.\<close>

theorem challenge_answered:
  assumes "files s auth_key_file = Some contents" "contents \<noteq> []"
    "c_string (user (inst s)) = Inr username"
    "length (key_junk H) = 65" "length (Message_Block (sha_junk H)) = 64" "length salt < 10000"
  shows "sr_handle_auth_request H s (auth_request_msg command salt)
    = (let m = auth_reply username (sha1_spec (salt @ hashed_key H contents));
           (sr, n) = sock_send (base H) (inst s) m
       in Inr (s\<lparr>inst := sr\<rparr>, if n = int (length m) then 1 else 0))
    \<and> (64 \<le> length contents \<and> 10 \<notin> set contents \<longrightarrow> hashed_key H contents = take 64 contents)"
  using challenge_body [OF assms, of command]
  by (auto simp: hashed_key_def first_line_no_newline fgets_into_def)

theorem challenge_answered_witness:
  "sr_handle_auth_request ex_host ex_session (auth_request_msg 128 [1, 2, 3, 4])
    = (let m = auth_reply [117] (sha1_spec ([1, 2, 3, 4] @ replicate 64 65));
           (sr, n) = sock_send ex_env (inst ex_session) m
       in Inr (ex_session\<lparr>inst := sr\<rparr>, if n = int (length m) then 1 else 0))"
proof -
  have u: "c_string (user (inst ex_session)) = Inr [117]"
    using c_string_NUL [of "[117]" "replicate 30 0"] by (simp add: ex_session_def)
  have "files ex_session auth_key_file = Some (replicate 64 65)" by (simp add: ex_session_def)
  from challenge_answered [OF this _ u, of ex_host "[1, 2, 3, 4]" 128] show ?thesis
    by (simp add: ex_host_def SHA1_blank_def)
qed

text \<open>C34: a routing table sent by the server is stored, unchanged, in the file named after the virtual
  host; with a name of 32 characters and no NUL the code reads and writes past its arrays.\<close>

theorem rtable_message:
  assumes "length idf = 32" "length table < 10000"
  shows "(0 \<in> set idf \<longrightarrow>
      sr_handle_rtable H s (le32 (htonl (of_nat (40 + length table))) @ le32 command @ idf @ table)
        = (if writable H (rtable_prefix @ cstr idf)
           then Inr (s\<lparr>files := (files s)(rtable_prefix @ cstr idf \<mapsto> table)\<rparr>, 1) else Inr (s, 0)))
    \<and> (0 \<notin> set idf \<and> table \<noteq> [] \<and> hd table \<noteq> 0 \<longrightarrow>
      sr_handle_rtable H s (le32 (htonl (of_nat (40 + length table))) @ le32 command @ idf @ table)
        = Inl OutOfBounds)"
proof -
  let ?m = "le32 (htonl (of_nat (40 + length table))) @ le32 command @ idf @ table"
  have d: "drop 8 ?m = idf @ table" by simp
  have rdm: "rd32 ?m 0 = Inr (htonl (of_nat (40 + length table)))" by (rule rd32_head)
  have sub: "ntohl (htonl (of_nat (40 + length table))) - 8 - of_nat IDSIZE = (of_nat (length table) :: u32)"
    by (simp add: ntohl_def IDSIZE_def)
  have un: "unat (of_nat (length table) :: u32) = length table" using assms(2) by (simp add: unat_of_nat)
  have rdt: "rd ?m (8 + IDSIZE) (length table) = Inr table" using assms(1) by (simp add: rd_def IDSIZE_def)
  show ?thesis
  proof (intro conjI impI)
    assume z: "0 \<in> set idf"
    then have cs: "c_string (idf @ table) = Inr (cstr idf)"
      by (auto simp: c_string_def cstr_def takeWhile_append)
    have read: "rbind (rd32 ?m 0) (\<lambda>mLen. rbind (rd ?m (8 + IDSIZE)
        (unat (ntohl mLen - 8 - of_nat IDSIZE))) k) = k table" for k :: "bytes \<Rightarrow> (session \<times> int) res"
      by (simp only: rdm rbind_Inr sub un rdt)
    have "length (cstr idf) < 32"
      using takeWhile_stops [OF z, of "\<lambda>c. c \<noteq> 0"] assms(1) by (simp add: cstr_def)
    then have fit: "\<not> 7 + IDSIZE + 1 < length rtable_prefix + length (cstr idf) + 1"
      by (simp add: rtable_prefix_def IDSIZE_def)
    show "sr_handle_rtable H s ?m = (if writable H (rtable_prefix @ cstr idf)
           then Inr (s\<lparr>files := (files s)(rtable_prefix @ cstr idf \<mapsto> table)\<rparr>, 1) else Inr (s, 0))"
      unfolding sr_handle_rtable_def d by (simp only: cs rbind_Inr fit if_False Let_def read)
  next
    assume z: "0 \<notin> set idf \<and> table \<noteq> [] \<and> hd table \<noteq> 0"
    then obtain t ts where t: "table = t # ts" "t \<noteq> 0" by (cases table) auto
    have "cstr (idf @ table) = idf @ t # cstr ts"
      using z t by (auto simp: cstr_def takeWhile_append)
    then have "length (cstr (idf @ table)) \<ge> 33" using assms(1) by simp
    then show "sr_handle_rtable H s ?m = Inl OutOfBounds"
      unfolding sr_handle_rtable_def d
      by (simp add: c_string_def rtable_prefix_def IDSIZE_def)
  qed
qed

theorem rtable_message_witness:
  "sr_handle_rtable ex_host ex_session
     (le32 (htonl (of_nat (40 + length [65]))) @ le32 32 @ ([104] @ replicate 31 0) @ [65])
   = Inr (ex_session\<lparr>files := (files ex_session)(rtable_prefix @ cstr ([104] @ replicate 31 0) \<mapsto> [65])\<rparr>, 1)"
  using rtable_message [of "[104] @ replicate 31 0" "[65]" ex_host ex_session 32]
  by (simp add: ex_host_def)

end
