(* ===== verification/Sr_Server.thy ===== *)
theory Sr_Server
  imports Sr_Server_Msg Sr_Safety
begin

text \<open>
  The connection to the server: reading one message from the stream and acting on it
  (\<open>sr_read_from_server_expect\<close>), the opening dialogue (\<open>sr_connect_to_server\<close>) and the loop of
  \<open>main\<close> that reads until the session ends. The stream may arrive in any pieces; \<open>stream\<close> is what they
  add up to.
\<close>

section \<open>Reading from the socket\<close>

text \<open>
  The loop around \<open>recv\<close> (and the one around \<open>read\<close>): it asks for the bytes that are missing until it
  has \<open>n\<close>. An interrupted call is repeated, a broken connection ends the loop without a result. When
  the peer has closed, \<open>recv\<close> returns 0 for ever and so the loop never ends.
\<close>

fun sock_read :: "nat \<Rightarrow> rx list \<Rightarrow> (bytes option \<times> rx list) res" where
  "sock_read 0 rxs = Inr (Some [], rxs)"
| "sock_read (Suc n) [] = Inl Diverges"
| "sock_read (Suc n) (Signal # rxs) = sock_read (Suc n) rxs"
| "sock_read (Suc n) (Broken # rxs) = Inr (None, rxs)"
| "sock_read (Suc n) (Data bs # rxs) =
     (if length bs \<le> Suc n
      then rbind (sock_read (Suc n - length bs) rxs) (\<lambda>(r, rxs'). Inr (map_option (append bs) r, rxs'))
      else Inr (Some (take (Suc n) bs), Data (drop (Suc n) bs) # rxs))"

section \<open>Commands\<close>

definition VNSOPEN :: u32 where "VNSOPEN = 1"
definition VNSCLOSE :: u32 where "VNSCLOSE = 2"
definition VNSBANNER :: u32 where "VNSBANNER = 8"
definition VNSHWINFO :: u32 where "VNSHWINFO = 16"
definition VNS_RTABLE :: u32 where "VNS_RTABLE = 32"
definition VNS_OPEN_TEMPLATE :: u32 where "VNS_OPEN_TEMPLATE = 64"
definition VNS_AUTH_REQUEST :: u32 where "VNS_AUTH_REQUEST = 128"
definition VNS_AUTH_STATUS :: u32 where "VNS_AUTH_STATUS = 512"

lemmas command_defs = VNSPACKET_def VNSCLOSE_def VNSBANNER_def VNSHWINFO_def VNS_RTABLE_def
  VNS_AUTH_REQUEST_def VNS_AUTH_STATUS_def VNSOPEN_def VNS_OPEN_TEMPLATE_def

text \<open>A handler that changes the router only.\<close>

definition on_inst :: "(sr_instance \<Rightarrow> sr_instance res) \<Rightarrow> session \<Rightarrow> session res" where
  "on_inst h s = rbind (h (inst s)) (\<lambda>sr. Inr (s\<lparr>inst := sr\<rparr>))"

text \<open>
  \<open>VNSPACKET\<close>: the frame starts after the 24-byte packet header and the interface name is the string
  at offset 8; both lengths are computed in 32 bits.
\<close>

definition sizeof_packet_ethernet_header :: nat where "sizeof_packet_ethernet_header = 38"

definition handle_vnspacket :: "host_env \<Rightarrow> session \<Rightarrow> bytes \<Rightarrow> u32 \<Rightarrow> session res" where
  "handle_vnspacket H s buf len =
     (let packet = drop sizeof_packet_header buf;
          flen = len - of_nat sizeof_packet_ethernet_header + of_nat sizeof_eth; name = drop 8 buf in
      rbind (sr_arp_req_not_for_us (inst s) packet flen name) (\<lambda>foreign.
      if foreign then Inr s
      else
        rbind (rd32 buf 0) (\<lambda>mLen.
        rbind (on_inst (\<lambda>sr. sr_log_packet (base H) sr packet (ntohl mLen - of_nat sizeof_packet_header)) s)
        (on_inst (\<lambda>sr. sr_handlepacket (base H) sr packet flen name)))))"

text \<open>The \<open>switch\<close>. The result is the value the function returns.\<close>

definition handle_command :: "host_env \<Rightarrow> session \<Rightarrow> bytes \<Rightarrow> u32 \<Rightarrow> u32 \<Rightarrow> (session \<times> int) res" where
  "handle_command H s buf len command =
     (if command = VNSPACKET then rbind (handle_vnspacket H s buf len) (\<lambda>s. Inr (s, 1))
      else if command = VNSCLOSE then rbind (c_string (drop 8 buf)) (\<lambda>_. Inr (s, 0))
      else if command = VNSBANNER then rbind (c_string (drop 8 buf)) (\<lambda>_. Inr (s, 1))
      else if command = VNSHWINFO then
        rbind (sr_handle_hwinfo H (inst s) buf) (\<lambda>(sr, _).
        if sr_verify_routing_table sr \<noteq> 0 then Inr (s\<lparr>inst := sr\<rparr>, -1) else Inr (s\<lparr>inst := sr\<rparr>, 1))
      else if command = VNS_RTABLE then
        rbind (sr_handle_rtable H s buf) (\<lambda>(s, ok). Inr (s, if ok = 0 then -1 else 1))
      else if command = VNS_AUTH_REQUEST then
        rbind (sr_handle_auth_request H s buf) (\<lambda>(s, ok). Inr (s, if ok = 0 then -1 else 1))
      else if command = VNS_AUTH_STATUS then
        rbind (sr_handle_auth_status s buf) (\<lambda>ok. Inr (s, if ok = 0 then -1 else 1))
      else Inr (s, 1))"

text \<open>
  One message. The length includes itself and the command; a block shorter than the length field, or
  without room for the command, is written or read past its end. The command is put back in host order.
\<close>

definition sr_read_from_server_expect :: "host_env \<Rightarrow> session \<Rightarrow> u32 \<Rightarrow> (session \<times> int) res" where
  "sr_read_from_server_expect H s expected_cmd =
     rbind (sock_read 4 (incoming s)) (\<lambda>(hdr, rxs).
     let s = s\<lparr>incoming := rxs\<rparr> in
     case hdr of
       None \<Rightarrow> Inr (s, -1)
     | Some hdr \<Rightarrow>
       rbind (rd32 hdr 0) (\<lambda>n.
       let len = ntohl n in
       if 10000 < sint len \<or> sint len < 0 then Inr (s\<lparr>sock_open := False\<rparr>, -1)
       else if unat len < 4 then Inl OutOfBounds
       else
         rbind (sock_read (unat len - 4) (incoming s)) (\<lambda>(body, rxs).
         let s = s\<lparr>incoming := rxs\<rparr> in
         case body of
           None \<Rightarrow> Inr (s\<lparr>sock_open := False\<rparr>, -1)
         | Some body \<Rightarrow>
           let buf = le32 (htonl len) @ body in
           rbind (rd32 buf 4) (\<lambda>c.
           let command = ntohl c in
           rbind (wr buf 4 (le32 command)) (\<lambda>buf.
           if expected_cmd \<noteq> 0 \<and> command \<noteq> expected_cmd \<and> command \<noteq> VNSCLOSE then Inr (s, -1)
           else handle_command H s buf len command)))))"

definition sr_read_from_server :: "host_env \<Rightarrow> session \<Rightarrow> (session \<times> int) res" where
  "sr_read_from_server H s = sr_read_from_server_expect H s 0"

section \<open>The opening dialogue\<close>

text \<open>
  The messages of \<open>sr_connect_to_server\<close>. \<open>resolved\<close>, \<open>created\<close> and \<open>connected\<close> say whether
  \<open>gethostbyname\<close>, \<open>socket\<close> and \<open>connect\<close> succeed; \<open>Hs\<close> gives each read its environment.
\<close>

definition c_open_template :: "sr_instance \<Rightarrow> bytes" where
  "c_open_template sr = le32 (htonl 70) @ le32 (htonl VNS_OPEN_TEMPLATE)
     @ c_strncpy 30 (template sr) @ c_strncpy IDSIZE (host sr)"

definition c_open :: "sr_instance \<Rightarrow> bytes" where
  "c_open sr = le32 (htonl 108) @ le32 (htonl VNSOPEN) @ le16 (htons (topo_id sr)) @ le16 0
     @ c_strncpy IDSIZE (host sr) @ c_strncpy IDSIZE (user sr) @ replicate IDSIZE 0"

text \<open>A read whose message must be acted on with success for the dialogue to go on.\<close>

definition expect_ok :: "host_env \<Rightarrow> u32 \<Rightarrow> (session \<Rightarrow> (session \<times> int) res) \<Rightarrow> session \<Rightarrow> (session \<times> int) res" where
  "expect_ok H cmd k s = rbind (sr_read_from_server_expect H s cmd) (\<lambda>(s, r).
     if r \<noteq> 1 then Inr (s, -1) else k s)"

definition send_open :: "(nat \<Rightarrow> host_env) \<Rightarrow> session \<Rightarrow> (session \<times> int) res" where
  "send_open Hs s =
     rbind (c_string (template (inst s))) (\<lambda>t.
     let buf = (if 0 < length t then c_open_template (inst s) else c_open (inst s));
         (sr, n) = sock_send (base (Hs 2)) (inst s) buf; s = s\<lparr>inst := sr\<rparr>
     in if n \<noteq> int (length buf) then Inr (s, -1)
        else if 0 < length t then expect_ok (Hs 2) VNS_RTABLE (\<lambda>s. Inr (s, 0)) s
        else Inr (s, 0))"

definition sr_connect_to_server ::
    "(nat \<Rightarrow> host_env) \<Rightarrow> bool \<Rightarrow> bool \<Rightarrow> bool \<Rightarrow> session \<Rightarrow> (session \<times> int) res" where
  "sr_connect_to_server Hs resolved created connected s =
     (if \<not> resolved then Inr (s, -1)
      else if \<not> created then Inr (s, -1)
      else if \<not> connected then Inr (s\<lparr>sock_open := False\<rparr>, -1)
      else
        expect_ok (Hs 0) VNS_AUTH_REQUEST
          (expect_ok (Hs 1) VNS_AUTH_STATUS (send_open Hs)) (s\<lparr>sock_open := True\<rparr>))"

section \<open>The stream\<close>

text \<open>The bytes that will arrive, whatever the pieces.\<close>

definition stream :: "rx list \<Rightarrow> bytes" where
  "stream rxs = concat (map (\<lambda>x. case x of Data bs \<Rightarrow> bs | _ \<Rightarrow> []) rxs)"

definition intact :: "rx list \<Rightarrow> bool" where
  "intact rxs \<longleftrightarrow> Broken \<notin> set rxs"

lemma stream_simps [simp]:
  "stream [] = []" "stream (Data bs # rxs) = bs @ stream rxs" "stream (Signal # rxs) = stream rxs"
  by (simp_all add: stream_def)

lemma intact_simps [simp]:
  "intact []" "intact (Data bs # rxs) = intact rxs" "intact (Signal # rxs) = intact rxs"
  "\<not> intact (Broken # rxs)"
  by (simp_all add: intact_def)

lemma sock_read_intact:
  "intact rxs \<Longrightarrow> n \<le> length (stream rxs) \<Longrightarrow>
   \<exists>rxs'. sock_read n rxs = Inr (Some (take n (stream rxs)), rxs') \<and> intact rxs' \<and> stream rxs' = drop n (stream rxs)"
proof (induction n rxs rule: sock_read.induct)
  case (5 n bs rxs)
  show ?case
  proof (cases "length bs \<le> Suc n")
    case True
    have "Suc n - length bs \<le> length (stream rxs)" using "5.prems"(2) by simp
    then obtain rxs' where "sock_read (Suc n - length bs) rxs
        = Inr (Some (take (Suc n - length bs) (stream rxs)), rxs')" "intact rxs'"
      "stream rxs' = drop (Suc n - length bs) (stream rxs)"
      using "5.IH" [OF True] "5.prems" by auto
    then show ?thesis using True by simp
  next
    case False
    then show ?thesis using "5.prems" by simp
  qed
qed auto

lemma sock_read_closed: "intact rxs \<Longrightarrow> length (stream rxs) < n \<Longrightarrow> sock_read n rxs = Inl Diverges"
proof (induction n rxs rule: sock_read.induct)
  case (5 n bs rxs)
  then have "length bs \<le> Suc n" by simp
  moreover have "sock_read (Suc n - length bs) rxs = Inl Diverges"
    using 5 calculation by (intro "5.IH") simp_all
  ultimately show ?case by simp
qed auto

text \<open>What a read leaves is less than what there was.\<close>

definition rx_size :: "rx list \<Rightarrow> nat" where
  "rx_size rxs = sum_list (map (\<lambda>x. case x of Data bs \<Rightarrow> Suc (length bs) | _ \<Rightarrow> 1) rxs)"

lemma sock_read_size:
  "sock_read n rxs = Inr (r, rxs') \<Longrightarrow> rx_size rxs' \<le> rx_size rxs \<and> (0 < n \<longrightarrow> rx_size rxs' < rx_size rxs)"
proof (induction n rxs arbitrary: r rxs' rule: sock_read.induct)
  case (5 n bs rxs)
  show ?case
  proof (cases "length bs \<le> Suc n")
    case True
    then obtain r1 where "sock_read (Suc n - length bs) rxs = Inr (r1, rxs')"
      using "5.prems" by (auto simp: rbind_eq_Inr)
    then show ?thesis using "5.IH" [OF True] by (fastforce simp: rx_size_def)
  next
    case False
    then show ?thesis using "5.prems" by (auto simp: rx_size_def)
  qed
qed (fastforce simp: rx_size_def)+

section \<open>Reading a message\<close>

text \<open>A message as it is on the stream, and as the handlers see it.\<close>

definition server_msg :: "u32 \<Rightarrow> bytes \<Rightarrow> bytes" where
  "server_msg command body = le32 (htonl (of_nat (8 + length body))) @ le32 (htonl command) @ body"

definition message_buf :: "u32 \<Rightarrow> bytes \<Rightarrow> bytes" where
  "message_buf command body = le32 (htonl (of_nat (8 + length body))) @ le32 command @ body"

lemma message_read:
  assumes i: "intact (incoming s)" and str: "stream (incoming s) = server_msg command body @ rest"
    and len: "8 + length body \<le> 10000"
  shows "\<exists>rxs. sr_read_from_server_expect H s expected =
      (if expected \<noteq> 0 \<and> command \<noteq> expected \<and> command \<noteq> VNSCLOSE then Inr (s\<lparr>incoming := rxs\<rparr>, -1)
       else handle_command H (s\<lparr>incoming := rxs\<rparr>) (message_buf command body) (of_nat (8 + length body)) command)
    \<and> intact rxs \<and> stream rxs = rest"
proof -
  define L :: u32 where "L = of_nat (8 + length body)"
  have uL: "unat L = 8 + length body" unfolding L_def by (rule unat_len) (use len in simp)
  have sL: "sint L = int (8 + length body)" unfolding L_def using len by (intro sint_small) simp
  have m: "server_msg command body = le32 (htonl L) @ le32 (htonl command) @ body"
    by (simp add: server_msg_def L_def)
  obtain r1 where r1: "sock_read 4 (incoming s) = Inr (Some (le32 (htonl L)), r1)" "intact r1"
    "stream r1 = le32 (htonl command) @ body @ rest"
    using sock_read_intact [OF i, of 4] by (auto simp: str m)
  have "unat L - 4 \<le> length (stream r1)" using r1(3) uL by simp
  then obtain r2 where r2: "sock_read (unat L - 4) r1 = Inr (Some (le32 (htonl command) @ body), r2)"
    "intact r2" "stream r2 = rest"
    using sock_read_intact [OF r1(2), of "unat L - 4"] by (auto simp: r1(3) uL)
  have h: "rd32 (le32 (htonl L)) 0 = Inr (htonl L)" using rd32_head [of "htonl L" "[]"] by simp
  have c: "rd32 (le32 (htonl L) @ le32 (htonl command) @ body) 4 = Inr (htonl command)"
    by (rule rd32_second)
  have w: "wr (le32 (htonl L) @ le32 (htonl command) @ body) 4 (le32 command) = Inr (message_buf command body)"
    by (simp add: wr_def message_buf_def L_def)
  have sz: "\<not> (10000 < sint L \<or> sint L < 0)" "\<not> unat L < 4" using sL uL len by simp_all
  show ?thesis
    unfolding L_def [symmetric] using r2(2,3) sz
    by (intro exI [of _ r2])
      (simp add: sr_read_from_server_expect_def r1(1) h ntohl_def r2(1) c w Let_def)
qed

section \<open>The names of interfaces\<close>

text \<open>A handler sees only the string an array holds, not the bytes after its NUL.\<close>

lemma get_interface_cstr: "sr_get_interface sr (cstr i) = sr_get_interface sr i"
  by (simp add: sr_get_interface_def c_strncmp_eq_def)

lemma strncpy_cstr: "c_strncpy n (cstr i) = c_strncpy n i"
  by (simp add: c_strncpy_def)

lemma send_packet_cstr: "sr_send_packet E sr buf len (cstr i) = sr_send_packet E sr buf len i"
  by (simp add: sr_send_packet_def packet_msg_def strncpy_cstr sr_ether_addrs_match_interface_def
      get_interface_cstr)

lemma icmp_cstr:
  "icmp_error E p sr (cstr i) len t c f = icmp_error E p sr i len t c f"
  "Echo_Reply E p sr (cstr i) len = Echo_Reply E p sr i len"
  "Dest_net_unreach E p sr (cstr i) len = Dest_net_unreach E p sr i len"
  by (simp_all add: icmp_error_def Echo_Reply_def Dest_net_unreach_def get_interface_cstr send_packet_cstr)

lemma queuereq_cstr: "sr_arpcache_queuereq c ip p len (cstr i) = sr_arpcache_queuereq c ip p len i"
  by (simp add: sr_arpcache_queuereq_def strncpy_cstr cong: if_cong option.case_cong)

lemma other_dest_cstr: "packet_to_other_dest E p sr (cstr i) len = packet_to_other_dest E p sr i len"
  by (simp add: packet_to_other_dest_def Time_Exceeded_def dest_host_unreach_def icmp_cstr
      queuereq_cstr cong: if_cong option.case_cong)

lemma send_waiting_cstr: "send_waiting E (cstr i) ps sr = send_waiting E i ps sr"
  by (induction ps arbitrary: sr) (simp_all add: send_waiting_Cons other_dest_cstr rbind_def cong: sum.case_cong)

lemma handlepacket_cstr: "sr_handlepacket E sr p len (cstr i) = sr_handlepacket E sr p len i"
  by (simp add: sr_handlepacket_def arp_packet_def IP_packet_def Port_unreach_def icmp_cstr
      get_interface_cstr send_packet_cstr send_waiting_cstr other_dest_cstr cong: if_cong option.case_cong)

lemma arp_filter_cstr: "sr_arp_req_not_for_us sr p len (cstr i) = sr_arp_req_not_for_us sr p len i"
  by (simp add: sr_arp_req_not_for_us_def get_interface_cstr)

section \<open>Packets from the server\<close>

text \<open>What one received packet does to the router: the filter, the log, the handler.\<close>

definition receive :: "env \<Rightarrow> sr_instance \<Rightarrow> bytes \<Rightarrow> bytes \<Rightarrow> sr_instance res" where
  "receive E sr iface frame =
     rbind (sr_arp_req_not_for_us sr frame (of_nat (length frame)) iface) (\<lambda>foreign.
     if foreign then Inr sr
     else sr_handlepacket E (log_frame E sr frame) frame (of_nat (length frame)) iface)"

definition frame_msg :: "bytes \<Rightarrow> bytes \<Rightarrow> bytes" where
  "frame_msg iface frame = packet_msg iface (of_nat (length frame)) frame"

definition deliverable :: "bytes \<times> bytes \<Rightarrow> bool" where
  "deliverable = (\<lambda>(iface, frame). length (cstr iface) < 16 \<and> length frame \<le> 9976)"

lemma frame_msg_server_msg:
  "length frame \<le> 9976 \<Longrightarrow> frame_msg iface frame = server_msg VNSPACKET (c_strncpy 16 iface @ frame)"
  by (simp add: frame_msg_def packet_msg_def server_msg_def sizeof_packet_header_def ac_simps)

lemma cstr_array: "length (cstr i) < 16 \<Longrightarrow> cstr (c_strncpy 16 i @ r) = cstr i"
proof -
  assume l: "length (cstr i) < 16"
  then obtain k where "16 - length (cstr i) = Suc k" by (cases "16 - length (cstr i)") auto
  moreover have "c_strncpy 16 i = cstr i @ replicate (16 - length (cstr i)) 0"
    using l by (simp add: c_strncpy_def)
  ultimately have "c_strncpy 16 i = cstr i @ 0 # replicate k 0" by simp
  moreover have "\<forall>c\<in>set (cstr i). c \<noteq> 0" by (auto simp: cstr_def dest: set_takeWhileD)
  ultimately show ?thesis by (simp add: cstr_def takeWhile_append)
qed

lemma handle_frame:
  assumes "deliverable (iface, frame)"
  shows "handle_command H s (message_buf VNSPACKET (c_strncpy 16 iface @ frame))
      (of_nat (8 + length (c_strncpy 16 iface @ frame))) VNSPACKET
    = rbind (receive (base H) (inst s) iface frame) (\<lambda>sr. Inr (s\<lparr>inst := sr\<rparr>, 1))"
proof -
  let ?name = "c_strncpy 16 iface @ frame" and ?f = "of_nat (length frame) :: u32"
  have l: "length frame \<le> 9976" "length (cstr iface) < 16" using assms by (simp_all add: deliverable_def)
  define B where "B = message_buf VNSPACKET ?name"
  have L: "(of_nat (8 + length ?name) :: u32) = ?f + 24" by (simp add: ac_simps)
  have d: "drop sizeof_packet_header B = frame" "drop 8 B = ?name"
    by (simp_all add: B_def message_buf_def sizeof_packet_header_def)
  have m: "rd32 B 0 = Inr (htonl (?f + 24))" unfolding B_def message_buf_def L by (rule rd32_head)
  have fl: "?f + 24 - of_nat sizeof_packet_ethernet_header + of_nat sizeof_eth = ?f"
    by (simp add: sizeof_eth_def sizeof_packet_ethernet_header_def)
  have ml: "ntohl (htonl (?f + 24)) - of_nat sizeof_packet_header = ?f"
    by (simp add: ntohl_def sizeof_packet_header_def)
  have u: "unat ?f = length frame" using l(1) by (intro unat_len) simp
  have log: "sr_log_packet (base H) sr frame ?f = Inr (log_frame (base H) sr frame)" for sr
    using sr_log_packet_frame_spec [of ?f frame "base H" sr] l(1) by (simp add: u)
  have nm: "sr_handlepacket E sr p x ?name = sr_handlepacket E sr p x iface"
    "sr_arp_req_not_for_us sr p x ?name = sr_arp_req_not_for_us sr p x iface" for E sr p x
    using handlepacket_cstr [of E sr p x] arp_filter_cstr [of sr p x] cstr_array [OF l(2), of frame] by metis+
  have "handle_vnspacket H s B (?f + 24) = rbind (receive (base H) (inst s) iface frame) (\<lambda>sr. Inr (s\<lparr>inst := sr\<rparr>))"
    unfolding handle_vnspacket_def Let_def d fl m ml nm rbind_Inr log on_inst_def receive_def
    by (auto simp: rbind_def split: sum.split)
  then show ?thesis
    unfolding L B_def [symmetric] by (simp add: handle_command_def rbind_def split: sum.split)
qed

section \<open>The loop of main\<close>

lemma on_inst_incoming: "on_inst h s = Inr s' \<Longrightarrow> incoming s' = incoming s"
  by (auto simp: on_inst_def rbind_eq_Inr)

lemma handle_command_incoming:
  assumes "handle_command H s buf len command = Inr (s', r)"
  shows "incoming s' = incoming s"
proof -
  have "handle_vnspacket H s buf len = Inr s' \<Longrightarrow> incoming s' = incoming s"
    by (auto simp: handle_vnspacket_def Let_def rbind_eq_Inr dest!: on_inst_incoming split: if_splits)
  moreover have "sr_handle_rtable H s buf = Inr (s', x) \<Longrightarrow> incoming s' = incoming s" for x
    by (auto simp: sr_handle_rtable_def Let_def rbind_eq_Inr split: if_splits)
  moreover have "sr_handle_auth_request H s buf = Inr (s', x) \<Longrightarrow> incoming s' = incoming s" for x
    by (auto simp: sr_handle_auth_request_def Let_def rbind_eq_Inr case_prod_beta
        split: if_splits option.splits)
  ultimately show ?thesis
    using assms by (auto simp: handle_command_def rbind_eq_Inr split: if_splits)
qed

lemma read_shrinks:
  assumes "sr_read_from_server_expect H s cmd = Inr (s', 1)"
  shows "rx_size (incoming s') < rx_size (incoming s)"
proof -
  obtain hdr r1 where 1: "sock_read 4 (incoming s) = Inr (Some hdr, r1)"
    using assms by (auto simp: sr_read_from_server_expect_def Let_def rbind_eq_Inr split: option.splits)
  obtain n where 2: "rd32 hdr 0 = Inr n"
    using assms 1 by (auto simp: sr_read_from_server_expect_def Let_def rbind_eq_Inr)
  obtain body r2 where 3: "sock_read (unat (ntohl n) - 4) r1 = Inr (Some body, r2)"
    and 4: "incoming s' = r2"
    using assms 1 2
    by (auto simp: sr_read_from_server_expect_def Let_def rbind_eq_Inr dest: handle_command_incoming
        split: if_splits option.splits)
  show ?thesis using sock_read_size [OF 1] sock_read_size [OF 3] 4 by simp
qed

text \<open>\<open>while (sr_read_from_server(&sr) == 1);\<close> the environment of the \<open>i\<close>-th call is \<open>Hs i\<close>.\<close>

function main_loop :: "(nat \<Rightarrow> host_env) \<Rightarrow> nat \<Rightarrow> session \<Rightarrow> (session \<times> int) res" where
  "main_loop Hs i s =
     (case sr_read_from_server (Hs i) s of
        Inl e \<Rightarrow> Inl e
      | Inr (s', r) \<Rightarrow> if r = 1 then main_loop Hs (Suc i) s' else Inr (s', r))"
  by pat_completeness auto
termination
  by (relation "measure (\<lambda>(Hs, i, s). rx_size (incoming s))")
    (auto simp: sr_read_from_server_def dest: read_shrinks)

declare main_loop.simps [simp del]

section \<open>Whole sessions\<close>

text \<open>The packets one after the other, each in its own environment.\<close>

fun receive_all :: "(nat \<Rightarrow> host_env) \<Rightarrow> nat \<Rightarrow> (bytes \<times> bytes) list \<Rightarrow> sr_instance \<Rightarrow> sr_instance res" where
  "receive_all Hs i [] sr = Inr sr"
| "receive_all Hs i (p # ps) sr =
     rbind (receive (base (Hs i)) sr (fst p) (snd p)) (receive_all Hs (Suc i) ps)"

definition frames_msg :: "(bytes \<times> bytes) list \<Rightarrow> bytes" where
  "frames_msg ps = concat (map (\<lambda>p. frame_msg (fst p) (snd p)) ps)"

lemma read_frame:
  assumes "intact (incoming s)" "stream (incoming s) = frame_msg iface frame @ rest"
    "deliverable (iface, frame)"
  shows "\<exists>rxs. sr_read_from_server H s = rbind (receive (base H) (inst s) iface frame)
      (\<lambda>sr. Inr (s\<lparr>incoming := rxs, inst := sr\<rparr>, 1)) \<and> intact rxs \<and> stream rxs = rest"
proof -
  have l: "length frame \<le> 9976" using assms(3) by (simp add: deliverable_def)
  then have "8 + length (c_strncpy 16 iface @ frame) \<le> 10000" by simp
  with assms(1) assms(2) [unfolded frame_msg_server_msg [OF l]]
  obtain rxs where "sr_read_from_server_expect H s 0 =
      handle_command H (s\<lparr>incoming := rxs\<rparr>) (message_buf VNSPACKET (c_strncpy 16 iface @ frame))
        (of_nat (8 + length (c_strncpy 16 iface @ frame))) VNSPACKET" "intact rxs" "stream rxs = rest"
    using message_read [of s VNSPACKET "c_strncpy 16 iface @ frame" rest H 0] by auto
  then show ?thesis
    unfolding handle_frame [OF assms(3)] sr_read_from_server_def by auto
qed

text \<open>What the loop does with packets, whatever comes after them.\<close>

lemma main_loop_frames:
  assumes "intact (incoming s)" "stream (incoming s) = frames_msg ps @ rest" "\<forall>p\<in>set ps. deliverable p"
  shows "\<exists>rxs. intact rxs \<and> stream rxs = rest \<and> main_loop Hs i s
    = rbind (receive_all Hs i ps (inst s)) (\<lambda>sr. main_loop Hs (i + length ps) (s\<lparr>incoming := rxs, inst := sr\<rparr>))"
  using assms
proof (induction ps arbitrary: s i)
  case Nil
  then show ?case by (intro exI [of _ "incoming s"]) (simp add: frames_msg_def)
next
  case (Cons p ps)
  obtain iface frame where p: "p = (iface, frame)" by (cases p)
  obtain rxs where r: "sr_read_from_server (Hs i) s = rbind (receive (base (Hs i)) (inst s) iface frame)
      (\<lambda>sr. Inr (s\<lparr>incoming := rxs, inst := sr\<rparr>, 1))" "intact rxs" "stream rxs = frames_msg ps @ rest"
    using read_frame [of s iface frame "frames_msg ps @ rest" "Hs i"] Cons.prems
    by (auto simp: p frames_msg_def)
  show ?case
  proof (cases "receive (base (Hs i)) (inst s) iface frame")
    case (Inl e)
    have "\<exists>r2. intact r2 \<and> stream r2 = rest"
      using sock_read_intact [OF r(2), of "length (frames_msg ps)"] by (auto simp: r(3))
    then show ?thesis using r(1) Inl by (auto simp: p main_loop.simps [of Hs i s])
  next
    case (Inr sr)
    let ?s = "s\<lparr>incoming := rxs, inst := sr\<rparr>"
    obtain r2 where "intact r2" "stream r2 = rest" "main_loop Hs (Suc i) ?s
      = rbind (receive_all Hs (Suc i) ps sr) (\<lambda>sr. main_loop Hs (Suc i + length ps) (?s\<lparr>incoming := r2, inst := sr\<rparr>))"
      using Cons.IH [of ?s "Suc i"] r Cons.prems(3) by auto
    then show ?thesis using r(1) Inr by (auto simp: p main_loop.simps [of Hs i s] intro!: exI [of _ r2])
  qed
qed

lemma read_close:
  assumes "intact (incoming s)" "stream (incoming s) = server_msg VNSCLOSE reason @ rest"
    "8 + length reason \<le> 10000" "0 \<in> set reason"
  shows "\<exists>rxs. sr_read_from_server H s = Inr (s\<lparr>incoming := rxs\<rparr>, 0) \<and> intact rxs \<and> stream rxs = rest"
proof -
  have "drop 8 (message_buf VNSCLOSE reason) = reason" by (simp add: message_buf_def)
  then have "handle_command H s (message_buf VNSCLOSE reason) len VNSCLOSE = Inr (s, 0)" for s len
    using assms(4) by (simp add: handle_command_def command_defs c_string_def)
  then show ?thesis
    using message_read [OF assms(1-3), of H 0] by (auto simp: sr_read_from_server_def)
qed

lemma read_closed_peer:
  assumes "intact (incoming s)" "length (stream (incoming s)) < 4"
  shows "sr_read_from_server H s = Inl Diverges"
  using sock_read_closed [OF assms] by (simp add: sr_read_from_server_def sr_read_from_server_expect_def)

lemma main_loop_session:
  assumes "intact (incoming s)" "stream (incoming s) = frames_msg ps @ server_msg VNSCLOSE reason"
    "\<forall>p\<in>set ps. deliverable p" "8 + length reason \<le> 10000" "0 \<in> set reason"
  shows "\<exists>rxs. stream rxs = [] \<and> main_loop Hs i s
    = rbind (receive_all Hs i ps (inst s)) (\<lambda>sr. Inr (s\<lparr>incoming := rxs, inst := sr\<rparr>, 0))"
proof -
  obtain r1 where r1: "intact r1" "stream r1 = server_msg VNSCLOSE reason" "main_loop Hs i s
    = rbind (receive_all Hs i ps (inst s)) (\<lambda>sr. main_loop Hs (i + length ps) (s\<lparr>incoming := r1, inst := sr\<rparr>))"
    using main_loop_frames [OF assms(1-3), of Hs i] by auto
  show ?thesis
  proof (cases "receive_all Hs i ps (inst s)")
    case (Inl e)
    have "\<exists>rxs. stream rxs = []" by (rule exI [of _ "[]"]) simp
    then show ?thesis using r1(3) Inl by simp
  next
    case (Inr sr)
    let ?s = "s\<lparr>incoming := r1, inst := sr\<rparr>"
    obtain r2 where "sr_read_from_server (Hs (i + length ps)) ?s = Inr (?s\<lparr>incoming := r2\<rparr>, 0)" "stream r2 = []"
      using read_close [of ?s reason "[]"] r1(1,2) assms(4,5) by auto
    then show ?thesis
      using r1(3) Inr by (auto simp: main_loop.simps [of Hs "i + length ps"] intro!: exI [of _ r2])
  qed
qed

text \<open>An example: the stream cut in two, with an interrupted call between the pieces.\<close>

definition ex_stream :: "bytes \<Rightarrow> session" where
  "ex_stream bs = ex_session\<lparr>incoming := [Data (take 10 bs), Signal, Data (drop 10 bs)],
     inst := (inst ex_session)\<lparr>template := 0 # replicate 29 0\<rparr>\<rparr>"

lemma ex_stream: "intact (incoming (ex_stream bs))" "stream (incoming (ex_stream bs)) = bs"
  by (simp_all add: ex_stream_def)

lemma ex_receive:
  "\<exists>sr. receive ex_env (inst (ex_stream bs)) (if_name ex_if1) ex_udp = Inr sr \<and> length (wire sr) = 1"
proof -
  have "inst (ex_stream bs) = ex_router\<lparr>user := [117] @ 0 # replicate 30 0, template := 0 # replicate 29 0\<rparr>"
    by (simp add: ex_stream_def ex_session_def)
  moreover have "case receive ex_env (ex_router\<lparr>user := [117] @ 0 # replicate 30 0,
      template := 0 # replicate 29 0\<rparr>) (if_name ex_if1) ex_udp of Inr sr \<Rightarrow> length (wire sr) = 1 | Inl _ \<Rightarrow> False"
    by code_simp
  ultimately show ?thesis by (auto split: sum.splits)
qed

lemma dialogue_ok:
  assumes "intact (incoming s)"
    "stream (incoming s) = server_msg VNS_AUTH_REQUEST salt @ server_msg VNS_AUTH_STATUS (ok # note) @ rest"
    "length salt < 9000" "length note < 9000" "ok \<noteq> 0"
    "files s auth_key_file = Some contents" "contents \<noteq> []"
    "c_string (user (inst s)) = Inr username" "c_string (template (inst s)) = Inr []"
    "length (key_junk (Hs 0)) = 65" "length (Message_Block (sha_junk (Hs 0))) = 64"
    "\<forall>i m. sock_write (base (Hs i)) m = int (length m)"
  shows "\<exists>rxs. stream rxs = rest \<and> intact rxs \<and> sr_connect_to_server Hs True True True s
    = Inr (s\<lparr>inst := (inst s)\<lparr>wire := wire (inst s) @
          [auth_reply username (sha1_spec (salt @ hashed_key (Hs 0) contents)), c_open (inst s)]\<rparr>,
        incoming := rxs, sock_open := True\<rparr>, 0)"
proof -
  define m where "m = auth_reply username (sha1_spec (salt @ hashed_key (Hs 0) contents))"
  let ?s0 = "s\<lparr>sock_open := True\<rparr>"
  have send: "sock_send (base (Hs i)) sr b = (sr\<lparr>wire := wire sr @ [b]\<rparr>, int (length b))" if "b \<noteq> []" for i sr b
    using that assms(12) by (simp add: sock_send_def)
  have ne: "m \<noteq> []" "c_open sr \<noteq> []" for sr
    using length_auth_reply [of username] by (auto simp: m_def c_open_def le32_def simp del: length_0_conv simp flip: length_greater_0_conv)
  obtain r1 where r1: "sr_read_from_server_expect (Hs 0) ?s0 VNS_AUTH_REQUEST
      = handle_command (Hs 0) (?s0\<lparr>incoming := r1\<rparr>) (message_buf VNS_AUTH_REQUEST salt)
          (of_nat (8 + length salt)) VNS_AUTH_REQUEST"
    "intact r1" "stream r1 = server_msg VNS_AUTH_STATUS (ok # note) @ rest"
    using message_read [of ?s0 VNS_AUTH_REQUEST salt _ "Hs 0" VNS_AUTH_REQUEST] assms(1-3) by auto
  let ?s1 = "?s0\<lparr>incoming := r1, inst := (inst s)\<lparr>wire := wire (inst s) @ [m]\<rparr>\<rparr>"
  have "message_buf VNS_AUTH_REQUEST salt = auth_request_msg VNS_AUTH_REQUEST salt"
    by (simp add: message_buf_def auth_request_msg_def)
  then have "sr_handle_auth_request (Hs 0) (?s0\<lparr>incoming := r1\<rparr>) (message_buf VNS_AUTH_REQUEST salt)
      = Inr (?s1, 1)"
    using challenge_body [of "?s0\<lparr>incoming := r1\<rparr>" contents username "Hs 0" salt VNS_AUTH_REQUEST] assms
      send [OF ne(1)] by (simp add: m_def)
  then have h1: "sr_read_from_server_expect (Hs 0) ?s0 VNS_AUTH_REQUEST = Inr (?s1, 1)"
    using r1(1) by (simp add: handle_command_def command_defs)
  obtain r2 where r2: "sr_read_from_server_expect (Hs 1) ?s1 VNS_AUTH_STATUS
      = handle_command (Hs 1) (?s1\<lparr>incoming := r2\<rparr>) (message_buf VNS_AUTH_STATUS (ok # note))
          (of_nat (8 + length (ok # note))) VNS_AUTH_STATUS" "intact r2" "stream r2 = rest"
    using message_read [of ?s1 VNS_AUTH_STATUS "ok # note" rest "Hs 1" VNS_AUTH_STATUS] r1(2,3) assms(4) by auto
  have "sr_handle_auth_status (?s1\<lparr>incoming := r2\<rparr>) (message_buf VNS_AUTH_STATUS (ok # note)) = Inr (uint ok)"
    using assms(5,8) by (simp add: sr_handle_auth_status_def message_buf_def rd_def)
  then have h2: "sr_read_from_server_expect (Hs 1) ?s1 VNS_AUTH_STATUS = Inr (?s1\<lparr>incoming := r2\<rparr>, 1)"
    using r2(1) assms(5) unsigned_eq_0_iff [of ok] by (simp add: handle_command_def command_defs)
  have "send_open Hs (?s1\<lparr>incoming := r2\<rparr>) = Inr (?s1\<lparr>incoming := r2, inst := (inst s)\<lparr>wire := wire (inst s) @
      [m, c_open (inst s)]\<rparr>\<rparr>, 0)"
    using assms(9) send [OF ne(2)] by (simp add: send_open_def Let_def c_open_def)
  then show ?thesis
    using r2(2,3) h1 h2 by (auto simp: sr_connect_to_server_def expect_ok_def m_def intro!: exI [of _ r2])
qed

section \<open>Properties\<close>

text \<open>C9: however the stream is cut into pieces and interrupted, a session of packet messages that ends
  with a close message makes the loop of \<open>main\<close> handle exactly these frames, in order, on the interfaces
  they name, and return; a fault in a handler is the only other outcome.\<close>

theorem session_handles_frames:
  assumes "intact (incoming s)" "stream (incoming s) = frames_msg ps @ server_msg VNSCLOSE reason"
    "\<forall>p\<in>set ps. deliverable p" "8 + length reason \<le> 10000" "0 \<in> set reason"
  shows "\<exists>rxs. stream rxs = [] \<and> main_loop Hs 0 s
    = rbind (receive_all Hs 0 ps (inst s)) (\<lambda>sr. Inr (s\<lparr>incoming := rxs, inst := sr\<rparr>, 0))"
  using assms by (rule main_loop_session)

theorem session_handles_frames_witness:
  "\<exists>s'. main_loop (\<lambda>_. ex_host) 0 (ex_stream (frames_msg [(if_name ex_if1, ex_udp)] @ server_msg VNSCLOSE [0]))
      = Inr (s', 0) \<and> length (wire (inst s')) = 1"
proof -
  let ?s = "ex_stream (frames_msg [(if_name ex_if1, ex_udp)] @ server_msg VNSCLOSE [0])"
  have "deliverable (if_name ex_if1, ex_udp)" by code_simp
  then obtain rxs where m: "main_loop (\<lambda>_. ex_host) 0 ?s = rbind (receive_all (\<lambda>_. ex_host) 0
      [(if_name ex_if1, ex_udp)] (inst ?s)) (\<lambda>sr. Inr (?s\<lparr>incoming := rxs, inst := sr\<rparr>, 0))"
    using session_handles_frames [of ?s "[(if_name ex_if1, ex_udp)]" "[0]" "\<lambda>_. ex_host"] ex_stream by auto
  then show ?thesis using ex_receive by (auto simp: ex_stream_def ex_host_def)
qed



text \<open>C11: the opening dialogue. Against a server that sends a challenge and then an accepting status, and
  a socket that takes every message, \<open>sr_connect_to_server\<close> returns 0 after sending exactly the answer to
  the challenge and the request for the topology; what the server sends next is still unread.\<close>

theorem session_opened:
  assumes "intact (incoming s)"
    "stream (incoming s) = server_msg VNS_AUTH_REQUEST salt @ server_msg VNS_AUTH_STATUS (ok # note) @ rest"
    "length salt < 9000" "length note < 9000" "ok \<noteq> 0"
    "files s auth_key_file = Some contents" "contents \<noteq> []"
    "c_string (user (inst s)) = Inr username" "c_string (template (inst s)) = Inr []"
    "length (key_junk (Hs 0)) = 65" "length (Message_Block (sha_junk (Hs 0))) = 64"
    "\<forall>i m. sock_write (base (Hs i)) m = int (length m)"
  shows "\<exists>rxs. stream rxs = rest \<and> intact rxs \<and> sr_connect_to_server Hs True True True s
    = Inr (s\<lparr>inst := (inst s)\<lparr>wire := wire (inst s) @
          [auth_reply username (sha1_spec (salt @ hashed_key (Hs 0) contents)), c_open (inst s)]\<rparr>,
        incoming := rxs, sock_open := True\<rparr>, 0)"
  using assms by (rule dialogue_ok)

theorem session_opened_witness:
  "\<exists>s'. sr_connect_to_server (\<lambda>_. ex_host) True True True
      (ex_stream (server_msg VNS_AUTH_REQUEST [1, 2, 3, 4] @ server_msg VNS_AUTH_STATUS [1, 0]))
    = Inr (s', 0) \<and> length (wire (inst s')) = 2"
proof -
  let ?s = "ex_stream (server_msg VNS_AUTH_REQUEST [1, 2, 3, 4] @ server_msg VNS_AUTH_STATUS [1, 0])"
  have f: "files ?s auth_key_file = Some (replicate 64 65)" by (simp add: ex_stream_def ex_session_def)
  have u: "c_string (user (inst ?s)) = Inr [117]"
    using c_string_NUL [of "[117]" "replicate 30 0"] by (simp add: ex_stream_def ex_session_def)
  have t: "c_string (template (inst ?s)) = Inr []"
    using c_string_NUL [of "[]" "replicate 29 0"] by (simp add: ex_stream_def ex_session_def)
  have j: "length (key_junk ex_host) = 65" "length (Message_Block (sha_junk ex_host)) = 64"
    "\<forall>m. sock_write (base ex_host) m = int (length m)"
    by (simp_all add: ex_host_def SHA1_blank_def ex_env_def)
  have w: "wire (inst ?s) = []" by (simp add: ex_stream_def ex_session_def ex_router_def)
  show ?thesis
    using session_opened [of ?s "[1, 2, 3, 4]" 1 "[0]" "[]" "replicate 64 65" "[117]" "\<lambda>_. ex_host"]
      ex_stream f u t j w by auto
qed

end
