(* ===== verification/Sr_Net_Session.thy ===== *)
theory Sr_Net_Session
  imports Sr_Refinement Sr_Server
begin

text \<open>
  From the bytes of the server's stream to the network: a session of frames makes the main loop compute
  the abstract router of \<open>Sr_Refinement\<close> on them, one after the other.
\<close>

text \<open>The abstract router on a list of frames; \<open>ls\<close> says for each whether a reply finds a place.\<close>

fun net_frames :: "(nat \<Rightarrow> env) \<Rightarrow> nat \<Rightarrow> sr_if list \<Rightarrow> sr_rt list \<Rightarrow> bool list \<Rightarrow> (bytes \<times> bytes) list \<Rightarrow> net \<Rightarrow> net option" where
  "net_frames K i ifs rts (l # ls) (p # ps) n =
     Option.bind (net_frame (K i) ifs rts l (fst p) (snd p) n) (net_frames K (Suc i) ifs rts ls ps)"
| "net_frames K i ifs rts _ _ n = Some n"

lemma router_inv_log: "router_inv sr \<Longrightarrow> router_inv (log_frame E sr f)"
  using wire_msg_ok_cong [of "log_frame E sr f" sr] queued_ok_cong [of "log_frame E sr f" sr]
  by (simp add: router_inv_def queue_ok_def)

lemma net_of_log: "net_of (log_frame E sr f) = net_of sr"
  by (simp add: net_of_def)

text \<open>The filter for ARP requests drops only what the abstract router ignores.\<close>

lemma arp_filter_cases:
  assumes "length frame < 2 ^ 31" "sr_get_interface sr interface = Some i"
  shows "sr_arp_req_not_for_us sr frame (of_nat (length frame)) interface = Inr
    (42 \<le> length frame \<and> ether_type (frame_eth frame) = htons ethertype_arp
      \<and> ar_op (frame_arp frame) = htons arp_op_request \<and> ar_tip (frame_arp frame) \<noteq> if_ip i)"
proof (cases "length frame < 42")
  case True
  then show ?thesis using assms unat_len [OF assms(1)] by (simp add: sr_arp_req_not_for_us_def sizeof_defs)
next
  case False
  then have "ld_eth frame = Inr (frame_eth frame)" "ld_arp frame = Inr (frame_arp frame)"
    using eth.ld_ok [of 0 frame] arp.ld_ok [of sizeof_eth frame] by (simp_all add: sizeof_defs)
  then show ?thesis using False assms unat_len [OF assms(1)] by (simp add: sr_arp_req_not_for_us_def sizeof_defs)
qed

lemma receive_net:
  assumes inv: "router_inv sr" and w: "full_write E" and len: "length frame < 2 ^ 31"
    and i: "sr_get_interface sr interface = Some i"
  shows "net_res (receive E sr interface frame)
    = net_frame E (if_list sr) (routing_table sr) (learns (cache sr) (ar_sip (frame_arp frame))) interface frame (net_of sr)"
proof (cases "42 \<le> length frame \<and> ether_type (frame_eth frame) = htons ethertype_arp
      \<and> ar_op (frame_arp frame) = htons arp_op_request \<and> ar_tip (frame_arp frame) \<noteq> if_ip i")
  case True
  then show ?thesis
    by (simp add: receive_def arp_filter_cases [OF len i] net_frame_def arp_frame_def Let_def if_named_list i)
next
  case False
  then have "receive E sr interface frame
      = sr_handlepacket E (log_frame E sr frame) frame (of_nat (length frame)) interface"
    by (auto simp: receive_def arp_filter_cases [OF len i])
  moreover have "cache_inv (cache (log_frame E sr frame))" "queue_ok (log_frame E sr frame)"
    using router_inv_log [OF inv, of E frame] by (simp_all only: router_inv_def)
  ultimately show ?thesis
    using handlepacket_net [OF _ _ w len, of "log_frame E sr frame" interface] by (simp add: net_of_log)
qed

lemma receive_inv:
  assumes "receive E sr interface frame = Inr sr'" "router_inv sr" "length frame < 2 ^ 31"
  shows "router_inv sr' \<and> if_list sr' = if_list sr \<and> routing_table sr' = routing_table sr"
proof -
  obtain foreign where "sr_arp_req_not_for_us sr frame (of_nat (length frame)) interface = Inr foreign"
    and run: "if foreign then sr' = sr
      else sr_handlepacket E (log_frame E sr frame) frame (of_nat (length frame)) interface = Inr sr'"
    using assms(1) by (auto simp: receive_def rbind_eq_Inr split: if_splits)
  show ?thesis
  proof (cases foreign)
    case False
    then have s: "step E (log_frame E sr frame) (Frame frame interface) sr'"
      using run assms(3) by (intro step.frame) simp_all
    have "good_step (log_frame E sr frame) sr'"
      using s by (rule step_good) (use assms(2) in \<open>simp add: router_inv_def\<close>)
    then show ?thesis using step_inv [OF s router_inv_log [OF assms(2)]] by (simp add: good_step_def)
  qed (use run assms(2) in simp)
qed

lemma receive_all_net:
  assumes "router_inv sr" "\<forall>i. full_write (base (K i))"
    and "\<forall>p\<in>set ps. length (snd p) < 2 ^ 31 \<and> sr_get_interface sr (fst p) \<noteq> None"
  shows "\<exists>ls. length ls = length ps \<and> net_res (receive_all K i ps sr)
    = net_frames (\<lambda>i. base (K i)) i (if_list sr) (routing_table sr) ls ps (net_of sr)"
  using assms(1,3)
proof (induction ps arbitrary: i sr)
  case (Cons p ps)
  let ?l = "learns (cache sr) (ar_sip (frame_arp (snd p)))"
  have len: "length (snd p) < 2 ^ 31" using Cons.prems(2) by simp
  obtain j where "sr_get_interface sr (fst p) = Some j" using Cons.prems(2) by auto
  then have r: "net_res (receive (base (K i)) sr (fst p) (snd p))
      = net_frame (base (K i)) (if_list sr) (routing_table sr) ?l (fst p) (snd p) (net_of sr)"
    using receive_net [OF Cons.prems(1) _ len] assms(2) by blast
  show ?case
  proof (cases "receive (base (K i)) sr (fst p) (snd p)")
    case (Inl e)
    then show ?thesis using r by (intro exI [of _ "?l # map (\<lambda>_. True) ps"]) simp
  next
    case (Inr sr1)
    have c: "router_inv sr1" "if_list sr1 = if_list sr" "routing_table sr1 = routing_table sr"
      using receive_inv [OF Inr Cons.prems(1) len] by simp_all
    have "\<forall>p\<in>set ps. length (snd p) < 2 ^ 31 \<and> sr_get_interface sr1 (fst p) \<noteq> None"
      using Cons.prems(2) sr_get_interface_cong [OF c(2)] by simp
    then obtain ls where "length ls = length ps" "net_res (receive_all K (Suc i) ps sr1)
        = net_frames (\<lambda>i. base (K i)) (Suc i) (if_list sr) (routing_table sr) ls ps (net_of sr1)"
      using Cons.IH [OF c(1), of "Suc i"] c by auto
    then show ?thesis using r Inr by (intro exI [of _ "?l # ls"]) (simp flip: r)
  qed
qed simp

section \<open>Property\<close>

text \<open>C3: the main loop on a session of frames, however the stream is cut, computes the abstract router:
  if that is defined on all the frames, the loop returns with exactly the neighbours, waiting packets and
  sent bytes it says; if not, the loop ends in a fault.\<close>

theorem session_refines_net:
  assumes "intact (incoming s)" "stream (incoming s) = frames_msg ps @ server_msg VNSCLOSE reason"
    and "\<forall>p\<in>set ps. deliverable p" "8 + length reason \<le> 10000" "0 \<in> set reason"
    and "router_inv (inst s)" "\<forall>i. full_write (base (K i))"
    and "\<forall>p\<in>set ps. sr_get_interface (inst s) (fst p) \<noteq> None"
  shows "\<exists>ls. length ls = length ps \<and>
    (case net_frames (\<lambda>i. base (K i)) 0 (if_list (inst s)) (routing_table (inst s)) ls ps (net_of (inst s)) of
       None \<Rightarrow> \<exists>e. main_loop K 0 s = Inl e
     | Some n \<Rightarrow> \<exists>s'. main_loop K 0 s = Inr (s', 0) \<and> net_of (inst s') = n)"
proof -
  obtain rxs where m: "main_loop K 0 s
      = rbind (receive_all K 0 ps (inst s)) (\<lambda>sr. Inr (s\<lparr>incoming := rxs, inst := sr\<rparr>, 0))"
    using main_loop_session [OF assms(1-5)] by blast
  have "\<forall>p\<in>set ps. length (snd p) < 2 ^ 31 \<and> sr_get_interface (inst s) (fst p) \<noteq> None"
    using assms(3,8) by (fastforce simp: deliverable_def)
  then obtain ls where "length ls = length ps" and r: "net_res (receive_all K 0 ps (inst s))
      = net_frames (\<lambda>i. base (K i)) 0 (if_list (inst s)) (routing_table (inst s)) ls ps (net_of (inst s))"
    using receive_all_net [OF assms(6,7)] by blast
  then show ?thesis
    unfolding m by (intro exI [of _ ls]) (cases "receive_all K 0 ps (inst s)"; simp flip: r)
qed

theorem session_refines_net_witness:
  "\<exists>s'. main_loop (\<lambda>_. ex_host) 0 (ex_stream (frames_msg [(if_name ex_if1, ex_udp)] @ server_msg VNSCLOSE [0]))
      = Inr (s', 0) \<and> length (transmitted (net_of (inst s'))) = 1"
proof -
  let ?s = "ex_stream (frames_msg [(if_name ex_if1, ex_udp)] @ server_msg VNSCLOSE [0])"
  have d: "deliverable (if_name ex_if1, ex_udp)" by code_simp
  have s: "inst ?s = ex_router\<lparr>user := user (inst ?s), template := template (inst ?s)\<rparr>"
    by (simp add: ex_stream_def ex_session_def)
  have same: "if_list (inst ?s) = if_list ex_router" "routing_table (inst ?s) = routing_table ex_router"
    "cache (inst ?s) = cache ex_router" "wire (inst ?s) = wire ex_router" by (subst s; simp)+
  then have inv: "router_inv (inst ?s)"
    using ex_router_inv wire_msg_ok_cong [OF same(1)] queued_ok_cong [OF same(2)]
    by (simp add: router_inv_def queue_ok_def)
  have i: "sr_get_interface (inst ?s) (if_name ex_if1) \<noteq> None"
  proof -
    have "sr_get_interface ex_router (if_name ex_if1) = Some ex_if1" by code_simp
    then show ?thesis using sr_get_interface_cong [OF same(1)] by simp
  qed
  have net: "net_of (inst ?s) = net_of ex_router" using same by (simp add: net_of_def)
  have "full_write (base ex_host)" by (simp add: full_write_def ex_host_def ex_env_def)
  then obtain ls where ls: "length ls = 1" "case net_frames (\<lambda>i. base ex_host) 0 (if_list ex_router)
      (routing_table ex_router) ls [(if_name ex_if1, ex_udp)] (net_of ex_router) of
      None \<Rightarrow> \<exists>e. main_loop (\<lambda>_. ex_host) 0 ?s = Inl e
    | Some n \<Rightarrow> \<exists>s'. main_loop (\<lambda>_. ex_host) 0 ?s = Inr (s', 0) \<and> net_of (inst s') = n"
    using session_refines_net [of ?s "[(if_name ex_if1, ex_udp)]" "[0]" "\<lambda>_. ex_host"] ex_stream d inv i
    unfolding same net by auto
  obtain l where l: "ls = [l]" using ls(1) by (cases ls) auto
  have h: "base ex_host = ex_env" by (simp add: ex_host_def)
  have "case net_frame ex_env (if_list ex_router) (routing_table ex_router) l (if_name ex_if1) ex_udp (net_of ex_router) of
      None \<Rightarrow> False | Some n \<Rightarrow> length (transmitted n) = 1"
    by (cases l) code_simp+
  then show ?thesis using ls(2) by (auto simp: l h split: option.splits)
qed

end
