(* ===== verification/Sr_Load_Rt.thy ===== *)
theory Sr_Load_Rt
  imports Sr_Rt
begin

text \<open>
  \<open>sr_load_rt\<close> of \<open>sr_rt.c\<close>: the routing table read from a file, line by line, with the C library's
  \<open>fgets\<close>, \<open>sscanf\<close> and \<open>inet_aton\<close>. The four local arrays keep their contents from line to line.
\<close>

section \<open>inet_aton\<close>

definition is_digit :: "u8 \<Rightarrow> bool" where
  "is_digit c \<longleftrightarrow> 48 \<le> c \<and> c \<le> 57"

definition is_space :: "u8 \<Rightarrow> bool" where
  "is_space c \<longleftrightarrow> c = 32 \<or> 9 \<le> c \<and> c \<le> 13"

text \<open>The value of a digit or letter; 36 for anything else.\<close>

definition digit_value :: "u8 \<Rightarrow> nat" where
  "digit_value c =
     (if is_digit c then unat c - 48
      else if 97 \<le> c \<and> c \<le> 122 then unat c - 87
      else if 65 \<le> c \<and> c \<le> 90 then unat c - 55 else 36)"

definition base_number :: "nat \<Rightarrow> bytes \<Rightarrow> nat \<times> bytes" where
  "base_number b s =
     (foldl (\<lambda>v c. b * v + digit_value c) 0 (takeWhile (\<lambda>c. digit_value c < b) s),
      dropWhile (\<lambda>c. digit_value c < b) s)"

text \<open>\<open>strtoul\<close> with base 0, on a string that starts with a digit: C's notation for numbers.\<close>

definition c_strtoul :: "bytes \<Rightarrow> nat \<times> bytes" where
  "c_strtoul s =
     (case s of
        c # x # d # r \<Rightarrow>
          if c = 48 \<and> (x = 120 \<or> x = 88) \<and> digit_value d < 16 then base_number 16 (d # r)
          else if c = 48 then base_number 8 s else base_number 10 s
      | c # _ \<Rightarrow> if c = 48 then base_number 8 s else base_number 10 s
      | [] \<Rightarrow> (0, []))"

text \<open>
  The numbers of an address: up to four, the last one fills the bytes that are left. \<open>k\<close> is how many
  dots may still come. White space may follow.
\<close>

fun inet_parts :: "nat \<Rightarrow> bytes \<Rightarrow> nat list option" where
  "inet_parts k s =
     (if s = [] \<or> \<not> is_digit (hd s) then None
      else let (v, r) = c_strtoul s in
        if 0xffffffff < v then None
        else if r \<noteq> [] \<and> hd r = 46 then
          (case k of 0 \<Rightarrow> None
           | Suc k' \<Rightarrow> if 0xff < v then None else map_option ((#) v) (inet_parts k' (tl r)))
        else if r \<noteq> [] \<and> \<not> is_space (hd r) then None
        else if 256 ^ (k + 1) - 1 < v then None
        else Some [v])"

declare inet_parts.simps [simp del]

definition inet_aton :: "bytes \<Rightarrow> u32 option" where
  "inet_aton s = map_option (\<lambda>vs.
     let p = map of_nat (butlast vs) @ replicate (4 - length (butlast vs)) 0
     in of_le32 (p ! 0) (p ! 1) (p ! 2) (p ! 3) OR htonl (of_nat (last vs))) (inet_parts 3 s)"

section \<open>Scanning a line\<close>

text \<open>\<open>sscanf\<close> with \<open>%s\<close>: the words of the line, at most \<open>n\<close>; it stops at the end of the line.\<close>

fun scan_words :: "nat \<Rightarrow> bytes \<Rightarrow> bytes list" where
  "scan_words 0 s = []"
| "scan_words (Suc n) s =
     (let s = dropWhile is_space s in
      if s = [] then []
      else takeWhile (\<lambda>c. \<not> is_space c) s # scan_words n (dropWhile (\<lambda>c. \<not> is_space c) s))"

text \<open>A word and its NUL are written into an array without a check of its size; arrays beyond the
  words of the line are left alone.\<close>

definition store_word :: "bytes \<Rightarrow> bytes \<Rightarrow> bytes res" where
  "store_word w array =
     (if length array < length w + 1 then Inl OutOfBounds else Inr (w @ 0 # drop (length w + 1) array))"

fun store_words :: "bytes list \<Rightarrow> bytes list \<Rightarrow> bytes list res" where
  "store_words (w # ws) (a # as) =
     rbind (store_word w a) (\<lambda>a. rbind (store_words ws as) (\<lambda>as. Inr (a # as)))"
| "store_words ws as = Inr as"

section \<open>The routing table file\<close>

definition BUFSIZ :: nat where "BUFSIZ = 8192"

record load_state =
  ld_arrays :: "bytes list"
  ld_cleared :: bool
  ld_sr :: sr_instance

text \<open>\<open>inet_aton\<close> on one of the arrays, which is read as a string.\<close>

definition aton_array :: "bytes \<Rightarrow> u32 option res" where
  "aton_array a = rbind (c_string a) (\<lambda>s. Inr (inet_aton s))"

text \<open>The body of the loop; \<open>False\<close> is the early return of -1. The old table goes at the first good line.\<close>

definition load_line :: "bytes \<Rightarrow> load_state \<Rightarrow> (load_state \<times> bool) res" where
  "load_line line s =
     rbind (store_words (scan_words 4 (cstr line)) (ld_arrays s)) (\<lambda>as.
     let s = s\<lparr>ld_arrays := as\<rparr> in
     rbind (aton_array (as ! 0)) (\<lambda>dest. case dest of None \<Rightarrow> Inr (s, False) | Some dest \<Rightarrow>
     rbind (aton_array (as ! 1)) (\<lambda>gw. case gw of None \<Rightarrow> Inr (s, False) | Some gw \<Rightarrow>
     rbind (aton_array (as ! 2)) (\<lambda>msk. case msk of None \<Rightarrow> Inr (s, False) | Some msk \<Rightarrow>
     let sr = (if \<not> ld_cleared s then (ld_sr s)\<lparr>routing_table := []\<rparr> else ld_sr s)
     in Inr (s\<lparr>ld_cleared := True, ld_sr := sr_add_rt_entry sr dest gw msk (as ! 3)\<rparr>, True)))))"

lemma c_fgets_shrinks: "c_fgets n s = Some (l, r) \<Longrightarrow> 1 < n \<Longrightarrow> length r < length s"
  by (cases s) (auto simp: c_fgets_def first_line_def Let_def take_Cons split: if_splits nat.splits)

function load_loop :: "bytes \<Rightarrow> load_state \<Rightarrow> (load_state \<times> bool) res" where
  "load_loop file s =
     (case c_fgets BUFSIZ file of
        None \<Rightarrow> Inr (s, True)
      | Some (line, rest) \<Rightarrow>
        (case load_line line s of
           Inl e \<Rightarrow> Inl e
         | Inr (s', ok) \<Rightarrow> if ok then load_loop rest s' else Inr (s', False)))"
  by pat_completeness auto
termination
  by (relation "measure (\<lambda>(file, s). length file)") (auto simp: BUFSIZ_def dest: c_fgets_shrinks)

declare load_loop.simps [simp del]

text \<open>\<open>file\<close> is the contents of a readable file; \<open>arrays\<close> what the four arrays hold at the start.\<close>

definition sr_load_rt :: "bytes list \<Rightarrow> sr_instance \<Rightarrow> bytes option \<Rightarrow> (sr_instance \<times> int) res" where
  "sr_load_rt arrays sr file =
     (case file of
        None \<Rightarrow> Inr (sr, -1)
      | Some contents \<Rightarrow>
          rbind (load_loop contents \<lparr>ld_arrays = arrays, ld_cleared = False, ld_sr = sr\<rparr>) (\<lambda>(s, ok).
          Inr (ld_sr s, if ok then 0 else -1)))"

section \<open>Dotted addresses\<close>

text \<open>\<open>%d\<close>, and an address as the printers of the router write it.\<close>

fun decimal :: "nat \<Rightarrow> bytes" where
  "decimal n = (if n < 10 then [48 + of_nat n] else decimal (n div 10) @ [48 + of_nat (n mod 10)])"

declare decimal.simps [simp del]

fun dotted :: "nat list \<Rightarrow> bytes" where
  "dotted [] = []"
| "dotted [n] = decimal n"
| "dotted (n # m # ns) = decimal n @ 46 # dotted (m # ns)"

lemma digit_char:
  assumes "n < 10"
  shows "is_digit (48 + of_nat n)" "digit_value (48 + of_nat n) = n" "48 + of_nat n = (48 :: u8) \<longleftrightarrow> n = 0"
proof -
  have u: "unat (48 + of_nat n :: u8) = 48 + n" using assms by (simp add: unat_word_ariths unat_of_nat)
  then show d: "is_digit (48 + of_nat n)" using assms by (simp add: is_digit_def word_le_nat_alt)
  then show "digit_value (48 + of_nat n) = n" using u by (simp add: digit_value_def)
  show "48 + of_nat n = (48 :: u8) \<longleftrightarrow> n = 0"
  proof
    assume "48 + of_nat n = (48 :: u8)"
    then have "unat (48 + of_nat n :: u8) = unat (48 :: u8)" by (simp only:)
    then show "n = 0" using u by simp
  qed simp
qed

lemma digit_value_digit: "is_digit c \<Longrightarrow> digit_value c < 10"
proof -
  assume d: "is_digit c"
  then have "unat c \<le> 57" by (simp add: is_digit_def word_le_nat_alt)
  then show ?thesis using d by (simp add: digit_value_def)
qed

lemma decimal_digits: "\<forall>c\<in>set (decimal n). is_digit c"
proof (induction n rule: decimal.induct)
  case (1 n)
  then show ?case by (subst decimal.simps) (auto simp: digit_char)
qed

lemma decimal_head: "decimal n \<noteq> [] \<and> (hd (decimal n) = 48 \<longrightarrow> n = 0)"
proof (induction n rule: decimal.induct)
  case (1 n)
  show ?case
  proof (cases "n < 10")
    case False
    then have "decimal (n div 10) \<noteq> [] \<and> hd (decimal (n div 10)) \<noteq> 48" using 1 by auto
    then show ?thesis using False by (simp add: decimal.simps [of n])
  qed (use digit_char(3) [of n] in \<open>auto simp: decimal.simps [of n]\<close>)
qed

lemma decimal_value: "foldl (\<lambda>v c. 10 * v + digit_value c) 0 (decimal n) = n"
proof (induction n rule: decimal.induct)
  case (1 n)
  then show ?case by (subst decimal.simps) (auto simp: digit_char)
qed

lemma takeWhile_prefix:
  "(\<forall>c\<in>set xs. P c) \<Longrightarrow> r = [] \<or> \<not> P (hd r) \<Longrightarrow> takeWhile P (xs @ r) = xs \<and> dropWhile P (xs @ r) = r"
  by (induction xs) (cases r; auto)+

lemma c_strtoul_decimal:
  assumes "r = [] \<or> hd r = 46 \<or> is_space (hd r)"
  shows "c_strtoul (decimal n @ r) = (n, r)"
proof -
  have nd: "\<not> digit_value c < 10 \<and> c \<noteq> 120 \<and> c \<noteq> 88" if "c = 46 \<or> is_space c" for c
  proof -
    have "unat c < 48" using that by (auto simp: is_space_def word_le_nat_alt word_less_nat_alt)
    then have "\<not> is_digit c" "\<not> 97 \<le> c" "\<not> 65 \<le> c" "unat c \<noteq> 120" "unat c \<noteq> 88"
      by (auto simp: is_digit_def word_le_nat_alt)
    then show ?thesis by (auto simp: digit_value_def word_unat_eq_iff)
  qed
  have r: "r = [] \<or> \<not> digit_value (hd r) < 10" using assms nd by blast
  show ?thesis
  proof (cases "n = 0")
    case True
    have "decimal n = [48]" by (simp add: True decimal.simps)
    moreover have "digit_value 48 = 0" using digit_char(2) [of 0] by simp
    moreover have "r = [] \<or> \<not> digit_value (hd r) < 8" using r by auto
    moreover have "\<not> is_space 120" "\<not> is_space 88" by (simp_all add: is_space_def)
    ultimately show ?thesis
      using True assms
      by (auto simp: c_strtoul_def base_number_def split: list.split)
  next
    case False
    obtain c cs where d: "decimal n = c # cs" "c \<noteq> 48" using decimal_head [of n] False by (cases "decimal n") auto
    have "\<forall>c\<in>set (decimal n). digit_value c < 10" using decimal_digits digit_value_digit by blast
    then have "takeWhile (\<lambda>c. digit_value c < 10) (decimal n @ r) = decimal n
        \<and> dropWhile (\<lambda>c. digit_value c < 10) (decimal n @ r) = r"
      using r by (rule takeWhile_prefix)
    then have "base_number 10 (decimal n @ r) = (n, r)" by (simp add: base_number_def decimal_value)
    then show ?thesis using d by (auto simp: c_strtoul_def split: list.split)
  qed
qed

lemma inet_parts_dot:
  assumes "n < 256"
  shows "inet_parts (Suc k) (decimal n @ 46 # r) = map_option ((#) n) (inet_parts k r)"
  using assms decimal_head [of n] decimal_digits [of n] c_strtoul_decimal [of "46 # r" n]
  by (subst inet_parts.simps) (cases "decimal n", auto)

lemma inet_parts_last:
  assumes "n < 256"
  shows "inet_parts 0 (decimal n) = Some [n]"
  using assms decimal_head [of n] decimal_digits [of n] c_strtoul_decimal [of "[]" n]
  by (subst inet_parts.simps) (cases "decimal n", auto)

lemma inet_aton_dotted: "inet_aton (dotted (map unat [a, b, c, d])) = Some (of_le32 a b c d)"
proof -
  have p: "inet_parts 3 (dotted (map unat [a, b, c, d])) = Some (map unat [a, b, c, d])"
    using unat_u8_less by (simp add: eval_nat_numeral inet_parts_dot inet_parts_last)
  have "(of_nat (unat d) :: u32) = of_le32 d 0 0 0"
    by (rule word_unat_eq_iff [THEN iffD2])
      (use unat_u8_less [of d] in \<open>simp add: of_le32_def unat_of_nat take_bit_nat_eq_self\<close>)
  then have "htonl (of_nat (unat d)) = of_le32 0 0 0 d" by (simp add: htonl_of_le32)
  moreover have "of_le32 a b c 0 OR of_le32 0 0 0 d = of_le32 a b c d" by (simp add: of_le32_def or.assoc)
  ultimately show ?thesis unfolding inet_aton_def p by (simp add: Let_def)
qed

section \<open>A table written out\<close>

text \<open>A route as a line of the file: three addresses and an interface name, as the printer writes them.\<close>

record route_line =
  ln_dest :: u32
  ln_gw :: u32
  ln_mask :: u32
  ln_iface :: bytes

definition addr_text :: "u32 \<Rightarrow> bytes" where
  "addr_text a = dotted (print_addr_ip_int (ntohl a))"

definition route_text :: "route_line \<Rightarrow> bytes" where
  "route_text l = addr_text (ln_dest l) @ 32 # addr_text (ln_gw l) @ 32 # addr_text (ln_mask l)
     @ 32 # ln_iface l @ [10]"

definition table_text :: "route_line list \<Rightarrow> bytes" where
  "table_text ls = concat (map route_text ls)"

definition iface_word :: "bytes \<Rightarrow> bool" where
  "iface_word w \<longleftrightarrow> w \<noteq> [] \<and> length w < 32 \<and> (\<forall>c\<in>set w. \<not> is_space c \<and> c \<noteq> 0)"

definition route_of :: "route_line \<Rightarrow> sr_rt" where
  "route_of l = \<lparr>rt_dest = ln_dest l, rt_gw = ln_gw l, rt_mask = ln_mask l,
     rt_interface = c_strncpy sr_IFACE_NAMELEN (ln_iface l)\<rparr>"

lemma of_le32_surj: "\<exists>a b c d. (w :: u32) = of_le32 a b c d"
  by (metis of_le32_le32)

lemma addr_text_dotted: "\<exists>a b c d. w = of_le32 a b c d \<and> addr_text w = dotted (map unat [a, b, c, d])"
proof -
  obtain a b c d where "w = of_le32 a b c d" using of_le32_surj by blast
  then show ?thesis unfolding addr_text_def using printed_address by metis
qed

lemma inet_aton_addr: "inet_aton (addr_text w) = Some w"
  using addr_text_dotted [of w] inet_aton_dotted by metis

lemma length_decimal_u8: "length (decimal (unat (b :: u8))) \<le> 3"
proof -
  have "unat b < 1000" using unat_u8_less [of b] by simp
  then have "unat b div 10 div 10 < 10" by simp
  then show ?thesis
    by (simp add: decimal.simps [of "unat b"] decimal.simps [of "unat b div 10"]
        decimal.simps [of "unat b div 10 div 10"])
qed

lemma is_digit_plain: "is_digit c \<or> c = 46 \<Longrightarrow> \<not> is_space c \<and> c \<noteq> 0"
  by (auto simp: is_digit_def is_space_def word_le_nat_alt)

lemma addr_text_word: "iface_word (addr_text w)" "length (addr_text w) \<le> 15"
proof -
  from addr_text_dotted [of w] obtain a b c d where
    "w = of_le32 a b c d \<and> addr_text w = dotted (map unat [a, b, c, d])" by (elim exE)
  then have t: "addr_text w = dotted (map unat [a, b, c, d])" ..
  show l: "length (addr_text w) \<le> 15"
    using length_decimal_u8 [of a] length_decimal_u8 [of b] length_decimal_u8 [of c]
      length_decimal_u8 [of d] by (simp add: t)
  have "\<forall>c\<in>set (addr_text w). is_digit c \<or> c = 46" using decimal_digits by (auto simp: t)
  then have "\<forall>c\<in>set (addr_text w). \<not> is_space c \<and> c \<noteq> 0" using is_digit_plain by blast
  moreover have "addr_text w \<noteq> []" using decimal_head by (simp add: t)
  ultimately show "iface_word (addr_text w)" using l by (simp add: iface_word_def)
qed

section \<open>Reading a table\<close>

lemma scan_words_step:
  assumes "iface_word w" "is_space c"
  shows "scan_words (Suc n) (w @ c # r) = w # scan_words n (c # r)"
    "scan_words (Suc n) (32 # w @ c # r) = w # scan_words n (c # r)"
proof -
  obtain x xs where w: "w = x # xs" "\<not> is_space x" using assms(1) by (cases w) (auto simp: iface_word_def)
  have "\<forall>c\<in>set w. \<not> is_space c" using assms(1) by (simp add: iface_word_def)
  then have "takeWhile (\<lambda>c. \<not> is_space c) (w @ c # r) = w \<and> dropWhile (\<lambda>c. \<not> is_space c) (w @ c # r) = c # r"
    using assms(2) by (intro takeWhile_prefix) simp_all
  moreover have "is_space 32" by (simp add: is_space_def)
  ultimately show "scan_words (Suc n) (w @ c # r) = w # scan_words n (c # r)"
    "scan_words (Suc n) (32 # w @ c # r) = w # scan_words n (c # r)"
    using w by (simp_all add: Let_def)
qed

lemma scan_route:
  assumes "iface_word (ln_iface l)"
  shows "scan_words 4 (route_text l) = [addr_text (ln_dest l), addr_text (ln_gw l), addr_text (ln_mask l), ln_iface l]"
proof -
  have sp: "is_space 32" "is_space 10" by (simp_all add: is_space_def)
  have "scan_words 4 s = scan_words (Suc (Suc (Suc (Suc 0)))) s" for s by (simp add: eval_nat_numeral)
  then show ?thesis
    using assms addr_text_word(1) sp by (simp add: route_text_def scan_words_step del: scan_words.simps(2))
qed

lemma cstr_no_NUL: "(\<forall>c\<in>set s. c \<noteq> 0) \<Longrightarrow> cstr s = s"
  by (simp add: cstr_def takeWhile_all)

lemma route_text_no_NUL: "iface_word (ln_iface l) \<Longrightarrow> \<forall>c\<in>set (route_text l). c \<noteq> 0"
  using addr_text_word(1) by (auto simp: route_text_def iface_word_def)

lemma aton_stored: "aton_array (addr_text w @ 0 # r) = Inr (Some w)"
proof -
  have "0 \<notin> set (addr_text w)" using addr_text_word(1) [of w] by (auto simp: iface_word_def)
  then show ?thesis by (simp add: aton_array_def c_string_NUL inet_aton_addr)
qed

text \<open>What the arrays hold after a good line.\<close>

definition arrays_hold :: "route_line \<Rightarrow> bytes list \<Rightarrow> bool" where
  "arrays_hold l as \<longleftrightarrow> (\<exists>r0 r1 r2 r3. as = [addr_text (ln_dest l) @ 0 # r0, addr_text (ln_gw l) @ 0 # r1,
      addr_text (ln_mask l) @ 0 # r2, ln_iface l @ 0 # r3] \<and> (\<forall>a\<in>set as. length a = 32))"

definition arrays_ok :: "bytes list \<Rightarrow> bool" where
  "arrays_ok as \<longleftrightarrow> length as = 4 \<and> (\<forall>a\<in>set as. length a = 32)"

definition add_route :: "route_line \<Rightarrow> bool \<Rightarrow> sr_instance \<Rightarrow> sr_instance" where
  "add_route l cleared sr = sr\<lparr>routing_table := (if cleared then routing_table sr else []) @ [route_of l]\<rparr>"

lemma store_route:
  assumes "arrays_ok as" "iface_word (ln_iface l)"
  shows "\<exists>as'. store_words [addr_text (ln_dest l), addr_text (ln_gw l), addr_text (ln_mask l), ln_iface l] as = Inr as'
    \<and> arrays_hold l as'"
proof -
  obtain a0 a1 a2 a3 where as: "as = [a0, a1, a2, a3]"
    using assms(1) by (auto simp: arrays_ok_def eval_nat_numeral length_Suc_conv)
  have len: "length (addr_text w) \<le> 31" "length (ln_iface l) \<le> 31" for w
    using addr_text_word(2) [of w] assms(2) by (simp_all add: iface_word_def)
  show ?thesis
    using assms(1) len by (auto simp: as arrays_ok_def store_word_def arrays_hold_def not_less)
qed

lemma load_held:
  assumes "arrays_hold l as" "store_words (scan_words 4 (cstr line)) (ld_arrays s) = Inr as"
    "iface_word (ln_iface l)"
  shows "load_line line s = Inr (\<lparr>ld_arrays = as, ld_cleared = True, ld_sr = add_route l (ld_cleared s) (ld_sr s)\<rparr>, True)"
proof -
  obtain r0 r1 r2 r3 where as: "as = [addr_text (ln_dest l) @ 0 # r0, addr_text (ln_gw l) @ 0 # r1,
      addr_text (ln_mask l) @ 0 # r2, ln_iface l @ 0 # r3]" using assms(1) by (auto simp: arrays_hold_def)
  have "cstr (ln_iface l @ 0 # r3) = ln_iface l" "cstr (ln_iface l) = ln_iface l"
    using assms(3) by (auto simp: iface_word_def cstr_def takeWhile_append takeWhile_all)
  then have n: "c_strncpy n (ln_iface l @ 0 # r3) = c_strncpy n (ln_iface l)" for n
    by (simp add: c_strncpy_def)
  show ?thesis
    using assms(2)
    by (cases s) (auto simp: load_line_def as aton_stored add_route_def sr_add_rt_entry_def route_of_def n
        Let_def split: list.split)
qed

lemma load_route:
  assumes "arrays_ok (ld_arrays s)" "iface_word (ln_iface l)"
  shows "\<exists>as. load_line (route_text l) s
      = Inr (\<lparr>ld_arrays = as, ld_cleared = True, ld_sr = add_route l (ld_cleared s) (ld_sr s)\<rparr>, True)
    \<and> arrays_hold l as"
proof -
  obtain as where "store_words (scan_words 4 (cstr (route_text l))) (ld_arrays s) = Inr as" "arrays_hold l as"
    using store_route [OF assms] by (auto simp: scan_route [OF assms(2)] cstr_no_NUL [OF route_text_no_NUL [OF assms(2)]])
  then show ?thesis using load_held assms(2) by blast
qed

lemma arrays_hold_ok: "arrays_hold l as \<Longrightarrow> arrays_ok as"
  by (auto simp: arrays_hold_def arrays_ok_def)

lemma fgets_line:
  assumes "10 \<notin> set x" "length x < 8191"
  shows "c_fgets BUFSIZ (x @ 10 # r) = Some (x @ [10], r)"
proof -
  have "takeWhile (\<lambda>c. c \<noteq> 10) (x @ 10 # r) = x \<and> dropWhile (\<lambda>c. c \<noteq> 10) (x @ 10 # r) = 10 # r"
    using assms(1) by (intro takeWhile_prefix) auto
  then have "first_line (x @ 10 # r) = x @ [10]" by (simp add: first_line_def)
  then show ?thesis using assms(2) by (simp add: c_fgets_def BUFSIZ_def Let_def)
qed

lemma fgets_route: "iface_word (ln_iface l) \<Longrightarrow> c_fgets BUFSIZ (route_text l @ r) = Some (route_text l, r)"
proof -
  assume w: "iface_word (ln_iface l)"
  let ?x = "addr_text (ln_dest l) @ 32 # addr_text (ln_gw l) @ 32 # addr_text (ln_mask l) @ 32 # ln_iface l"
  have sp: "is_space 10" by (simp add: is_space_def)
  have "10 \<notin> set v" if "iface_word v" for v using that sp by (auto simp: iface_word_def)
  then have "10 \<notin> set ?x" using w addr_text_word(1) by simp
  moreover have "length ?x < 8191"
    using addr_text_word(2) [of "ln_dest l"] addr_text_word(2) [of "ln_gw l"]
      addr_text_word(2) [of "ln_mask l"] w by (simp add: iface_word_def)
  ultimately show ?thesis using fgets_line [of ?x r] by (simp add: route_text_def)
qed

definition loaded :: "bool \<Rightarrow> sr_instance \<Rightarrow> route_line list \<Rightarrow> sr_instance" where
  "loaded cleared sr ls = (if ls = [] then sr
     else sr\<lparr>routing_table := (if cleared then routing_table sr else []) @ map route_of ls\<rparr>)"

lemma load_loop_table:
  assumes "arrays_ok as0" "\<forall>l\<in>set ls. iface_word (ln_iface l)"
  shows "\<exists>as. load_loop (table_text ls @ rest) \<lparr>ld_arrays = as0, ld_cleared = c, ld_sr = sr\<rparr>
      = load_loop rest \<lparr>ld_arrays = as, ld_cleared = (c \<or> ls \<noteq> []), ld_sr = loaded c sr ls\<rparr>
    \<and> arrays_ok as \<and> (ls \<noteq> [] \<longrightarrow> arrays_hold (last ls) as)"
  using assms
proof (induction ls arbitrary: as0 c sr)
  case Nil
  then show ?case by (intro exI [of _ as0]) (simp add: table_text_def loaded_def)
next
  case (Cons l ls)
  let ?s = "\<lparr>ld_arrays = as0, ld_cleared = c, ld_sr = sr\<rparr>"
  obtain as where as: "load_line (route_text l) ?s
      = Inr (\<lparr>ld_arrays = as, ld_cleared = True, ld_sr = add_route l c sr\<rparr>, True)"
    "arrays_hold l as" using load_route [of ?s l] Cons.prems by auto
  let ?s1 = "\<lparr>ld_arrays = as, ld_cleared = True, ld_sr = add_route l c sr\<rparr>"
  have step: "load_loop (table_text (l # ls) @ rest) ?s = load_loop (table_text ls @ rest) ?s1"
  proof -
    have t: "table_text (l # ls) @ rest = route_text l @ table_text ls @ rest" by (simp add: table_text_def)
    show ?thesis unfolding t
      by (subst load_loop.simps) (use as(1) Cons.prems(2) fgets_route [of l "table_text ls @ rest"] in simp)
  qed
  have "arrays_ok as" "\<forall>l\<in>set ls. iface_word (ln_iface l)"
    using as(2) arrays_hold_ok Cons.prems(2) by simp_all
  from Cons.IH [OF this, of True "add_route l c sr"]
  obtain as' where as': "load_loop (table_text ls @ rest) ?s1
      = load_loop rest \<lparr>ld_arrays = as', ld_cleared = True, ld_sr = loaded True (add_route l c sr) ls\<rparr>"
    "arrays_ok as'" "ls \<noteq> [] \<longrightarrow> arrays_hold (last ls) as'" "ls = [] \<longrightarrow> as' = as"
    using as(2) arrays_hold_ok by (cases "ls = []") (auto simp: table_text_def loaded_def)
  have "loaded True (add_route l c sr) ls = loaded c sr (l # ls)"
    by (simp add: loaded_def add_route_def)
  then show ?case
    using as' step as(2) by (intro exI [of _ as']) simp
qed

lemma load_loop_end: "load_loop [] s = Inr (s, True)"
  by (simp add: load_loop.simps c_fgets_def)

lemma load_table:
  assumes "arrays_ok arrays" "\<forall>l\<in>set ls. iface_word (ln_iface l)"
  shows "sr_load_rt arrays sr (Some (table_text ls))
    = Inr (sr\<lparr>routing_table := (if ls = [] then routing_table sr else map route_of ls)\<rparr>, 0)"
proof -
  let ?s = "\<lparr>ld_arrays = arrays, ld_cleared = False, ld_sr = sr\<rparr>"
  obtain as where "load_loop (table_text ls @ []) ?s = load_loop []
      \<lparr>ld_arrays = as, ld_cleared = (False \<or> ls \<noteq> []), ld_sr = loaded False sr ls\<rparr>"
    using load_loop_table [OF assms] by blast
  then show ?thesis by (simp add: sr_load_rt_def load_loop_end loaded_def)
qed

section \<open>Properties\<close>



text \<open>a blank line at the end of the file adds the last route a second time, because the arrays still
  hold its words.\<close>

theorem blank_line_repeats_route:
  assumes "arrays_ok arrays" "\<forall>l\<in>set ls. iface_word (ln_iface l)" "ls \<noteq> []"
  shows "sr_load_rt arrays sr (Some (table_text ls @ [10]))
    = Inr (sr\<lparr>routing_table := map route_of ls @ [route_of (last ls)]\<rparr>, 0)"
proof -
  let ?s = "\<lparr>ld_arrays = arrays, ld_cleared = False, ld_sr = sr\<rparr>"
  obtain as where as: "load_loop (table_text ls @ [10]) ?s = load_loop [10]
      \<lparr>ld_arrays = as, ld_cleared = (False \<or> ls \<noteq> []), ld_sr = loaded False sr ls\<rparr>"
    "arrays_hold (last ls) as"
    using load_loop_table [OF assms(1,2)] assms(3) by blast
  let ?s2 = "\<lparr>ld_arrays = as, ld_cleared = True, ld_sr = sr\<lparr>routing_table := map route_of ls\<rparr>\<rparr>"
  have "is_space 10" "cstr [10] = [10]" by (simp_all add: is_space_def cstr_def)
  then have "scan_words (Suc n) (cstr [10]) = []" for n by (simp add: Let_def)
  from this [of 3] have "scan_words 4 (cstr [10]) = []" by simp
  then have "load_line [10] ?s2 = Inr (\<lparr>ld_arrays = as, ld_cleared = True,
      ld_sr = add_route (last ls) True (sr\<lparr>routing_table := map route_of ls\<rparr>)\<rparr>, True)"
    using load_held [OF as(2), of "[10]" ?s2] assms(2,3) by simp
  moreover have "c_fgets BUFSIZ [10] = Some ([10], [])" using fgets_line [of "[]" "[]"] by simp
  ultimately have "load_loop [10] ?s2 = Inr (\<lparr>ld_arrays = as, ld_cleared = True,
      ld_sr = add_route (last ls) True (sr\<lparr>routing_table := map route_of ls\<rparr>)\<rparr>, True)"
    by (simp add: load_loop.simps [of "[10]"] load_loop_end)
  then show ?thesis using as(1) assms(3) by (simp add: sr_load_rt_def add_route_def loaded_def)
qed

theorem blank_line_repeats_route_witness:
  "\<exists>sr. sr_load_rt (replicate 4 (replicate 32 7)) ex_router (Some (table_text
     [\<lparr>ln_dest = 0, ln_gw = 1, ln_mask = 0xFFFFFFFF, ln_iface = [101, 116, 104, 49]\<rparr>] @ [10]))
   = Inr (sr, 0) \<and> length (routing_table sr) = 2"
proof -
  have "arrays_ok (replicate 4 (replicate 32 7))" by (simp add: arrays_ok_def)
  moreover have "iface_word [101, 116, 104, 49]" by (simp add: iface_word_def is_space_def)
  ultimately show ?thesis
    using blank_line_repeats_route [of "replicate 4 (replicate 32 7)"
      "[\<lparr>ln_dest = 0, ln_gw = 1, ln_mask = 0xFFFFFFFF, ln_iface = [101, 116, 104, 49]\<rparr>]" ex_router] by simp
qed

end
