(* ===== verification/Sr_Main.thy ===== *)
theory Sr_Main
  imports Sr_Server Sr_Load_Rt
begin

text \<open>
  \<open>sr_main.c\<close>: the command line, the start-up and the life of the program. \<open>main\<close> is a function of the
  parsed options and of everything the process meets outside; its result is the final session and the
  exit status.
\<close>

section \<open>The command line\<close>

text \<open>\<open>atoi\<close>: an optional sign and digits, saturated to a \<open>long\<close> and cut to 32 bits.\<close>

definition c_atoi :: "bytes \<Rightarrow> u32" where
  "c_atoi str =
     (let s = dropWhile is_space (cstr str);
          neg = (s \<noteq> [] \<and> hd s = 45);
          digits = (if s \<noteq> [] \<and> (hd s = 45 \<or> hd s = 43) then tl s else s);
          v = int (fst (base_number 10 digits));
          i = (if neg then - v else v)
      in word_of_int (max (- (2 ^ 63)) (min (2 ^ 63 - 1) i)))"

definition DEFAULT_HOST :: bytes where "DEFAULT_HOST = [118, 114, 104, 111, 115, 116]"
definition DEFAULT_SERVER :: bytes where
  "DEFAULT_SERVER = [108, 111, 99, 97, 108, 104, 111, 115, 116]"
definition DEFAULT_RTABLE :: bytes where "DEFAULT_RTABLE = [114, 116, 97, 98, 108, 101]"
definition DEFAULT_PORT :: u32 where "DEFAULT_PORT = 8888"
definition DEFAULT_TOPO :: u32 where "DEFAULT_TOPO = 0"

record options =
  o_host :: bytes
  o_user :: "bytes option"
  o_server :: bytes
  o_rtable :: bytes
  o_template :: "bytes option"
  o_port :: u32
  o_topo :: u32
  o_logfile :: "bytes option"

definition default_options :: options where
  "default_options = \<lparr>o_host = DEFAULT_HOST, o_user = None, o_server = DEFAULT_SERVER,
     o_rtable = DEFAULT_RTABLE, o_template = None, o_port = DEFAULT_PORT, o_topo = DEFAULT_TOPO,
     o_logfile = None\<rparr>"

text \<open>What \<open>getopt\<close> returns one after the other, each with \<open>optarg\<close>. \<open>None\<close> is the exit of \<open>-h\<close>.\<close>

fun parse_opts :: "options \<Rightarrow> (u8 \<times> bytes) list \<Rightarrow> options option" where
  "parse_opts opts [] = Some opts"
| "parse_opts opts ((c, optarg) # rest) =
     (if c = 104 then None
      else if c = 112 then parse_opts (opts\<lparr>o_port := c_atoi optarg\<rparr>) rest
      else if c = 116 then parse_opts (opts\<lparr>o_topo := c_atoi optarg\<rparr>) rest
      else if c = 118 then parse_opts (opts\<lparr>o_host := optarg\<rparr>) rest
      else if c = 117 then parse_opts (opts\<lparr>o_user := Some optarg\<rparr>) rest
      else if c = 115 then parse_opts (opts\<lparr>o_server := optarg\<rparr>) rest
      else if c = 108 then parse_opts (opts\<lparr>o_logfile := Some optarg\<rparr>) rest
      else if c = 114 then parse_opts (opts\<lparr>o_rtable := optarg\<rparr>) rest
      else if c = 84 then parse_opts (opts\<lparr>o_template := Some optarg\<rparr>) rest
      else parse_opts opts rest)"

section \<open>Start-up\<close>

text \<open>
  What the process meets: the options, the user's entry of the password file, whether the log can be
  opened, whether the three calls that make the connection succeed, the contents of the four local
  arrays in the two calls of \<open>sr_load_rt\<close>, and the environment of each message.
\<close>

record main_env =
  args :: "(u8 \<times> bytes) list"
  pw_name :: "bytes option"
  log_opens :: bool
  resolved :: bool
  created :: bool
  connected :: bool
  arrays1 :: "bytes list"
  arrays2 :: "bytes list"
  Hs :: "nat \<Rightarrow> host_env"

text \<open>\<open>sr\<close> is on the stack; fields that are not named keep what was there.\<close>

definition sr_init_instance :: "sr_instance \<Rightarrow> sr_instance" where
  "sr_init_instance sr = sr\<lparr>user := (user sr)[0 := 0], host := (host sr)[0 := 0], topo_id := 0,
     if_list := [], routing_table := [], logfile := None\<rparr>"

definition something_silly :: bytes where
  "something_silly = [115, 111, 109, 101, 116, 104, 105, 110, 103, 95, 115, 105, 108, 108, 121]"

definition sr_set_user :: "bytes option \<Rightarrow> sr_instance \<Rightarrow> sr_instance" where
  "sr_set_user pw sr = sr\<lparr>user := c_strncpy 32 (case pw of None \<Rightarrow> something_silly | Some name \<Rightarrow> name)\<rparr>"

text \<open>\<open>None\<close> is \<open>exit(1)\<close>.\<close>

definition sr_load_rt_wrap :: "bytes list \<Rightarrow> session \<Rightarrow> bytes \<Rightarrow> session option res" where
  "sr_load_rt_wrap arrays s rtable =
     rbind (sr_load_rt arrays (inst s) (files s (cstr rtable))) (\<lambda>(sr, r).
     Inr (if r \<noteq> 0 then None else Some (s\<lparr>inst := sr\<rparr>)))"

text \<open>Between the options and the connection: the table or the template, then the names and the log.\<close>

definition setup_table :: "main_env \<Rightarrow> options \<Rightarrow> session \<Rightarrow> session option res" where
  "setup_table M opts s =
     (let sr = sr_init_instance (inst s) in
      case o_template opts of
        None \<Rightarrow> sr_load_rt_wrap (arrays1 M) (s\<lparr>inst := sr\<lparr>template := (template sr)[0 := 0]\<rparr>\<rparr>) (o_rtable opts)
      | Some t \<Rightarrow> Inr (Some (s\<lparr>inst := sr\<lparr>template := c_strncpy 30 t\<rparr>\<rparr>)))"

definition setup_names :: "main_env \<Rightarrow> options \<Rightarrow> sr_instance \<Rightarrow> sr_instance" where
  "setup_names M opts sr =
     (let sr = sr\<lparr>topo_id := ucast (o_topo opts), host := c_strncpy 32 (o_host opts)\<rparr> in
      case o_user opts of None \<Rightarrow> sr_set_user (pw_name M) sr | Some u \<Rightarrow> sr\<lparr>user := c_strncpy 32 u\<rparr>)"

definition setup_log :: "main_env \<Rightarrow> options \<Rightarrow> sr_instance \<Rightarrow> sr_instance option" where
  "setup_log M opts sr =
     (case o_logfile opts of
        None \<Rightarrow> Some sr
      | Some _ \<Rightarrow> if log_opens M then Some (sr\<lparr>logfile := Some (sr_dump_open 0 (of_nat PACKET_DUMP_SIZE))\<rparr>)
                  else None)"

definition rtable_vrhost :: bytes where
  "rtable_vrhost = [114, 116, 97, 98, 108, 101, 46, 118, 114, 104, 111, 115, 116]"

text \<open>The table that is read after the dialogue.\<close>

definition second_rtable :: "options \<Rightarrow> bytes" where
  "second_rtable opts = (if o_template opts \<noteq> None \<and> cstr (o_rtable opts) = rtable_vrhost then rtable_vrhost
     else o_rtable opts)"

definition main :: "main_env \<Rightarrow> session \<Rightarrow> (session \<times> int) res" where
  "main M s =
     (case parse_opts default_options (args M) of
        None \<Rightarrow> Inr (s, 0)
      | Some opts \<Rightarrow>
        rbind (setup_table M opts s) (\<lambda>r. case r of None \<Rightarrow> Inr (s, 1) | Some s \<Rightarrow>
        case setup_log M opts (setup_names M opts (inst s)) of None \<Rightarrow> Inr (s, 1) | Some sr \<Rightarrow>
        rbind (sr_connect_to_server (Hs M) (resolved M) (created M) (connected M) (s\<lparr>inst := sr\<rparr>)) (\<lambda>(s, r).
        if r = -1 then Inr (s, 1)
        else
          rbind (sr_load_rt_wrap (arrays2 M) s (second_rtable opts)) (\<lambda>r. case r of None \<Rightarrow> Inr (s, 1) | Some s \<Rightarrow>
          rbind (main_loop (\<lambda>i. Hs M (3 + i)) 0 (s\<lparr>inst := sr_init (inst s)\<rparr>)) (\<lambda>(s, _).
          Inr (s, 0))))))"

section \<open>The hardware information ends the start-up\<close>

definition hw_body :: "(bytes \<times> mac \<times> u32) list \<Rightarrow> bytes" where
  "hw_body ifs = concat (map enc_hw_entry (concat (map hw_of ifs)))"

lemma length_hw_body: "length (hw_body ifs) = 108 * length ifs"
proof -
  have ok: "\<forall>e\<in>set (concat (map hw_of ifs)). length (enc_hw_entry e) = 36"
    using hw_of_ok(1) hw.length_enc by (auto simp: sizeof_hw_entry_def)
  have "length (concat (map hw_of ifs)) = 3 * length ifs" using hw_of_ok(2) by (intro length_concat_uniform) simp
  then show ?thesis using length_concat_uniform [OF ok] by (simp add: hw_body_def)
qed

text \<open>Every route leads to one of the announced interfaces.\<close>

definition routes_named :: "route_line list \<Rightarrow> (bytes \<times> mac \<times> u32) list \<Rightarrow> bool" where
  "routes_named ls ifs \<longleftrightarrow>
     (\<forall>l\<in>set ls. \<exists>t\<in>set ifs. c_strncmp_eq sr_IFACE_NAMELEN (fst t) (ln_iface l))"

lemma routes_named_ok:
  assumes "routes_named ls ifs" "if_list sr = map (hw_if H) ifs" "routing_table sr = map route_of ls" "ls \<noteq> []"
  shows "sr_verify_routing_table sr = 0"
proof -
  have r: "c_strncmp_eq n a (c_strncpy n b) \<longleftrightarrow> c_strncmp_eq n a b" for n a b
    by (metis strncmp_sym strncmp_strncpy)
  have "sr_get_interface sr (rt_interface (route_of l)) \<noteq> None" if "l \<in> set ls" for l
  proof -
    have "\<exists>t\<in>set ifs. c_strncmp_eq sr_IFACE_NAMELEN (fst t) (ln_iface l)"
      using assms(1) that unfolding routes_named_def by (rule bspec)
    then obtain t where "t \<in> set ifs" "c_strncmp_eq sr_IFACE_NAMELEN (fst t) (ln_iface l)" ..
    then have "hw_if H t \<in> set (if_list sr)"
      "c_strncmp_eq sr_IFACE_NAMELEN (if_name (hw_if H t)) (rt_interface (route_of l))"
      using assms(2) r by (auto simp: hw_if_def route_of_def split: prod.split)
    then show ?thesis unfolding sr_get_interface_def find_None_iff by blast
  qed
  moreover have "if_list sr \<noteq> []" using assms by (cases ls) (auto simp: routes_named_def)
  ultimately show ?thesis
    using assms(3,4) by (auto simp: sr_verify_routing_table_def verify_walk_0)
qed

lemma read_hwinfo:
  assumes "intact (incoming s)" "stream (incoming s) = server_msg VNSHWINFO (hw_body ifs) @ rest"
    "length ifs \<le> 92"
  shows "\<exists>rxs sr. sr_read_from_server H s = Inr (s\<lparr>incoming := rxs, inst := sr\<rparr>,
        if sr_verify_routing_table sr \<noteq> 0 then -1 else 1)
    \<and> sr = (inst s)\<lparr>if_list := if_list (inst s) @ map (hw_if H) ifs\<rparr> \<and> intact rxs \<and> stream rxs = rest"
proof -
  have len: "8 + length (hw_body ifs) \<le> 10000" using assms(3) by (simp add: length_hw_body)
  have m: "message_buf VNSHWINFO (hw_body ifs) = hwinfo_msg VNSHWINFO ifs"
    by (simp add: message_buf_def hwinfo_msg_def length_hw_body) (simp add: hw_body_def)
  let ?sr = "(inst s)\<lparr>if_list := if_list (inst s) @ map (hw_if H) ifs\<rparr>"
  have h: "sr_handle_hwinfo H (inst s) (hwinfo_msg VNSHWINFO ifs) = Inr (?sr, int (3 * length ifs))"
    by (rule handle_hwinfo_msg) (use assms(3) in simp)
  obtain rxs where "sr_read_from_server H s = handle_command H (s\<lparr>incoming := rxs\<rparr>)
      (hwinfo_msg VNSHWINFO ifs) (of_nat (8 + length (hw_body ifs))) VNSHWINFO" "intact rxs" "stream rxs = rest"
    using message_read [OF assms(1,2) len, of H 0] by (auto simp: sr_read_from_server_def m)
  then show ?thesis
    using h by (intro exI [of _ rxs] exI [of _ ?sr]) (simp add: handle_command_def command_defs)
qed

lemma load_wrap:
  assumes "files s (cstr fn) = Some (table_text ls)" "arrays_ok as" "\<forall>l\<in>set ls. iface_word (ln_iface l)" "ls \<noteq> []"
  shows "sr_load_rt_wrap as s fn = Inr (Some (s\<lparr>inst := (inst s)\<lparr>routing_table := map route_of ls\<rparr>\<rparr>))"
  using load_table [OF assms(2,3), of "inst s"] assms(1,4) by (simp add: sr_load_rt_wrap_def)

lemma c_string_array: "length (cstr s) < n \<Longrightarrow> c_string (c_strncpy n s) = Inr (cstr s)"
proof -
  assume l: "length (cstr s) < n"
  then obtain k where "n - length (cstr s) = Suc k" by (cases "n - length (cstr s)") auto
  moreover have "c_strncpy n s = cstr s @ replicate (n - length (cstr s)) 0" using l by (simp add: c_strncpy_def)
  ultimately have "c_strncpy n s = cstr s @ 0 # replicate k 0" by simp
  moreover have "0 \<notin> set (cstr s)" by (auto simp: cstr_def dest: set_takeWhileD)
  ultimately show ?thesis by (simp add: c_string_NUL)
qed

text \<open>The router as \<open>main\<close> hands it to the read loop.\<close>

definition started :: "main_env \<Rightarrow> options \<Rightarrow> route_line list \<Rightarrow> bytes list \<Rightarrow> sr_instance \<Rightarrow> sr_instance" where
  "started M opts ls sent sr = sr_init
     ((setup_names M opts ((sr_init_instance sr)\<lparr>template := (template sr)[0 := 0], routing_table := map route_of ls\<rparr>))
       \<lparr>wire := wire sr @ sent\<rparr>)"

lemma setup_names_sels [simp]:
  "if_list (setup_names M opts sr) = if_list sr" "routing_table (setup_names M opts sr) = routing_table sr"
  "template (setup_names M opts sr) = template sr" "wire (setup_names M opts sr) = wire sr"
  "cache (setup_names M opts sr) = cache sr"
  "(setup_names M opts sr)\<lparr>routing_table := t\<rparr> = setup_names M opts (sr\<lparr>routing_table := t\<rparr>)"
  by (simp_all add: setup_names_def sr_set_user_def Let_def split: option.split)

lemma started_simps:
  "if_list (started M opts ls sent sr) = []" "routing_table (started M opts ls sent sr) = map route_of ls"
  "wire (started M opts ls sent sr) = wire sr @ sent"
  "cache (started M opts ls sent sr) = sr_arpcache_init (cache sr)"
  by (simp_all add: started_def sr_init_def sr_init_instance_def)

text \<open>A run of \<open>main\<close> against a server that behaves.\<close>

lemma main_dialogue:
  assumes opts: "parse_opts default_options (args M) = Some opts" "o_template opts = None"
      "o_logfile opts = None" "o_user opts = Some u" "length (cstr u) < 32"
    and table: "files s (cstr (o_rtable opts)) = Some (table_text ls)" "ls \<noteq> []"
      "\<forall>l\<in>set ls. iface_word (ln_iface l)" "arrays_ok (arrays1 M)" "arrays_ok (arrays2 M)"
    and key: "files s auth_key_file = Some contents" "contents \<noteq> []"
      "length (key_junk (Hs M 0)) = 65" "length (Message_Block (sha_junk (Hs M 0))) = 64"
    and net: "resolved M" "created M" "connected M" "\<forall>i m. sock_write (base (Hs M i)) m = int (length m)"
      "intact (incoming s)" "template (inst s) \<noteq> []"
    and server: "stream (incoming s) = server_msg VNS_AUTH_REQUEST salt @ server_msg VNS_AUTH_STATUS (ok # note)
        @ server_msg VNSHWINFO (hw_body ifs) @ frames_msg ps @ server_msg VNSCLOSE reason"
      "length salt < 9000" "length note < 9000" "ok \<noteq> 0" "length ifs \<le> 92" "routes_named ls ifs"
      "\<forall>p\<in>set ps. deliverable p" "8 + length reason \<le> 10000" "0 \<in> set reason"
  shows "\<exists>dig sr0 sent sr rxs. sent = [auth_reply (cstr u) dig, c_open sr0]
    \<and> sr = (started M opts ls sent (inst s))\<lparr>if_list := map (hw_if (Hs M 3)) ifs\<rparr>
    \<and> main M s = rbind (receive_all (\<lambda>i. Hs M (3 + i)) 1 ps sr) (\<lambda>sr.
        Inr (s\<lparr>inst := sr, incoming := rxs, sock_open := True\<rparr>, 0))"
proof -
  let ?i0 = "(sr_init_instance (inst s))\<lparr>template := (template (inst s))[0 := 0]\<rparr>"
  let ?i1 = "?i0\<lparr>routing_table := map route_of ls\<rparr>" and ?i2 = "setup_names M opts (?i0\<lparr>routing_table := map route_of ls\<rparr>)"
  define s2 where "s2 = s\<lparr>inst := ?i2\<rparr>"
  have t: "setup_table M opts s = Inr (Some (s\<lparr>inst := ?i1\<rparr>))"
    using load_wrap [of "s\<lparr>inst := ?i0\<rparr>" "o_rtable opts" ls "arrays1 M"] opts(2) table
    by (simp add: setup_table_def Let_def sr_init_instance_def)
  have l: "setup_log M opts ?i2 = Some ?i2" using opts(3) by (simp add: setup_log_def)
  have u: "c_string (user (inst s2)) = Inr (cstr u)"
    using opts(4,5) c_string_array [of u 32] by (simp add: s2_def setup_names_def Let_def)
  have tm: "c_string (template (inst s2)) = Inr []"
  proof -
    obtain a as where "template (inst s) = a # as" using net(6) by (cases "template (inst s)") auto
    then have "template (inst s2) = 0 # as" by (simp add: s2_def)
    then show ?thesis using c_string_NUL [of "[]" as] by simp
  qed
  define sent where "sent = [auth_reply (cstr u) (sha1_spec (salt @ hashed_key (Hs M 0) contents)), c_open ?i2]"
  let ?rest = "server_msg VNSHWINFO (hw_body ifs) @ frames_msg ps @ server_msg VNSCLOSE reason"
  obtain r1 where r1: "stream r1 = ?rest" "intact r1" "sr_connect_to_server (Hs M) True True True s2
      = Inr (s2\<lparr>inst := ?i2\<lparr>wire := wire ?i2 @ sent\<rparr>, incoming := r1, sock_open := True\<rparr>, 0)"
    using dialogue_ok [of s2 salt ok "note" ?rest contents "cstr u" "Hs M"] net key server u tm
    by (auto simp: s2_def sent_def)
  let ?s3 = "s2\<lparr>inst := ?i2\<lparr>wire := wire ?i2 @ sent\<rparr>, incoming := r1, sock_open := True\<rparr>"
  have t2: "sr_load_rt_wrap (arrays2 M) ?s3 (second_rtable opts) = Inr (Some ?s3)"
    using load_wrap [of ?s3 "o_rtable opts" ls "arrays2 M"] opts(2) table
    by (simp add: second_rtable_def s2_def)
  let ?s4 = "?s3\<lparr>inst := sr_init (inst ?s3)\<rparr>"
  have i4: "inst ?s4 = started M opts ls sent (inst s)"
    by (simp add: started_def s2_def sr_init_instance_def)
  let ?Hs = "\<lambda>i. Hs M (3 + i)" and ?sr = "(started M opts ls sent (inst s))\<lparr>if_list := map (hw_if (Hs M 3)) ifs\<rparr>"
  have in4: "intact (incoming ?s4)" "stream (incoming ?s4) = ?rest" using r1(1,2) by simp_all
  obtain r2 where r2: "sr_read_from_server (?Hs 0) ?s4 = Inr (?s4\<lparr>incoming := r2, inst := ?sr\<rparr>,
        if sr_verify_routing_table ?sr \<noteq> 0 then -1 else 1)"
      "intact r2" "stream r2 = frames_msg ps @ server_msg VNSCLOSE reason"
    using read_hwinfo [OF in4 server(5), of "?Hs 0"] unfolding i4 by (auto simp: started_simps)
  have v: "sr_verify_routing_table ?sr = 0"
    by (rule routes_named_ok [where H = "Hs M 3", OF server(6) _ _ table(2)]) (simp_all add: started_simps)
  have m1: "main_loop ?Hs 0 ?s4 = main_loop ?Hs 1 (?s4\<lparr>incoming := r2, inst := ?sr\<rparr>)"
    using r2(1) v by (simp add: main_loop.simps [of ?Hs 0])
  obtain rxs where m2: "main_loop ?Hs 1 (?s4\<lparr>incoming := r2, inst := ?sr\<rparr>)
      = rbind (receive_all ?Hs 1 ps ?sr) (\<lambda>sr. Inr (?s4\<lparr>incoming := rxs, inst := sr\<rparr>, 0))"
    using main_loop_session [of "?s4\<lparr>incoming := r2, inst := ?sr\<rparr>" ps reason ?Hs 1] r2(2,3) server(7-9) by auto
  have "main M s = rbind (main_loop ?Hs 0 ?s4) (\<lambda>(s, _). Inr (s, 0))"
    using opts(1) t l r1(3) t2 net(1-3) by (simp add: main_def s2_def)
  also have "\<dots> = rbind (receive_all ?Hs 1 ps ?sr) (\<lambda>sr.
        Inr (s\<lparr>inst := sr, incoming := rxs, sock_open := True\<rparr>, 0))"
    unfolding m1 m2 by (auto simp: rbind_def s2_def split: sum.split)
  finally show ?thesis
    by (intro exI [of _ "sha1_spec (salt @ hashed_key (Hs M 0) contents)"] exI [of _ ?i2] exI [of _ sent]
        exI [of _ ?sr] exI [of _ rxs]) (simp add: sent_def)
qed

lemma main_session:
  assumes opts: "parse_opts default_options (args M) = Some opts" "o_template opts = None"
      "o_logfile opts = None" "o_user opts = Some u" "length (cstr u) < 32"
    and table: "files s (cstr (o_rtable opts)) = Some (table_text ls)" "ls \<noteq> []"
      "\<forall>l\<in>set ls. iface_word (ln_iface l)" "arrays_ok (arrays1 M)" "arrays_ok (arrays2 M)"
    and key: "files s auth_key_file = Some contents" "contents \<noteq> []"
      "length (key_junk (Hs M 0)) = 65" "length (Message_Block (sha_junk (Hs M 0))) = 64"
    and net: "resolved M" "created M" "connected M" "\<forall>i m. sock_write (base (Hs M i)) m = int (length m)"
      "intact (incoming s)" "template (inst s) \<noteq> []"
    and server: "stream (incoming s) = server_msg VNS_AUTH_REQUEST salt @ server_msg VNS_AUTH_STATUS (ok # note)
        @ server_msg VNSHWINFO (hw_body ifs) @ frames_msg ps @ server_msg VNSCLOSE reason"
      "length salt < 9000" "length note < 9000" "ok \<noteq> 0" "length ifs \<le> 92" "routes_named ls ifs"
      "\<forall>p\<in>set ps. deliverable p" "8 + length reason \<le> 10000" "0 \<in> set reason"
  shows "\<exists>sent sr rxs. length sent = 2
    \<and> sr = (started M opts ls sent (inst s))\<lparr>if_list := map (hw_if (Hs M 3)) ifs\<rparr>
    \<and> main M s = rbind (receive_all (\<lambda>i. Hs M (3 + i)) 1 ps sr) (\<lambda>sr.
        Inr (s\<lparr>inst := sr, incoming := rxs, sock_open := True\<rparr>, 0))"
proof -
  obtain dig sr0 sent sr rxs where d: "sent = [auth_reply (cstr u) dig, c_open sr0]"
    and m: "sr = (started M opts ls sent (inst s))\<lparr>if_list := map (hw_if (Hs M 3)) ifs\<rparr>"
      "main M s = rbind (receive_all (\<lambda>i. Hs M (3 + i)) 1 ps sr) (\<lambda>sr.
        Inr (s\<lparr>inst := sr, incoming := rxs, sock_open := True\<rparr>, 0))"
    using main_dialogue [OF assms] by blast
  show ?thesis by (intro exI [of _ sent] exI [of _ sr] exI [of _ rxs]) (use d m in simp)
qed

section \<open>Properties\<close>

definition ex_main :: main_env where
  "ex_main = \<lparr>args = [(117, [117])], pw_name = None, log_opens = False, resolved = True, created = True,
     connected = True, arrays1 = replicate 4 (replicate 32 7), arrays2 = replicate 4 (replicate 32 8),
     Hs = (\<lambda>_. ex_host)\<rparr>"

definition ex_lines :: "route_line list" where
  "ex_lines = [\<lparr>ln_dest = of_le32 10 0 1 2, ln_gw = 0, ln_mask = 0xFFFFFFFF, ln_iface = [101, 116, 104, 49]\<rparr>]"

definition ex_ifs :: "(bytes \<times> mac \<times> u32) list" where
  "ex_ifs = [([101, 116, 104, 49], Mac 2 0 0 0 0 1, of_le32 10 0 1 1)]"

definition ex_start :: session where
  "ex_start = (ex_stream (server_msg VNS_AUTH_REQUEST [1, 2, 3, 4] @ server_msg VNS_AUTH_STATUS [1, 0]
       @ server_msg VNSHWINFO (hw_body ex_ifs) @ frames_msg [] @ server_msg VNSCLOSE [0]))
     \<lparr>files := [auth_key_file \<mapsto> replicate 64 65, DEFAULT_RTABLE \<mapsto> table_text ex_lines]\<rparr>"

text \<open>A user named on the command line, one route, one interface and no frames.\<close>

lemma ex_main_setup:
  "parse_opts default_options (args ex_main) = Some (default_options\<lparr>o_user := Some [117]\<rparr>)"
  "Hs ex_main i = ex_host" "arrays_ok (arrays1 ex_main)" "arrays_ok (arrays2 ex_main)"
  "resolved ex_main" "created ex_main" "connected ex_main"
  "files ex_start (cstr (o_rtable (default_options\<lparr>o_user := Some [117]\<rparr>))) = Some (table_text ex_lines)"
  "files ex_start auth_key_file = Some (replicate 64 65)"
  "ex_lines \<noteq> []" "\<forall>l\<in>set ex_lines. iface_word (ln_iface l)" "length ex_ifs \<le> 92" "routes_named ex_lines ex_ifs"
  "length (key_junk ex_host) = 65" "length (Message_Block (sha_junk ex_host)) = 64"
  "\<forall>m. sock_write (base ex_host) m = int (length m)" "length (cstr [117]) < 32"
  "template (inst ex_start) \<noteq> []" "wire (inst ex_start) = []"
proof -
  have d: "cstr DEFAULT_RTABLE = DEFAULT_RTABLE" "DEFAULT_RTABLE \<noteq> auth_key_file"
    by (simp_all add: DEFAULT_RTABLE_def auth_key_file_def cstr_def)
  then show "files ex_start (cstr (o_rtable (default_options\<lparr>o_user := Some [117]\<rparr>))) = Some (table_text ex_lines)"
    "files ex_start auth_key_file = Some (replicate 64 65)"
    by (simp_all add: ex_start_def default_options_def)
qed (simp_all add: ex_main_def arrays_ok_def ex_lines_def iface_word_def is_space_def ex_ifs_def routes_named_def
    ex_host_def SHA1_blank_def ex_env_def cstr_def ex_start_def ex_stream_def ex_session_def ex_router_def)



end
