(* ===== verification/Sr_Program.thy ===== *)
theory Sr_Program
  imports Sr_History Sr_Net_Session Sr_Main
begin

text \<open>
  The history of a run of the program: what \<open>main\<close> writes to the socket after the opening dialogue has
  its causes in the frames of the server's stream.
\<close>

lemma explained_log: "explained ifs rts w h (log_frame E sr f) \<longleftrightarrow> explained ifs rts w h sr"
  using queued_ok_cong [of "log_frame E sr f" sr]
  by (simp add: explained_def sound_def queue_ok_def entries_all_def net_of_log)

text \<open>A frame that the filter drops adds nothing, any other is an event.\<close>

lemma receive_event:
  "receive E sr interface frame = Inr sr' \<Longrightarrow>
   sr' = sr \<or> do_event (E, Frame frame interface) (log_frame E sr frame) = Inr sr'"
  by (auto simp: receive_def rbind_eq_Inr split: if_splits)

fun frames_history :: "(nat \<Rightarrow> host_env) \<Rightarrow> nat \<Rightarrow> (bytes \<times> bytes) list \<Rightarrow> history" where
  "frames_history K i [] = []"
| "frames_history K i (p # ps) = (base (K i), Frame (snd p) (fst p)) # frames_history K (Suc i) ps"

lemma receive_explained:
  assumes run: "receive E sr interface frame = Inr sr'" and x: "regular (E, Frame frame interface)"
    and old: "explained ifs rts w h sr"
  shows "explained ifs rts w (h @ [(E, Frame frame interface)]) sr'"
proof -
  from receive_event [OF run] show ?thesis
  proof
    assume "sr' = sr"
    moreover have "explained ifs rts w (h @ [(E, Frame frame interface)]) sr" by (rule explained_mono [OF old]) auto
    ultimately show ?thesis by simp
  next
    assume "do_event (E, Frame frame interface) (log_frame E sr frame) = Inr sr'"
    then show ?thesis by (rule event_explained) (use x old in \<open>simp_all add: explained_log\<close>)
  qed
qed

lemma receive_all_explained:
  "receive_all K i ps sr = Inr sr' \<Longrightarrow> list_all regular (frames_history K i ps) \<Longrightarrow>
   explained ifs rts w h sr \<Longrightarrow> explained ifs rts w (h @ frames_history K i ps) sr'"
proof (induction ps arbitrary: i h sr)
  case (Cons p ps)
  let ?x = "(base (K i), Frame (snd p) (fst p))"
  obtain sr1 where 1: "receive (base (K i)) sr (fst p) (snd p) = Inr sr1"
    and 2: "receive_all K (Suc i) ps sr1 = Inr sr'" using Cons.prems(1) by (auto simp: rbind_eq_Inr)
  have "explained ifs rts w (h @ [?x]) sr1"
    using receive_explained [OF 1] Cons.prems(2,3) by simp
  then show ?case using Cons.IH [OF 2, of "h @ [?x]"] Cons.prems(2) by simp
qed simp

lemma frames_regular:
  "\<forall>i m. sock_write (base (K i)) m = int (length m) \<Longrightarrow> \<forall>p\<in>set ps. deliverable p \<Longrightarrow>
   list_all regular (frames_history K i ps)"
  by (induction ps arbitrary: i) (auto simp: regular_def full_write_def deliverable_def)

text \<open>The state \<open>main\<close> starts to read frames in.\<close>

lemma started_explained:
  assumes "sr = (started M opts ls sent sr0)\<lparr>if_list := ifs\<rparr>"
  shows "explained ifs (map route_of ls) (wire sr0 @ sent) [] sr"
proof -
  let ?i = "((setup_names M opts ((sr_init_instance sr0)\<lparr>template := (template sr0)[0 := 0],
    routing_table := map route_of ls\<rparr>))\<lparr>wire := wire sr0 @ sent, if_list := ifs\<rparr>)"
  have "sr = sr_init ?i" using assms by (simp add: started_def sr_init_def)
  then show ?thesis using explained_init [of ?i] by simp
qed

section \<open>Runs against a server that behaves\<close>

text \<open>
  The program is started without a template and without a log, on a readable table; the server challenges
  it, accepts the answer, announces the interfaces \<open>ifs\<close> for all its routes, sends the frames \<open>ps\<close> and
  closes. The stream may be cut anywhere.
\<close>

definition served ::
    "main_env \<Rightarrow> session \<Rightarrow> options \<Rightarrow> bytes \<Rightarrow> route_line list \<Rightarrow> (bytes \<times> mac \<times> u32) list \<Rightarrow> (bytes \<times> bytes) list \<Rightarrow> bool" where
  "served M s opts u ls ifs ps \<longleftrightarrow>
     parse_opts default_options (args M) = Some opts \<and> o_template opts = None \<and> o_logfile opts = None
     \<and> o_user opts = Some u \<and> length (cstr u) < 32
     \<and> files s (cstr (o_rtable opts)) = Some (table_text ls) \<and> ls \<noteq> [] \<and> (\<forall>l\<in>set ls. iface_word (ln_iface l))
     \<and> arrays_ok (arrays1 M) \<and> arrays_ok (arrays2 M)
     \<and> (\<exists>contents. files s auth_key_file = Some contents \<and> contents \<noteq> [])
     \<and> length (key_junk (Hs M 0)) = 65 \<and> length (Message_Block (sha_junk (Hs M 0))) = 64
     \<and> resolved M \<and> created M \<and> connected M \<and> (\<forall>i m. sock_write (base (Hs M i)) m = int (length m))
     \<and> intact (incoming s) \<and> template (inst s) \<noteq> []
     \<and> (\<exists>salt ok status reason. stream (incoming s) = server_msg VNS_AUTH_REQUEST salt
          @ server_msg VNS_AUTH_STATUS (ok # status) @ server_msg VNSHWINFO (hw_body ifs) @ frames_msg ps
          @ server_msg VNSCLOSE reason
          \<and> length salt < 9000 \<and> length status < 9000 \<and> ok \<noteq> 0 \<and> 8 + length reason \<le> 10000 \<and> 0 \<in> set reason)
     \<and> length ifs \<le> 92 \<and> routes_named ls ifs \<and> (\<forall>p\<in>set ps. deliverable p)"

lemma served_dialogue:
  assumes "served M s opts u ls ifs ps"
  obtains dig sr0 sent sr rxs where "sent = [auth_reply (cstr u) dig, c_open sr0]"
    "sr = (started M opts ls sent (inst s))\<lparr>if_list := map (hw_if (Hs M 3)) ifs\<rparr>"
    "main M s = rbind (receive_all (\<lambda>i. Hs M (3 + i)) 1 ps sr) (\<lambda>sr.
        Inr (s\<lparr>inst := sr, incoming := rxs, sock_open := True\<rparr>, 0))"
  by (insert assms [unfolded served_def], elim conjE exE, frule main_dialogue, assumption+, elim exE conjE, rule that, assumption+)

text \<open>What such a run has written when it ends.\<close>

lemma served_wire:
  assumes "served M s opts u ls ifs ps" "main M s = Inr (s', status)"
  obtains dig sr0 ms where "wire (inst s') = wire (inst s) @ [auth_reply (cstr u) dig, c_open sr0] @ ms"
    "\<forall>msg\<in>set ms. caused (map (hw_if (Hs M 3)) ifs) (map route_of ls)
        (frames_history (\<lambda>i. Hs M (3 + i)) 1 ps) msg"
    "list_all regular (frames_history (\<lambda>i. Hs M (3 + i)) 1 ps)" "length (cstr u) < 32"
proof -
  obtain dig sr0 sent sr rxs where sent: "sent = [auth_reply (cstr u) dig, c_open sr0]"
    and sr: "sr = (started M opts ls sent (inst s))\<lparr>if_list := map (hw_if (Hs M 3)) ifs\<rparr>"
    and m: "main M s = rbind (receive_all (\<lambda>i. Hs M (3 + i)) 1 ps sr) (\<lambda>sr.
        Inr (s\<lparr>inst := sr, incoming := rxs, sock_open := True\<rparr>, 0))"
    by (rule served_dialogue [OF assms(1)])
  obtain sr' where r: "receive_all (\<lambda>i. Hs M (3 + i)) 1 ps sr = Inr sr'" and s': "inst s' = sr'"
    using assms(2) m by (auto simp: rbind_eq_Inr)
  have w: "\<forall>i m. sock_write (base (Hs M i)) m = int (length m)" and d: "\<forall>p\<in>set ps. deliverable p"
    and u: "length (cstr u) < 32" using assms(1) by (simp_all add: served_def)
  have reg: "list_all regular (frames_history (\<lambda>i. Hs M (3 + i)) 1 ps)" by (rule frames_regular) (use w d in simp_all)
  from explained_wire [OF receive_all_explained [OF r reg started_explained [OF sr]]]
  obtain ms where "wire sr' = (wire (inst s) @ sent) @ ms"
    "\<forall>msg\<in>set ms. caused (map (hw_if (Hs M 3)) ifs) (map route_of ls) (frames_history (\<lambda>i. Hs M (3 + i)) 1 ps) msg"
    by auto
  then show thesis by (intro that [OF _ _ reg u]) (simp_all add: s' sent)
qed

section \<open>Property\<close>

definition ex_start_arp :: session where
  "ex_start_arp = (ex_stream (server_msg VNS_AUTH_REQUEST [1, 2, 3, 4] @ server_msg VNS_AUTH_STATUS [1, 0]
       @ server_msg VNSHWINFO (hw_body ex_ifs) @ frames_msg [(if_name ex_if1, ex_arp_request)] @ server_msg VNSCLOSE [0]))
     \<lparr>files := [auth_key_file \<mapsto> replicate 64 65, DEFAULT_RTABLE \<mapsto> table_text ex_lines]\<rparr>"

lemma ex_served:
  "served ex_main ex_start_arp (default_options\<lparr>o_user := Some [117]\<rparr>) [117] ex_lines ex_ifs
     [(if_name ex_if1, ex_arp_request)]"
proof -
  have same: "files ex_start_arp = files ex_start" "inst ex_start_arp = inst ex_start"
    by (simp_all add: ex_start_arp_def ex_start_def ex_stream_def)
  have d: "deliverable (if_name ex_if1, ex_arp_request)" by code_simp
  have "\<exists>salt ok status reason. stream (incoming ex_start_arp) = server_msg VNS_AUTH_REQUEST salt
      @ server_msg VNS_AUTH_STATUS (ok # status) @ server_msg VNSHWINFO (hw_body ex_ifs)
      @ frames_msg [(if_name ex_if1, ex_arp_request)] @ server_msg VNSCLOSE reason
      \<and> length salt < 9000 \<and> length status < 9000 \<and> ok \<noteq> 0 \<and> 8 + length reason \<le> 10000 \<and> 0 \<in> set reason"
    by (rule exI [of _ "[1, 2, 3, 4]"], rule exI [of _ 1], rule exI [of _ "[0]"], rule exI [of _ "[0]"])
      (use ex_stream in \<open>simp add: ex_start_arp_def\<close>)
  moreover have "intact (incoming ex_start_arp)" using ex_stream by (simp add: ex_start_arp_def)
  ultimately show ?thesis
    using ex_main_setup d unfolding served_def by (simp add: same default_options_def)
qed

text \<open>The frame of \<open>ex_start_arp\<close> is an ARP request for the only interface: it is answered.\<close>

lemma ex_arp_received:
  assumes "if_list sr = map (hw_if ex_host) ex_ifs"
  shows "\<exists>sr' m. receive ex_env sr (if_name ex_if1) ex_arp_request = Inr sr' \<and> wire sr' = wire sr @ [m]"
proof -
  let ?i = "hw_if ex_host (hd ex_ifs)"
  have "find (\<lambda>i. c_strncmp_eq sr_IFACE_NAMELEN (if_name i) (if_name ex_if1)) (map (hw_if ex_host) ex_ifs) = Some ?i"
    by code_simp
  then have i: "sr_get_interface sr (if_name ex_if1) = Some ?i" by (simp add: sr_get_interface_def assms)
  have l: "length ex_arp_request = 42" by code_simp
  have f: "ar_tip (frame_arp ex_arp_request) = if_ip ?i" "ar_op (frame_arp ex_arp_request) = htons arp_op_request"
    "is_arp_frame ex_arp_request" by code_simp+
  let ?sr = "log_frame ex_env sr ex_arp_request"
  have il: "sr_get_interface ?sr (if_name ex_if1) = Some ?i"
    using i sr_get_interface_cong [of ?sr sr] by simp
  have "receive ex_env sr (if_name ex_if1) ex_arp_request
      = sr_handlepacket ex_env ?sr ex_arp_request (of_nat (length ex_arp_request)) (if_name ex_if1)"
    using arp_filter_cases [OF _ i, of ex_arp_request] f(1) by (simp add: receive_def l)
  also have "\<dots> = Inr (emit ex_env (if_name ex_if1) (arp_reply_frame ?i ex_arp_request) ?sr)"
    unfolding handlepacket_arp [OF f(3)]
    by (rule arp_packet_request [OF _ _ _ il f(1,2)]) (simp_all add: l sizeof_defs)
  finally show ?thesis using wire_emit [of ex_env] by (simp add: full_write_def) (simp add: ex_env_def)
qed

text \<open>Against this server the program runs to its end and writes three messages.\<close>

lemma ex_served_runs:
  "\<exists>s'. main ex_main ex_start_arp = Inr (s', 0) \<and> length (wire (inst s')) = 3"
proof -
  obtain dig sr0 sent sr rxs where sent: "sent = [auth_reply (cstr [117]) dig, c_open sr0]"
    and sr: "sr = (started ex_main (default_options\<lparr>o_user := Some [117]\<rparr>) ex_lines sent (inst ex_start_arp))
      \<lparr>if_list := map (hw_if (Hs ex_main 3)) ex_ifs\<rparr>"
    and m: "main ex_main ex_start_arp = rbind (receive_all (\<lambda>i. Hs ex_main (3 + i)) 1 [(if_name ex_if1, ex_arp_request)] sr)
      (\<lambda>sr. Inr (ex_start_arp\<lparr>inst := sr, incoming := rxs, sock_open := True\<rparr>, 0))"
    by (rule served_dialogue [OF ex_served])
  have "if_list sr = map (hw_if ex_host) ex_ifs" by (simp add: sr ex_main_setup)
  then obtain sr' msg where r: "receive ex_env sr (if_name ex_if1) ex_arp_request = Inr sr'" "wire sr' = wire sr @ [msg]"
    using ex_arp_received by blast
  have "wire (inst ex_start_arp) = []" by (simp add: ex_start_arp_def ex_stream_def ex_session_def ex_router_def)
  then have "length (wire sr') = 3" using r(2) by (simp add: sr sent started_simps)
  moreover have "base ex_host = ex_env" by (simp add: ex_host_def)
  ultimately show ?thesis using m r(1) by (simp add: ex_main_setup)
qed



end
