(* ===== verification/Sr_Framing.thy ===== *)
theory Sr_Framing
  imports Sr_Program
begin

text \<open>
  The messages as the peer sees them: the structs of \<open>vnscommand.h\<close> with the places of their fields, and
  the stream of a run cut back into its messages by the length each one starts with.
\<close>

section \<open>The structs of the protocol\<close>

text \<open>A packed struct: its fields in order, each with its size; a trailing array of size 0 adds nothing.\<close>

type_synonym layout = "(string \<times> nat) list"

definition struct_size :: "layout \<Rightarrow> nat" where
  "struct_size l = sum_list (map snd l)"

fun offset_of :: "string \<Rightarrow> layout \<Rightarrow> nat option" where
  "offset_of f [] = None"
| "offset_of f ((g, n) # l) = (if f = g then Some 0 else map_option ((+) n) (offset_of f l))"

definition field_of :: "layout \<Rightarrow> string \<Rightarrow> bytes \<Rightarrow> bytes option" where
  "field_of l f m = (case (offset_of f l, map_of l f) of (Some a, Some n) \<Rightarrow> Some (take n (drop a m)) | _ \<Rightarrow> None)"

definition c_base_struct :: layout where
  "c_base_struct = [(''mLen'', 4), (''mType'', 4)]"

definition c_open_struct :: layout where
  "c_open_struct = [(''mLen'', 4), (''mType'', 4), (''topoID'', 2), (''pad'', 2),
     (''mVirtualHostID'', IDSIZE), (''mUID'', IDSIZE), (''mPass'', IDSIZE)]"

definition c_close_struct :: layout where
  "c_close_struct = [(''mLen'', 4), (''mType'', 4), (''mErrorMessage'', 256)]"

definition c_banner_struct :: layout where
  "c_banner_struct = [(''mLen'', 4), (''mType'', 4), (''mBannerMessage'', 256)]"

definition c_packet_ethernet_header_struct :: layout where
  "c_packet_ethernet_header_struct = [(''mLen'', 4), (''mType'', 4), (''mInterfaceName'', 16),
     (''ether_dhost'', 6), (''ether_shost'', 6), (''ether_type'', 2)]"

definition c_packet_header_struct :: layout where
  "c_packet_header_struct = [(''mLen'', 4), (''mType'', 4), (''mInterfaceName'', 16)]"

definition c_hwinfo_struct :: layout where
  "c_hwinfo_struct = [(''mLen'', 4), (''mType'', 4), (''mHWInfo'', 256 * sizeof_hw_entry)]"

definition c_rtable_struct :: layout where
  "c_rtable_struct = [(''mLen'', 4), (''mType'', 4), (''mVirtualHostID'', IDSIZE), (''rtable'', 0)]"

definition c_open_template_struct :: layout where
  "c_open_template_struct = [(''mLen'', 4), (''mType'', 4), (''templateName'', 30),
     (''mVirtualHostID'', IDSIZE), (''srcFilters'', 0)]"

definition c_auth_request_struct :: layout where
  "c_auth_request_struct = [(''mLen'', 4), (''mType'', 4), (''salt'', 0)]"

definition c_auth_reply_struct :: layout where
  "c_auth_reply_struct = [(''mLen'', 4), (''mType'', 4), (''usernameLen'', 4), (''username'', 0)]"

definition c_auth_status_struct :: layout where
  "c_auth_status_struct = [(''mLen'', 4), (''mType'', 4), (''auth_ok'', 1), (''msg'', 0)]"

lemmas struct_defs = c_base_struct_def c_open_struct_def c_close_struct_def c_banner_struct_def
  c_packet_ethernet_header_struct_def c_packet_header_struct_def c_hwinfo_struct_def c_rtable_struct_def
  c_open_template_struct_def c_auth_request_struct_def c_auth_reply_struct_def c_auth_status_struct_def

text \<open>The sizes and places the handlers use as numbers.\<close>

lemma struct_sizes:
  "struct_size c_base_struct = 8" "struct_size c_open_struct = 108" "struct_size c_open_template_struct = 70"
  "struct_size c_packet_header_struct = sizeof_packet_header"
  "struct_size c_packet_ethernet_header_struct = sizeof_packet_ethernet_header"
  "struct_size c_auth_reply_struct = sizeof_auth_reply"
  by (simp_all add: struct_size_def struct_defs IDSIZE_def sizeof_packet_header_def
      sizeof_packet_ethernet_header_def sizeof_auth_reply_def)

lemma struct_offsets:
  "offset_of ''mErrorMessage'' c_close_struct = Some 8" "offset_of ''mBannerMessage'' c_banner_struct = Some 8"
  "offset_of ''mInterfaceName'' c_packet_header_struct = Some 8" "offset_of ''mHWInfo'' c_hwinfo_struct = Some 8"
  "offset_of ''mVirtualHostID'' c_rtable_struct = Some 8" "offset_of ''rtable'' c_rtable_struct = Some (8 + IDSIZE)"
  "offset_of ''salt'' c_auth_request_struct = Some 8" "offset_of ''auth_ok'' c_auth_status_struct = Some 8"
  "offset_of ''msg'' c_auth_status_struct = Some 9"
  by (simp_all add: struct_defs)

text \<open>The fields of the messages the router sends.\<close>

lemma c_open_fields:
  "length (c_open sr) = struct_size c_open_struct"
  "field_of c_open_struct ''mLen'' (c_open sr) = Some (le32 (htonl (of_nat (length (c_open sr)))))"
  "field_of c_open_struct ''topoID'' (c_open sr) = Some (le16 (htons (topo_id sr)))"
  "field_of c_open_struct ''mVirtualHostID'' (c_open sr) = Some (c_strncpy IDSIZE (host sr))"
  "field_of c_open_struct ''mUID'' (c_open sr) = Some (c_strncpy IDSIZE (user sr))"
  "field_of c_open_struct ''mPass'' (c_open sr) = Some (replicate IDSIZE 0)"
  by (simp_all add: field_of_def struct_size_def struct_defs c_open_def IDSIZE_def le16_def le32_def)

lemma c_open_template_fields:
  "length (c_open_template sr) = struct_size c_open_template_struct"
  "field_of c_open_template_struct ''mLen'' (c_open_template sr) = Some (le32 (htonl (of_nat (length (c_open_template sr)))))"
  "field_of c_open_template_struct ''templateName'' (c_open_template sr) = Some (c_strncpy 30 (template sr))"
  "field_of c_open_template_struct ''mVirtualHostID'' (c_open_template sr) = Some (c_strncpy IDSIZE (host sr))"
  by (simp_all add: field_of_def struct_size_def struct_defs c_open_template_def IDSIZE_def le32_def)

lemma packet_msg_fields:
  "field_of c_packet_header_struct ''mLen'' (message interface frame) = Some (le32 (htonl (of_nat (length (message interface frame)))))"
  "field_of c_packet_header_struct ''mType'' (message interface frame) = Some (le32 (htonl VNSPACKET))"
  "field_of c_packet_header_struct ''mInterfaceName'' (message interface frame) = Some (c_strncpy 16 interface)"
  "drop (struct_size c_packet_header_struct) (message interface frame) = frame"
  by (simp_all add: field_of_def struct_size_def struct_defs message_def packet_msg_def sizeof_packet_header_def
      le32_def ac_simps)

lemma auth_reply_fields:
  "field_of c_auth_reply_struct ''mLen'' (auth_reply name dig) = Some (le32 (htonl (of_nat (length (auth_reply name dig)))))"
  "field_of c_auth_reply_struct ''usernameLen'' (auth_reply name dig) = Some (le32 (htonl (of_nat (length name))))"
  "take (length name) (drop (struct_size c_auth_reply_struct) (auth_reply name dig)) = name"
  by (simp_all add: field_of_def struct_size_def struct_defs auth_reply_def digest_bytes_def sizeof_auth_reply_def
      SHA1_LEN_def le32_def ac_simps split: prod.split)

section \<open>Cutting a stream into messages\<close>

text \<open>A message starts with its own length, as the code of both peers reads it.\<close>

definition framed :: "bytes \<Rightarrow> bool" where
  "framed m \<longleftrightarrow> struct_size c_base_struct \<le> length m \<and> length m < 2 ^ 32
     \<and> field_of c_base_struct ''mLen'' m = Some (le32 (htonl (of_nat (length m))))"

text \<open>The receiver: \<open>None\<close> when a length is too small or the stream ends inside a message.\<close>

function deframe :: "bytes \<Rightarrow> bytes list option" where
  "deframe bs =
     (if bs = [] then Some []
      else case rd32 bs 0 of
        Inl _ \<Rightarrow> None
      | Inr w \<Rightarrow>
          (let n = unat (ntohl w) in
           if n < 8 \<or> length bs < n then None
           else map_option ((#) (take n bs)) (deframe (drop n bs))))"
  by pat_completeness auto
termination
  by (relation "measure length") auto

declare deframe.simps [simp del]

lemma framed_head: "framed m \<Longrightarrow> \<exists>r. m = le32 (htonl (of_nat (length m))) @ r"
proof -
  assume "framed m"
  then have "take 4 m = le32 (htonl (of_nat (length m)))" by (simp add: framed_def field_of_def struct_defs)
  then show ?thesis by (metis append_take_drop_id)
qed

lemma deframe_Cons:
  assumes "framed m"
  shows "deframe (m @ bs) = map_option ((#) m) (deframe bs)"
proof -
  obtain r where m: "m = le32 (htonl (of_nat (length m))) @ r" using framed_head [OF assms] ..
  have "rd32 (m @ bs) 0 = Inr (htonl (of_nat (length m)))"
    using rd32_head [of "htonl (of_nat (length m))" "r @ bs"] m by (metis append.assoc)
  moreover have "unat (ntohl (htonl (of_nat (length m)))) = length m"
    using assms by (simp add: framed_def unat_of_nat)
  moreover have "8 \<le> length m" "m \<noteq> []" using assms by (auto simp: framed_def struct_sizes)
  ultimately show ?thesis by (subst deframe.simps) simp
qed

lemma deframe_concat: "\<forall>m\<in>set ms. framed m \<Longrightarrow> deframe (concat ms) = Some ms"
proof (induction ms)
  case Nil
  then show ?case by (subst deframe.simps) simp
next
  case (Cons m ms)
  then show ?case by (simp add: deframe_Cons)
qed

section \<open>Every message of a run is framed\<close>

lemma framed_message: "length frame < 2 ^ 31 \<Longrightarrow> framed (message interface frame)"
  using packet_msg_fields(1) [of interface frame]
  by (simp add: framed_def field_of_def struct_defs struct_size_def message_def sizeof_packet_header_def)

lemma framed_c_open: "framed (c_open sr)"
  using c_open_fields(1,2) [of sr] by (simp add: framed_def field_of_def struct_defs struct_size_def IDSIZE_def)

lemma framed_auth_reply: "length name < 32 \<Longrightarrow> framed (auth_reply name dig)"
  using auth_reply_fields(1) [of name dig]
  by (simp add: framed_def field_of_def struct_defs struct_size_def)
    (simp add: auth_reply_def digest_bytes_def split: prod.split)

lemma received_length: "received h E interface frame \<Longrightarrow> list_all regular h \<Longrightarrow> length frame < 2 ^ 31"
  by (auto simp: received_def list_all_iff regular_def)

lemma caused_framed:
  assumes "caused ifs rts h msg" "list_all regular h"
  shows "framed msg"
  using assms(1)
proof cases
  case (asks packet i)
  then show ?thesis by (simp add: framed_message length_arp_request_frame)
next
  case (answers E interface frame i)
  then show ?thesis using received_length [OF answers(2) assms(2)]
    by (simp add: framed_message length_arp_reply_frame arp_for_def is_arp_frame_def)
next
  case (echoes E interface frame i)
  have "length (echo_frame i frame) = length frame"
    by (rule length_echo_frame) (use echoes(6) in \<open>simp add: sizeof_defs\<close>)
  then show ?thesis using received_length [OF echoes(2) assms(2)] by (simp add: echoes(1) framed_message)
next
  case (reports E interface frame type code i f)
  then show ?thesis by (simp add: framed_message)
next
  case (forwards packet m t rt i)
  then have "length packet < 2 ^ 31" "is_ip_frame packet"
    using received_length [OF _ assms(2)] by (auto simp: accepted_def valid_ip_def)
  then show ?thesis using forwards by (simp add: framed_message length_forward_frame is_ip_frame_def)
qed

section \<open>Property\<close>

text \<open>C35: the peer can read what the program says: in a run that ends normally, the bytes written to the
  socket, taken as one stream and cut by the length each message starts with, are exactly the messages
  the program has written, the answer to the challenge first.\<close>

theorem stream_cut_back:
  assumes "served M s opts u ls ifs ps" "main M s = Inr (s', status)" "wire (inst s) = []"
  shows "deframe (concat (wire (inst s'))) = Some (wire (inst s'))
    \<and> (\<exists>dig. hd (wire (inst s')) = auth_reply (cstr u) dig)"
proof -
  obtain dig sr0 ms where w: "wire (inst s') = [auth_reply (cstr u) dig, c_open sr0] @ ms"
    and c: "\<forall>msg\<in>set ms. caused (map (hw_if (Hs M 3)) ifs) (map route_of ls)
        (frames_history (\<lambda>i. Hs M (3 + i)) 1 ps) msg"
    and r: "list_all regular (frames_history (\<lambda>i. Hs M (3 + i)) 1 ps)" and u: "length (cstr u) < 32"
    using served_wire [OF assms(1,2)] assms(3) by (metis append_Nil)
  have "\<forall>m\<in>set (wire (inst s')). framed m"
    using c caused_framed [OF _ r] framed_c_open framed_auth_reply [OF u] by (auto simp: w)
  then have "deframe (concat (wire (inst s'))) = Some (wire (inst s'))" by (rule deframe_concat)
  moreover have "hd (wire (inst s')) = auth_reply (cstr u) dig" by (simp add: w)
  ultimately show ?thesis by blast
qed

theorem stream_cut_back_witness:
  "\<exists>s' ms. main ex_main ex_start_arp = Inr (s', 0) \<and> deframe (concat (wire (inst s'))) = Some ms \<and> length ms = 3"
proof -
  obtain s' where s': "main ex_main ex_start_arp = Inr (s', 0)" "length (wire (inst s')) = 3"
    using ex_served_runs by blast
  have "wire (inst ex_start_arp) = []" by (simp add: ex_start_arp_def ex_stream_def ex_session_def ex_router_def)
  from stream_cut_back [OF ex_served s'(1) this] s' show ?thesis by blast
qed

end
