(* ===== verification/Sr_Unreach_Old.thy ===== *)
theory Sr_Unreach_Old
  imports Sr_Ip
begin

text \<open>
  \<open>dest_unreach_code.c\<close>: an earlier version of three functions of \<open>sr_icmp.c\<close> that is not part of the
  build. They turn the received packet into the error message in place. The message keeps the protocol
  and the length of the packet it answers, so it is only an ICMP message when that packet was one; the
  versions in \<open>sr_icmp.c\<close> that replaced them build the IP header anew.
\<close>

text \<open>The code that \<open>dest_host_unreach\<close> and \<open>Dest_net_unreach\<close> share: they differ in the ICMP code.\<close>

definition old_unreach ::
    "u8 \<Rightarrow> env \<Rightarrow> bytes \<Rightarrow> sr_instance \<Rightarrow> bytes \<Rightarrow> u32 \<Rightarrow> sr_instance res" where
  "old_unreach code E packet sr interface len =
     rbind (ld_eth packet) (\<lambda>ehdr.
     rbind (rd packet sizeof_eth ICMP_DATA_SIZE) (\<lambda>data.
     rbind (ld dec_t3 sizeof_icmp_t3 packet (sizeof_eth + sizeof_ip)) (\<lambda>icmp_hdr.
     rbind (st_t3 packet (icmp_hdr\<lparr>t3_data := data\<rparr>)) (\<lambda>packet.
     rbind (deref (sr_get_interface sr interface)) (\<lambda>get_interface.
     rbind (st_eth packet (ehdr\<lparr>ether_shost := if_addr get_interface,
                                ether_dhost := ether_shost ehdr\<rparr>)) (\<lambda>packet.
     rbind (ld_ip packet) (\<lambda>iphdr.
     let iphdr = iphdr\<lparr>ip_dst := ip_src iphdr, ip_src := if_ip get_interface\<rparr> in
     rbind (st_ip packet (set_ip_cksum iphdr)) (\<lambda>packet.
     let icmp_hdr = icmp_hdr\<lparr>t3_data := data, t3_type := 3, t3_code := code, t3_sum := 0\<rparr>;
         icmp_hdr = icmp_hdr\<lparr>t3_sum := cksum (enc_t3 icmp_hdr)\<rparr> in
     rbind (st_t3 packet icmp_hdr) (\<lambda>packet.
     rbind (sr_send_packet E sr packet len interface) (\<lambda>(sr, _). Inr sr))))))))))"

definition old_dest_host_unreach ::
    "env \<Rightarrow> bytes \<Rightarrow> sr_instance \<Rightarrow> bytes \<Rightarrow> u32 \<Rightarrow> sr_instance res" where
  "old_dest_host_unreach = old_unreach 0"

definition old_Dest_net_unreach ::
    "env \<Rightarrow> bytes \<Rightarrow> sr_instance \<Rightarrow> bytes \<Rightarrow> u32 \<Rightarrow> sr_instance res" where
  "old_Dest_net_unreach = old_unreach 1"

text \<open>The checksum is tested before and after, both results unused; the ICMP code is not written.\<close>

definition old_Time_Exceeded ::
    "env \<Rightarrow> bytes \<Rightarrow> sr_instance \<Rightarrow> bytes \<Rightarrow> u32 \<Rightarrow> sr_instance res" where
  "old_Time_Exceeded E packet sr interface len =
     rbind (validate_checksum packet len) (\<lambda>(packet, _).
     rbind (ld_eth packet) (\<lambda>ehdr.
     rbind (rd packet sizeof_eth ICMP_DATA_SIZE) (\<lambda>data.
     rbind (ld dec_t3 sizeof_icmp_t3 packet (sizeof_eth + sizeof_ip)) (\<lambda>icmp_hdr.
     rbind (st_t3 packet (icmp_hdr\<lparr>t3_data := data\<rparr>)) (\<lambda>packet.
     rbind (deref (sr_get_interface sr interface)) (\<lambda>get_interface.
     rbind (st_eth packet (ehdr\<lparr>ether_shost := if_addr get_interface,
                                ether_dhost := ether_shost ehdr\<rparr>)) (\<lambda>packet.
     rbind (ld_ip packet) (\<lambda>iphdr.
     let iphdr = iphdr\<lparr>ip_dst := ip_src iphdr, ip_src := ip_dst iphdr, ip_ttl := ip_ttl iphdr - 1\<rparr> in
     rbind (st_ip packet (set_ip_cksum iphdr)) (\<lambda>packet.
     let icmp_hdr = icmp_hdr\<lparr>t3_data := data, t3_type := 11, t3_sum := 0\<rparr>;
         icmp_hdr = icmp_hdr\<lparr>t3_sum := cksum (enc_t3 icmp_hdr)\<rparr> in
     rbind (st_t3 packet icmp_hdr) (\<lambda>packet.
     rbind (validate_checksum packet len) (\<lambda>(packet, _).
     rbind (sr_send_packet E sr packet len interface) (\<lambda>(sr, _). Inr sr))))))))))))"

section \<open>What is sent\<close>

lemma rd_length: "rd b off n = Inr x \<Longrightarrow> length x = n"
  by (auto simp: rd_def split: if_splits)

text \<open>
  The frame sent for a packet: \<open>f\<close> is what the function does to the IP header, \<open>g\<close> what it does to the
  ICMP header.
\<close>

definition old_frame ::
    "sr_if \<Rightarrow> (sr_ip_hdr \<Rightarrow> sr_ip_hdr) \<Rightarrow> (sr_icmp_t3_hdr \<Rightarrow> sr_icmp_t3_hdr) \<Rightarrow> bytes \<Rightarrow> bytes" where
  "old_frame i f g packet =
     (let ehdr = dec_eth (take sizeof_eth packet);
          iphdr = dec_ip (take sizeof_ip (drop sizeof_eth packet));
          icmp_hdr = dec_t3 (take sizeof_icmp_t3 (drop (sizeof_eth + sizeof_ip) packet));
          icmp_hdr = (g (icmp_hdr\<lparr>t3_data := take ICMP_DATA_SIZE (drop sizeof_eth packet)\<rparr>))\<lparr>t3_sum := 0\<rparr>
      in enc_eth (ehdr\<lparr>ether_shost := if_addr i, ether_dhost := ether_shost ehdr\<rparr>)
         @ enc_ip (set_ip_cksum (f iphdr))
         @ enc_t3 (icmp_hdr\<lparr>t3_sum := cksum (enc_t3 icmp_hdr)\<rparr>)
         @ drop (sizeof_eth + sizeof_ip + sizeof_icmp_t3) packet)"

lemma old_unreach_emit:
  assumes "unat len = length packet" "70 \<le> length packet" "length packet < 2 ^ 31"
    and "sr_get_interface sr interface = Some i"
  shows "old_unreach code E packet sr interface len = Inr (emit E interface
    (old_frame i (\<lambda>h. h\<lparr>ip_dst := ip_src h, ip_src := if_ip i\<rparr>) (\<lambda>h. h\<lparr>t3_type := 3, t3_code := code\<rparr>) packet) sr)"
proof -
  define fr where "fr = old_frame i (\<lambda>h. h\<lparr>ip_dst := ip_src h, ip_src := if_ip i\<rparr>)
    (\<lambda>h. h\<lparr>t3_type := 3, t3_code := code\<rparr>) packet"
  have lf: "length fr = length packet"
    using assms(2) by (simp add: fr_def old_frame_def Let_def eth.length_enc ip.length_enc t3.length_enc
        sizeof_defs ICMP_DATA_SIZE_def)
  have "old_unreach code E packet sr interface len =
      rbind (sr_send_packet E sr fr len interface) (\<lambda>(sr, _). Inr sr)"
    using assms(2,4)
    by (simp add: old_unreach_def fr_def old_frame_def Let_def ld_def rd_def st_def wr_def eth.length_enc
        ip.length_enc t3.length_enc sizeof_defs ICMP_DATA_SIZE_def add.commute take_drop)
  moreover have "source_ok sr (take (unat len) fr) interface"
    unfolding fr_def old_frame_def Let_def
    by (rule source_ok_eth) (use assms in \<open>simp_all add: sizeof_defs\<close>)
  ultimately show ?thesis using assms lf by (simp add: send_emit flip: fr_def)
qed

text \<open>Its message of code 0 is the one \<open>Dest_net_unreach\<close> of \<open>sr_icmp.c\<close> sends, faults included.\<close>

lemma st_t3_after_ld:
  "st_t3 packet (h\<lparr>t3_data := d\<rparr>) = Inl e \<Longrightarrow>
   ld dec_t3 sizeof_icmp_t3 packet (sizeof_eth + sizeof_ip) = Inr h \<Longrightarrow> length d \<noteq> ICMP_DATA_SIZE"
  by (auto simp: ld_def rd_def st_def wr_def rbind_eq_Inr t3.length_enc split: if_splits)

lemma old_dest_host_unreach_is: "old_dest_host_unreach = Dest_net_unreach"
proof (intro ext)
  fix E packet sr interface len
  show "old_dest_host_unreach E packet sr interface len = Dest_net_unreach E packet sr interface len"
    by (cases "sr_get_interface sr interface")
      (auto simp: old_dest_host_unreach_def old_unreach_def Dest_net_unreach_def deref_def rbind_def
        split: sum.splits dest!: rd_length dest: st_t3_after_ld)
qed

text \<open>
  The message still names the protocol and the length of the packet it answers: the error for a UDP packet
  is a UDP packet.
\<close>

lemma old_frame_ip:
  "frame_ip (old_frame i f g packet) = set_ip_cksum (f (frame_ip packet))"
  by (simp add: old_frame_def Let_def eth.length_enc ip.length_enc ip.dec_enc)

lemma old_unreach_keeps_protocol:
  "ip_p (frame_ip (old_frame i (\<lambda>h. h\<lparr>ip_dst := ip_src h, ip_src := if_ip i\<rparr>) g packet)) = ip_p (frame_ip packet)"
  "ip_len (frame_ip (old_frame i (\<lambda>h. h\<lparr>ip_dst := ip_src h, ip_src := if_ip i\<rparr>) g packet)) = ip_len (frame_ip packet)"
  by (simp_all only: old_frame_ip) simp_all

section \<open>The handler contract\<close>

lemma old_unreach_good: "old_unreach code E packet sr interface len = Inr sr' \<Longrightarrow> good_step sr sr'"
  unfolding old_unreach_def Let_def
  by (auto simp: rbind_eq_Inr dest: sr_send_packet_good(1))

lemma old_Time_Exceeded_good: "old_Time_Exceeded E packet sr interface len = Inr sr' \<Longrightarrow> good_step sr sr'"
  unfolding old_Time_Exceeded_def Let_def
  by (auto simp: rbind_eq_Inr dest: sr_send_packet_good(1))

interpretation old_unreach: handler "\<lambda>sr. old_unreach code E packet sr interface len"
  for code E packet interface len
  by unfold_locales (rule old_unreach_good)

interpretation old_time_exceeded: handler "\<lambda>sr. old_Time_Exceeded E packet sr interface len"
  for E packet interface len
  by unfold_locales (rule old_Time_Exceeded_good)

end
