(* ===== verification/Sr_Arrays.thy ===== *)
theory Sr_Arrays
  imports Sr_Main
begin

text \<open>
  The declared sizes of the router's \<open>char\<close> arrays as an invariant, together with the one of the ARP
  cache and its queue: every operation that writes a field, every message of the server whatever it
  holds, every table file and so every run of \<open>main\<close> keeps them. Nothing is assumed of the server here.
\<close>

text \<open>\<open>user[32]\<close>, \<open>host[32]\<close>, \<open>template[30]\<close>; the names of interfaces and routes.\<close>

definition arrays_sized :: "sr_instance \<Rightarrow> bool" where
  "arrays_sized sr \<longleftrightarrow> length (user sr) = 32 \<and> length (host sr) = 32 \<and> length (template sr) = 30
     \<and> list_all (\<lambda>i. length (if_name i) = sr_IFACE_NAMELEN) (if_list sr)
     \<and> list_all (\<lambda>r. length (rt_interface r) = sr_IFACE_NAMELEN) (routing_table sr)"

definition sane :: "sr_instance \<Rightarrow> bool" where
  "sane sr \<longleftrightarrow> arrays_sized sr \<and> cache_inv (cache sr) \<and> queue_ok sr"

text \<open>A step of the configuration: the arrays stay sized, the table and the cache are untouched.\<close>

definition config_step :: "sr_instance \<Rightarrow> sr_instance \<Rightarrow> bool" where
  "config_step sr sr' \<longleftrightarrow> (arrays_sized sr \<longrightarrow> arrays_sized sr')
     \<and> cache sr' = cache sr \<and> routing_table sr' = routing_table sr"

lemma config_step_refl [simp]: "config_step sr sr"
  by (simp add: config_step_def)

lemma config_step_trans: "config_step sr1 sr2 \<Longrightarrow> config_step sr2 sr3 \<Longrightarrow> config_step sr1 sr3"
  by (simp add: config_step_def)

lemma queue_ok_cong: "cache sr' = cache sr \<Longrightarrow> routing_table sr' = routing_table sr \<Longrightarrow> queue_ok sr' = queue_ok sr"
  by (simp add: queue_ok_def queued_ok_cong [of sr' sr])

lemma config_step_sane: "config_step sr sr' \<Longrightarrow> sane sr \<Longrightarrow> sane sr'"
  by (simp add: config_step_def sane_def queue_ok_cong [of sr' sr])

lemma good_step_sized: "good_step sr sr' \<Longrightarrow> arrays_sized sr \<Longrightarrow> arrays_sized sr'"
  by (simp add: good_step_def arrays_sized_def)

section \<open>The operations on the configuration\<close>

lemma add_interface_config: "config_step sr (sr_add_interface fresh sr name)"
  by (simp add: config_step_def arrays_sized_def sr_add_interface_list)
    (simp add: sr_add_interface_def Let_def split: list.split)

lemma list_all_butlast: "list_all P xs \<Longrightarrow> list_all P (butlast xs)"
  by (induction xs) auto

lemma last_sized: "list_all (\<lambda>i. length (if_name i) = n) l \<Longrightarrow> l \<noteq> [] \<Longrightarrow> length (if_name (last l)) = n"
  by (induction l) auto

lemma setters_last:
  "sr_set_ether_addr sr a = (if if_list sr = [] then Inl AssertFailed
     else Inr (sr\<lparr>if_list := butlast (if_list sr) @ [(last (if_list sr))\<lparr>if_addr := a\<rparr>]\<rparr>))"
  "sr_set_ether_ip sr ip = (if if_list sr = [] then Inl AssertFailed
     else Inr (sr\<lparr>if_list := butlast (if_list sr) @ [(last (if_list sr))\<lparr>if_ip := ip\<rparr>]\<rparr>))"
  by (cases "if_list sr"; simp add: sr_set_ether_addr_def sr_set_ether_ip_def)+

lemma set_ether_addr_config: "sr_set_ether_addr sr a = Inr sr' \<Longrightarrow> config_step sr sr'"
  by (auto simp: setters_last config_step_def arrays_sized_def list_all_butlast last_sized split: if_splits)

lemma set_ether_ip_config: "sr_set_ether_ip sr a = Inr sr' \<Longrightarrow> config_step sr sr'"
  by (auto simp: setters_last config_step_def arrays_sized_def list_all_butlast last_sized split: if_splits)

lemma sock_send_config: "config_step sr (fst (sock_send E sr m))"
  by (simp add: sock_send_def Let_def config_step_def arrays_sized_def)

lemma hw_apply_config: "hw_apply H sr e = Inr sr' \<Longrightarrow> config_step sr sr'"
  by (auto simp: hw_apply_def Let_def rbind_eq_Inr add_interface_config
      intro: set_ether_addr_config set_ether_ip_config split: if_splits)

lemma hw_loop_config: "hw_loop H hwinfo i n sr = Inr sr' \<Longrightarrow> config_step sr sr'"
  by (induction n arbitrary: i sr)
    (auto simp: rbind_eq_Inr intro: config_step_trans dest!: hw_apply_config)

lemma add_rt_entry_sized: "arrays_sized sr \<Longrightarrow> arrays_sized (sr_add_rt_entry sr d g m name)"
  by (cases "routing_table sr") (simp_all add: sr_add_rt_entry_def arrays_sized_def Let_def)

lemma add_rt_entry_cache: "cache (sr_add_rt_entry sr d g m name) = cache sr"
  by (simp add: sr_add_rt_entry_def Let_def split: list.split)

lemma load_line_sized:
  "load_line line s = Inr (s', ok) \<Longrightarrow> arrays_sized (ld_sr s) \<Longrightarrow>
   arrays_sized (ld_sr s') \<and> cache (ld_sr s') = cache (ld_sr s)"
proof -
  assume run: "load_line line s = Inr (s', ok)" and sz: "arrays_sized (ld_sr s)"
  have "arrays_sized ((ld_sr s)\<lparr>routing_table := []\<rparr>)" using sz by (simp add: arrays_sized_def)
  with run sz show ?thesis
    by (auto simp: load_line_def Let_def rbind_eq_Inr add_rt_entry_sized add_rt_entry_cache
        split: option.splits if_splits)
qed

lemma load_loop_sized:
  "load_loop contents s = Inr (s', ok) \<Longrightarrow> arrays_sized (ld_sr s) \<Longrightarrow>
   arrays_sized (ld_sr s') \<and> cache (ld_sr s') = cache (ld_sr s)"
proof (induction contents s rule: load_loop.induct)
  case (1 contents s)
  show ?case
    using "1.prems" "1.IH"
    by (subst (asm) load_loop.simps)
      (fastforce split: option.splits prod.splits sum.splits if_splits dest: load_line_sized)
qed

lemma load_rt_sized:
  "sr_load_rt arrays sr file = Inr (sr', r) \<Longrightarrow> arrays_sized sr \<Longrightarrow> arrays_sized sr' \<and> cache sr' = cache sr"
  by (auto simp: sr_load_rt_def rbind_eq_Inr split: option.splits dest: load_loop_sized)

section \<open>The messages of the server\<close>

lemma handle_hwinfo_config: "sr_handle_hwinfo H sr m = Inr (sr', n) \<Longrightarrow> config_step sr sr'"
  by (auto simp: sr_handle_hwinfo_def Let_def rbind_eq_Inr dest: hw_loop_config)

lemma auth_request_config: "sr_handle_auth_request H s m = Inr (s', r) \<Longrightarrow> config_step (inst s) (inst s')"
  using sock_send_config
  by (auto simp: sr_handle_auth_request_def Let_def rbind_eq_Inr prod.case_eq_if
      split: option.splits if_splits)

lemma rtable_config: "sr_handle_rtable H s m = Inr (s', r) \<Longrightarrow> inst s' = inst s"
  by (auto simp: sr_handle_rtable_def Let_def rbind_eq_Inr split: if_splits)

lemma log_packet_config: "sr_log_packet E sr buf len = Inr sr' \<Longrightarrow> config_step sr sr'"
  by (drule sr_log_packet_frame) (auto simp: config_step_def arrays_sized_def)

lemma command_config:
  assumes "handle_command H s buf len command = Inr (s', r)" "command \<noteq> VNSPACKET"
  shows "config_step (inst s) (inst s')"
proof -
  consider "command = VNSHWINFO" | "command = VNS_RTABLE" | "command = VNS_AUTH_REQUEST"
    | "command \<noteq> VNSHWINFO" "command \<noteq> VNS_RTABLE" "command \<noteq> VNS_AUTH_REQUEST" by blast
  then show ?thesis
  proof cases
    case 1
    then show ?thesis using assms(1)
      by (auto simp: handle_command_def command_defs rbind_eq_Inr dest!: handle_hwinfo_config split: if_splits)
  next
    case 2
    then show ?thesis using assms(1)
      by (auto simp: handle_command_def command_defs rbind_eq_Inr dest!: rtable_config)
  next
    case 3
    then show ?thesis using assms(1)
      by (auto simp: handle_command_def command_defs rbind_eq_Inr dest!: auth_request_config)
  next
    case 4
    then have "s' = s" using assms
      by (auto simp: handle_command_def rbind_eq_Inr split: if_splits)
    then show ?thesis by simp
  qed
qed

text \<open>A frame message too short for its header faults; for the others the lengths agree.\<close>

lemma vnspacket_sane:
  assumes run: "handle_vnspacket H s buf len = Inr s'"
    and len: "unat len = length buf" "unat len \<le> 10000" and sane: "sane (inst s)"
  shows "sane (inst s')"
proof -
  define p where "p = drop sizeof_packet_header buf"
  define fl where "fl = len - of_nat sizeof_packet_ethernet_header + of_nat sizeof_eth"
  have fl: "fl = len - 24"
    by (simp add: fl_def sizeof_packet_ethernet_header_def sizeof_eth_def)
  obtain foreign where run': "(if foreign then Inr s else rbind (rd32 buf 0) (\<lambda>mLen.
      rbind (on_inst (\<lambda>sr. sr_log_packet (base H) sr p (ntohl mLen - of_nat sizeof_packet_header)) s)
        (on_inst (\<lambda>sr. sr_handlepacket (base H) sr p fl (drop 8 buf))))) = Inr s'"
    using run unfolding handle_vnspacket_def Let_def rbind_eq_Inr p_def fl_def by blast
  show ?thesis
  proof (cases foreign)
    case False
    then obtain sr1 where c: "config_step (inst s) sr1"
      and h: "sr_handlepacket (base H) sr1 p fl (drop 8 buf) = Inr (inst s')"
      using run' by (auto simp: rbind_eq_Inr on_inst_def dest!: log_packet_config)
    have s1: "sane sr1" using c sane by (rule config_step_sane)
    have "24 \<le> length buf"
    proof (rule ccontr)
      assume "\<not> 24 \<le> length buf"
      then have "p = []" by (simp add: p_def sizeof_packet_header_def)
      then show False using h by (simp add: sr_handlepacket_def ethertype_def ld_def rd_def sizeof_eth_def)
    qed
    then have l: "unat fl = length p" "length p < 2 ^ 31"
      using len by (simp_all add: fl p_def sizeof_packet_header_def unat_sub word_le_nat_alt)
    have inv: "cache_inv (cache sr1)" "queue_ok sr1" "arrays_sized sr1" using s1 by (simp_all add: sane_def)
    have g: "good_step sr1 (inst s')" using inv(1) h by (rule handlepacket.good)
    then show ?thesis
      using handlepacket_queue_ok [OF h inv(1,2) l] good_step_sized [OF g inv(3)] inv(1)
      by (simp add: sane_def good_step_def)
  qed (use run' sane in simp)
qed

lemma command_sane:
  assumes "handle_command H s buf len command = Inr (s', r)"
    and "unat len = length buf" "unat len \<le> 10000" "sane (inst s)"
  shows "sane (inst s')"
proof (cases "command = VNSPACKET")
  case True
  then show ?thesis using assms vnspacket_sane by (auto simp: handle_command_def rbind_eq_Inr)
qed (use assms command_config config_step_sane in blast)

section \<open>The session\<close>

lemma unat_le_of_sint:
  assumes "\<not> sint (w :: u32) < 0" "sint w \<le> int n"
  shows "unat w \<le> n"
proof -
  have "uint w = take_bit 32 (sint w)" using uint_sint [of w] by simp
  also have "\<dots> = sint w" using assms(1) sint_lt [of w] by (simp add: take_bit_int_eq_self)
  finally show ?thesis using assms(2) by (simp add: unat_eq_nat_uint nat_le_iff)
qed

lemma sock_read_length: "sock_read n rxs = Inr (Some bs, rxs') \<Longrightarrow> length bs = n"
proof (induction n rxs arbitrary: bs rxs' rule: sock_read.induct)
  case (5 n b rxs)
  show ?case
  proof (cases "length b \<le> Suc n")
    case True
    then obtain r rest where r: "sock_read (Suc n - length b) rxs = Inr (Some r, rest)" "bs = b @ r"
      using "5.prems" by (auto simp: rbind_eq_Inr)
    then show ?thesis using "5.IH" [OF True r(1)] True by simp
  qed (use "5.prems" in auto)
qed simp_all

text \<open>One read: nothing happens to the router, or a whole message of the length it states is acted on.\<close>

lemma read_cases:
  assumes "sr_read_from_server_expect H s cmd = Inr (s', r)"
  obtains "inst s' = inst s" | s1 buf len command where "inst s1 = inst s" "unat len = length buf"
    "unat len \<le> 10000" "cmd \<noteq> 0 \<Longrightarrow> command = cmd \<or> command = VNSCLOSE"
    "handle_command H s1 buf len command = Inr (s', r)"
proof -
  note run = assms [unfolded sr_read_from_server_expect_def]
  obtain hdr rxs where 1: "sock_read 4 (incoming s) = Inr (hdr, rxs)"
    using run by (auto simp: rbind_eq_Inr)
  show thesis
  proof (cases hdr)
    case None
    then show thesis using run 1 that(1) by auto
  next
    case (Some h)
    obtain n where 2: "rd32 h 0 = Inr n" using run 1 Some by (auto simp: Let_def rbind_eq_Inr)
    let ?len = "ntohl n"
    show thesis
    proof (cases "10000 < sint ?len \<or> sint ?len < 0")
      case True
      then have "inst s' = inst s" using run 1 Some 2 by (auto simp: Let_def)
      then show thesis by (rule that(1))
    next
      case False
      then have sz: "unat ?len \<le> 10000" by (intro unat_le_of_sint) simp_all
      have four: "\<not> unat ?len < 4" using run 1 Some 2 False by (auto simp: Let_def)
      obtain body rxs2 where 3: "sock_read (unat ?len - 4) rxs = Inr (body, rxs2)"
        using run 1 Some 2 False four by (auto simp: Let_def rbind_eq_Inr)
      show thesis
      proof (cases body)
        case None
        then have "inst s' = inst s" using run 1 Some 2 3 False four by (auto simp: Let_def)
        then show thesis by (rule that(1))
      next
        case (Some b)
        let ?buf = "le32 (htonl ?len) @ b"
        obtain c buf where 4: "rd32 ?buf 4 = Inr c" "wr ?buf 4 (le32 (ntohl c)) = Inr buf"
          and fin: "(if cmd \<noteq> 0 \<and> ntohl c \<noteq> cmd \<and> ntohl c \<noteq> VNSCLOSE then Inr (s\<lparr>incoming := rxs2\<rparr>, -1)
            else handle_command H (s\<lparr>incoming := rxs2\<rparr>) buf ?len (ntohl c)) = Inr (s', r)"
          using run 1 \<open>hdr = Some h\<close> 2 3 Some False four by (auto simp: Let_def rbind_eq_Inr)
        have l: "unat ?len = length buf"
          using sock_read_length [of "unat ?len - 4" rxs b rxs2] 3 Some four wr_length [OF 4(2)] by (simp add: le32_def)
        show thesis
        proof (cases "cmd \<noteq> 0 \<and> ntohl c \<noteq> cmd \<and> ntohl c \<noteq> VNSCLOSE")
          case True
          then show thesis using fin that(1) by auto
        next
          case False
          then show thesis using fin l sz by (intro that(2) [of "s\<lparr>incoming := rxs2\<rparr>" ?len buf "ntohl c"]) auto
        qed
      qed
    qed
  qed
qed

lemma read_sane: "sr_read_from_server H s = Inr (s', r) \<Longrightarrow> sane (inst s) \<Longrightarrow> sane (inst s')"
  unfolding sr_read_from_server_def by (erule read_cases) (auto intro: command_sane)

text \<open>While only messages of other kinds are accepted the cache need not have been set up.\<close>

lemma read_config:
  "sr_read_from_server_expect H s cmd = Inr (s', r) \<Longrightarrow> cmd \<noteq> 0 \<Longrightarrow> cmd \<noteq> VNSPACKET \<Longrightarrow>
   config_step (inst s) (inst s')"
proof (erule read_cases)
  fix s1 buf len command
  assume "cmd \<noteq> 0" "cmd \<noteq> VNSPACKET" "inst s1 = inst s" and "cmd \<noteq> 0 \<Longrightarrow> command = cmd \<or> command = VNSCLOSE"
    and run: "handle_command H s1 buf len command = Inr (s', r)"
  then have "command \<noteq> VNSPACKET" by (auto simp: command_defs)
  then show "config_step (inst s) (inst s')" using command_config [OF run] \<open>inst s1 = inst s\<close> by simp
qed simp

lemma expect_ok_config:
  assumes "expect_ok H cmd k s = Inr (s', r)" "cmd \<noteq> 0" "cmd \<noteq> VNSPACKET"
    and "\<And>s1 s2 r. k s1 = Inr (s2, r) \<Longrightarrow> config_step (inst s1) (inst s2)"
  shows "config_step (inst s) (inst s')"
proof -
  obtain s1 r1 where "sr_read_from_server_expect H s cmd = Inr (s1, r1)"
    and "(if r1 \<noteq> 1 then Inr (s1, -1) else k s1) = Inr (s', r)"
    using assms(1) by (auto simp: expect_ok_def rbind_eq_Inr)
  moreover from this(1) have "config_step (inst s) (inst s1)" using assms(2,3) by (rule read_config)
  ultimately show ?thesis
    using assms(4) [of s1 s' r] by (cases "r1 = 1") (auto intro: config_step_trans)
qed

lemma send_open_config:
  assumes "send_open K s = Inr (s', r)"
  shows "config_step (inst s) (inst s')"
proof -
  obtain t where "c_string (template (inst s)) = Inr t"
    using assms by (auto simp: send_open_def rbind_eq_Inr)
  moreover obtain sr n where n: "sock_send (base (K 2)) (inst s)
      (if 0 < length t then c_open_template (inst s) else c_open (inst s)) = (sr, n)" by fastforce
  ultimately have "s' = s\<lparr>inst := sr\<rparr> \<or> expect_ok (K 2) VNS_RTABLE (\<lambda>s. Inr (s, 0)) (s\<lparr>inst := sr\<rparr>) = Inr (s', r)"
    using assms by (auto simp: send_open_def Let_def split: if_splits)
  then have "config_step sr (inst s')"
    using expect_ok_config [of "K 2" VNS_RTABLE "\<lambda>s. Inr (s, 0)" "s\<lparr>inst := sr\<rparr>" s' r]
    by (auto simp: command_defs)
  moreover have "config_step (inst s) sr" using sock_send_config n by (metis fst_conv)
  ultimately show ?thesis by (rule config_step_trans [rotated])
qed

lemma connect_config:
  assumes "sr_connect_to_server K a b c s = Inr (s', r)"
  shows "config_step (inst s) (inst s')"
proof (cases "a \<and> b \<and> c")
  case True
  then have "expect_ok (K 0) VNS_AUTH_REQUEST (expect_ok (K 1) VNS_AUTH_STATUS (send_open K))
      (s\<lparr>sock_open := True\<rparr>) = Inr (s', r)"
    using assms by (simp add: sr_connect_to_server_def)
  then have "config_step (inst (s\<lparr>sock_open := True\<rparr>)) (inst s')"
    by (rule expect_ok_config)
      (auto simp: command_defs elim!: expect_ok_config intro: send_open_config)
  then show ?thesis by simp
qed (use assms in \<open>auto simp: sr_connect_to_server_def split: if_splits\<close>)

lemma main_loop_sane:
  "main_loop K i s = Inr (s', r) \<Longrightarrow> sane (inst s) \<Longrightarrow> sane (inst s')"
proof (induction K i s rule: main_loop.induct)
  case (1 K i s)
  obtain s1 r1 where r: "sr_read_from_server (K i) s = Inr (s1, r1)"
    using "1.prems"(1) by (subst (asm) main_loop.simps) (auto split: sum.splits)
  have s1: "sane (inst s1)" using r "1.prems"(2) by (rule read_sane)
  show ?case
  proof (cases "r1 = 1")
    case True
    then show ?thesis using "1.IH" [OF r refl True] "1.prems"(1) r s1 by (simp add: main_loop.simps [of K i s])
  next
    case False
    then show ?thesis using "1.prems"(1) r s1 by (simp add: main_loop.simps [of K i s])
  qed
qed

section \<open>The whole program\<close>

lemma init_instance_sized:
  "length (user sr) = 32 \<Longrightarrow> length (host sr) = 32 \<Longrightarrow> length (template sr) = 30 \<Longrightarrow>
   arrays_sized (sr_init_instance sr)"
  by (simp add: arrays_sized_def sr_init_instance_def)

lemma load_wrap_sized:
  "sr_load_rt_wrap as s fn = Inr r \<Longrightarrow> arrays_sized (inst s) \<Longrightarrow>
   (case r of None \<Rightarrow> True | Some s' \<Rightarrow> arrays_sized (inst s'))"
  by (auto simp: sr_load_rt_wrap_def rbind_eq_Inr dest!: load_rt_sized)

lemma setup_table_sized:
  assumes "setup_table M opts s = Inr r"
    and "length (user (inst s)) = 32" "length (host (inst s)) = 32" "length (template (inst s)) = 30"
  shows "case r of None \<Rightarrow> True | Some s' \<Rightarrow> arrays_sized (inst s')"
proof -
  have i: "arrays_sized (sr_init_instance (inst s))" using assms(2-4) by (rule init_instance_sized)
  then have "arrays_sized ((sr_init_instance (inst s))\<lparr>template := t\<rparr>)" if "length t = 30" for t
    using that by (simp add: arrays_sized_def)
  then have t: "arrays_sized (inst (s\<lparr>inst := (sr_init_instance (inst s))\<lparr>template := t\<rparr>\<rparr>))" if "length t = 30" for t
    using that by simp
  show ?thesis
  proof (cases "o_template opts")
    case None
    then have "sr_load_rt_wrap (arrays1 M) (s\<lparr>inst := (sr_init_instance (inst s))
        \<lparr>template := (template (inst s))[0 := 0]\<rparr>\<rparr>) (o_rtable opts) = Inr r"
      using assms(1) by (simp add: setup_table_def Let_def sr_init_instance_def)
    then show ?thesis by (rule load_wrap_sized) (rule t, simp add: assms(4))
  next
    case (Some u)
    then show ?thesis using assms(1) t [of "c_strncpy 30 u"] by (auto simp: setup_table_def Let_def)
  qed
qed

lemma setup_names_sized: "arrays_sized sr \<Longrightarrow> arrays_sized (setup_names M opts sr)"
  by (simp add: setup_names_def sr_set_user_def arrays_sized_def Let_def split: option.split)

lemma setup_log_sized: "setup_log M opts sr = Some sr' \<Longrightarrow> arrays_sized sr \<Longrightarrow> arrays_sized sr'"
  by (auto simp: setup_log_def arrays_sized_def split: option.splits if_splits)

lemma init_sane: "arrays_sized sr \<Longrightarrow> sane (sr_init sr)"
  by (simp add: sane_def sr_init_def cache_inv_init arrays_sized_def)
    (simp add: queue_ok_def waiting_def sr_arpcache_init_def)

section \<open>Property\<close>

text \<open>C10: whatever the options, the table files and the server's messages are, a run of \<open>main\<close> that ends
  normally leaves every array of the router at its declared size, 100 cache slots, and a well-formed
  queue of waiting IP packets: no message, well formed or not, breaks this without a fault.\<close>

theorem main_well_typed:
  assumes "parse_opts default_options (args M) = Some opts" "main M s = Inr (s', 0)"
    and "length (user (inst s)) = 32" "length (host (inst s)) = 32" "length (template (inst s)) = 30"
  shows "sane (inst s')"
proof -
  obtain s2 where 2: "setup_table M opts s = Inr (Some s2)"
    using assms(1,2) by (auto simp: main_def rbind_eq_Inr split: option.splits)
  obtain sr where 3: "setup_log M opts (setup_names M opts (inst s2)) = Some sr"
    using assms(1,2) 2 by (auto simp: main_def rbind_eq_Inr split: option.splits)
  obtain s4 r4 where 4: "sr_connect_to_server (Hs M) (resolved M) (created M) (connected M) (s2\<lparr>inst := sr\<rparr>) = Inr (s4, r4)"
    and "r4 \<noteq> -1"
    using assms(1,2) 2 3 by (auto simp: main_def rbind_eq_Inr split: if_splits)
  obtain s5 where 5: "sr_load_rt_wrap (arrays2 M) s4 (second_rtable opts) = Inr (Some s5)"
    using assms(1,2) 2 3 4 \<open>r4 \<noteq> -1\<close> by (auto simp: main_def rbind_eq_Inr split: option.splits)
  have "arrays_sized (inst s2)" using setup_table_sized [OF 2 assms(3-5)] by simp
  then have "arrays_sized sr" using setup_log_sized [OF 3] setup_names_sized by blast
  then have "arrays_sized (inst s4)" using connect_config [OF 4] by (simp add: config_step_def)
  then have "arrays_sized (inst s5)" using load_wrap_sized [OF 5] by simp
  then have "sane (inst (s5\<lparr>inst := sr_init (inst s5)\<rparr>))" by (simp add: init_sane)
  moreover obtain r where "main_loop (\<lambda>i. Hs M (3 + i)) 0 (s5\<lparr>inst := sr_init (inst s5)\<rparr>) = Inr (s', r)"
    using assms(1,2) 2 3 4 5 \<open>r4 \<noteq> -1\<close> by (auto simp: main_def rbind_eq_Inr)
  ultimately show ?thesis by (auto intro: main_loop_sane)
qed

theorem main_well_typed_witness:
  "\<exists>s'. main ex_main ex_start = Inr (s', 0) \<and> sane (inst s') \<and> routing_table (inst s') \<noteq> []
    \<and> if_list (inst s') \<noteq> []"
proof -
  obtain sent sr rxs where "length sent = (2 :: nat)"
    and sr: "sr = (started ex_main (default_options\<lparr>o_user := Some [117]\<rparr>) ex_lines sent (inst ex_start))
        \<lparr>if_list := map (hw_if ex_host) ex_ifs\<rparr>"
    and run: "main ex_main ex_start = Inr (ex_start\<lparr>inst := sr, incoming := rxs, sock_open := True\<rparr>, 0)"
    using main_session [of ex_main "default_options\<lparr>o_user := Some [117]\<rparr>" "[117]" ex_start ex_lines
        "replicate 64 65" "[1, 2, 3, 4]" 1 "[0]" ex_ifs "[]" "[0]"] ex_main_setup ex_stream
    by (auto simp: ex_start_def default_options_def)
  have "length (user (inst ex_start)) = 32" "length (host (inst ex_start)) = 32" "length (template (inst ex_start)) = 30"
    by (simp_all add: ex_start_def ex_stream_def ex_session_def ex_router_def)
  from main_well_typed [OF ex_main_setup(1) run this] run show ?thesis
    by (auto simp: sr started_simps ex_lines_def ex_ifs_def)
qed

end
