(* ===== verification/Cc_Float.thy ===== *)
theory Cc_Float
  imports Router_Prelude "HOL-Library.Log_Nat"
begin

text \<open>
  Binary floating point for the congestion controllers of \<open>Assign_3\<close>, which keep their windows as
  \<open>long double\<close> and \<open>double\<close>. A finite value is a rational; the result of an operation is the exact
  result rounded to \<open>p\<close> significant bits, ties to even (\<open>fl p\<close>, with 64 bits for the x87 \<open>long double\<close>
  and 53 for \<open>double\<close>). The range of the exponent is not modelled: the values stay near the size of a
  window. The contract the controllers are verified against is the locale \<open>rounding\<close>.
\<close>

section \<open>Rounding\<close>

definition rne :: "rat \<Rightarrow> int" where
  "rne x = (let n = \<lfloor>x\<rfloor>; d = x - of_int n in
     if d < 1 / 2 then n else if 1 / 2 < d then n + 1 else if even n then n else n + 1)"

text \<open>The exponent of a positive number: \<open>2 powi exp2 x \<le> x < 2 powi (exp2 x + 1)\<close>.\<close>

definition exp2 :: "rat \<Rightarrow> int" where
  "exp2 x = (let (a, b) = quotient_of x; k = int (floorlog 2 (nat a)) - int (floorlog 2 (nat b))
     in if 2 powi k \<le> x then k else k - 1)"

definition fl_pos :: "nat \<Rightarrow> rat \<Rightarrow> rat" where
  "fl_pos p x = (if x = 0 then 0
     else let u = 2 powi (exp2 x - int p + 1) in of_int (rne (x / u)) * u)"

definition fl :: "nat \<Rightarrow> rat \<Rightarrow> rat" where
  "fl p x = (if x < 0 then - fl_pos p (- x) else fl_pos p x)"

text \<open>Conversion to an integer type drops the fraction.\<close>

definition trunc :: "rat \<Rightarrow> int" where
  "trunc x = (if x < 0 then \<lceil>x\<rceil> else \<lfloor>x\<rfloor>)"

section \<open>The laws\<close>

lemma rne_bounds: "\<lfloor>x\<rfloor> \<le> rne x" "rne x \<le> \<lfloor>x\<rfloor> + 1"
  by (simp_all add: rne_def Let_def)

lemma rne_of_int [simp]: "rne (of_int n) = n"
  by (simp add: rne_def)

lemma rne_nearest: "\<bar>of_int (rne x) - x\<bar> \<le> 1 / 2"
  using floor_correct [of x] by (auto simp: rne_def Let_def)

lemma rne_power [simp]: "rne (2 ^ n) = 2 ^ n"
  using rne_of_int [of "2 ^ n"] by simp

lemma rne_mono:
  assumes "x \<le> y"
  shows "rne x \<le> rne y"
proof (cases "\<lfloor>x\<rfloor> = \<lfloor>y\<rfloor>")
  case True
  then show ?thesis using assms by (auto simp: rne_def Let_def)
next
  case False
  then have "\<lfloor>x\<rfloor> + 1 \<le> \<lfloor>y\<rfloor>" using floor_mono [OF assms] by simp
  then show ?thesis using rne_bounds(2) [of x] rne_bounds(1) [of y] by simp
qed

text \<open>The bit length of a positive integer.\<close>

lemma bit_length:
  assumes "0 < (a :: int)"
  shows "2 ^ floorlog 2 (nat a) \<le> 2 * a" "a < 2 ^ floorlog 2 (nat a)"
proof -
  obtain k where k: "floorlog 2 (nat a) = Suc k"
    using assms by (cases "floorlog 2 (nat a)") (simp_all add: floorlog_eq_zero_iff)
  have "2 ^ k \<le> nat a" "nat a < 2 ^ Suc k"
    using floorlog_bounds [of "nat a" 2] assms k by simp_all
  then have "int (2 ^ k) \<le> int (nat a)" "int (nat a) < int (2 ^ Suc k)" by (simp_all only: of_nat_le_iff of_nat_less_iff)
  then show "2 ^ floorlog 2 (nat a) \<le> 2 * a" "a < 2 ^ floorlog 2 (nat a)" using assms k by simp_all
qed

lemma exp2_bounds:
  assumes "0 < x"
  shows "2 powi exp2 x \<le> x" "x < 2 powi (exp2 x + 1)"
proof -
  obtain a b where q: "quotient_of x = (a, b)" by (cases "quotient_of x")
  have b: "0 < b" using q by (rule quotient_of_denom_pos)
  have x: "x = of_int a / of_int b" using q by (rule quotient_of_div)
  then have a: "0 < a" using assms b by (simp add: zero_less_divide_iff)
  define la where "la = floorlog 2 (nat a)"
  define lb where "lb = floorlog 2 (nat b)"
  define k where "k = int la - int lb"
  have "of_int (2 ^ la) \<le> (of_int (2 * a) :: rat)" "of_int a < (of_int (2 ^ la) :: rat)"
    "of_int (2 ^ lb) \<le> (of_int (2 * b) :: rat)" "of_int b < (of_int (2 ^ lb) :: rat)"
    unfolding la_def lb_def of_int_le_iff of_int_less_iff using bit_length a b by simp_all
  then have i: "2 ^ la \<le> 2 * (of_int a :: rat)" "of_int a < (2 ^ la :: rat)"
    "2 ^ lb \<le> 2 * (of_int b :: rat)" "of_int b < (2 ^ lb :: rat)" by simp_all
  have pk: "(2 :: rat) powi k = 2 ^ la / 2 ^ lb" by (simp add: k_def power_int_diff)
  then have pk': "(2 :: rat) powi (k + 1) = 2 * (2 ^ la / 2 ^ lb)" "(2 :: rat) powi (k - 1) = 2 ^ la / 2 ^ lb / 2"
    by (simp_all add: power_int_add power_int_diff)
  have b0: "0 < (of_int b :: rat)" using b by simp
  have up: "x < 2 powi (k + 1)"
  proof -
    have "of_int a * 2 ^ lb < 2 ^ la * (2 * of_int b :: rat)"
      using i(2,3) a b0 by (intro mult_less_le_imp_less) simp_all
    then show ?thesis unfolding x pk' using b0 by (simp add: divide_less_eq less_divide_eq ac_simps)
  qed
  have lo: "2 powi (k - 1) \<le> x"
  proof -
    have "2 ^ la * of_int b \<le> 2 * of_int a * (2 ^ lb :: rat)"
      using i(1,4) a b0 by (intro mult_mono) simp_all
    then show ?thesis unfolding x pk' using b0 by (simp add: divide_le_eq le_divide_eq ac_simps)
  qed
  have e: "exp2 x = (if 2 powi k \<le> x then k else k - 1)"
    by (simp add: exp2_def q Let_def k_def la_def lb_def)
  show "2 powi exp2 x \<le> x" "x < 2 powi (exp2 x + 1)" using up lo by (auto simp: e)
qed

lemma exp2_mono: "0 < x \<Longrightarrow> x \<le> y \<Longrightarrow> exp2 x \<le> exp2 y"
proof (rule ccontr)
  assume "0 < x" "x \<le> y" "\<not> exp2 x \<le> exp2 y"
  then have "(2 :: rat) powi (exp2 y + 1) \<le> 2 powi exp2 x" by (intro power_int_increasing) simp_all
  then show False using exp2_bounds(1) [of x] exp2_bounds(2) [of y] \<open>0 < x\<close> \<open>x \<le> y\<close> by linarith
qed

text \<open>The rounded value stays in the closed binade of the exact one.\<close>

lemma fl_pos_binade:
  assumes "0 < x" "0 < p"
  shows "2 powi exp2 x \<le> fl_pos p x" "fl_pos p x \<le> 2 powi (exp2 x + 1)"
proof -
  define u :: rat where "u = 2 powi (exp2 x - int p + 1)"
  have u: "0 < u" by (simp add: u_def)
  have f: "fl_pos p x = of_int (rne (x / u)) * u" using assms by (simp add: fl_pos_def u_def Let_def)
  obtain q where q: "p = Suc q" using assms(2) by (cases p) auto
  have lo: "of_int (2 ^ q) * u = 2 powi exp2 x" and hi: "of_int (2 ^ p) * u = 2 powi (exp2 x + 1)"
    using power_int_add [of "2 :: rat" "int q" "exp2 x - int p + 1"]
      power_int_add [of "2 :: rat" "int p" "exp2 x - int p + 1"] power_int_add [of "2 :: rat" 1 "int q"]
    by (simp_all add: u_def q power_int_add_1 add.commute)
  have "of_int (2 ^ q) \<le> x / u" "x / u \<le> of_int (2 ^ p)"
    using exp2_bounds [OF assms(1)] u unfolding lo [symmetric] hi [symmetric]
    by (simp_all add: le_divide_eq divide_le_eq)
  then have "2 ^ q \<le> rne (x / u)" "rne (x / u) \<le> 2 ^ p"
    using rne_mono [of "of_int (2 ^ q)" "x / u"] rne_mono [of "x / u" "of_int (2 ^ p)"] by simp_all
  then have "of_int (2 ^ q) * u \<le> of_int (rne (x / u)) * u" "of_int (rne (x / u)) * u \<le> of_int (2 ^ p) * u"
    using u by (simp_all only: mult_right_mono of_int_le_iff less_imp_le)
  then show "2 powi exp2 x \<le> fl_pos p x" "fl_pos p x \<le> 2 powi (exp2 x + 1)" by (simp_all only: f lo hi)
qed

text \<open>The relative error is half a unit in the last place.\<close>

lemma fl_error:
  assumes "0 \<le> x" "0 < p"
  shows "\<bar>fl p x - x\<bar> \<le> x / 2 ^ p"
proof (cases "x = 0")
  case False
  then have x: "0 < x" using assms(1) by simp
  define u :: rat where "u = 2 powi (exp2 x - int p + 1)"
  have u: "0 < u" by (simp add: u_def)
  have "u = 2 * (2 powi exp2 x / 2 ^ p)" by (simp add: u_def power_int_add power_int_diff)
  then have le: "u / 2 \<le> x / 2 ^ p" using exp2_bounds(1) [OF x] by (simp add: divide_right_mono)
  have "fl p x - x = (of_int (rne (x / u)) - x / u) * u"
    using x u by (simp add: fl_def fl_pos_def Let_def left_diff_distrib flip: u_def)
  then have "\<bar>fl p x - x\<bar> = \<bar>of_int (rne (x / u)) - x / u\<bar> * u" using u by (simp add: abs_mult)
  also have "\<dots> \<le> 1 / 2 * u" using u by (intro mult_right_mono rne_nearest) simp
  finally have "\<bar>fl p x - x\<bar> \<le> u / 2" by simp
  then show ?thesis using le by (rule order_trans)
qed (simp add: fl_def fl_pos_def)

text \<open>The \<open>double\<close> nearest to 0.15.\<close>

lemma double_015: "fl 53 (15 / 100) = 5404319552844595 / 36028797018963968"
  by code_simp

lemma fl_nonneg: "0 \<le> x \<Longrightarrow> 0 < p \<Longrightarrow> 0 \<le> fl p x"
  using fl_pos_binade(1) [of x p] by (cases "x = 0") (auto simp: fl_def fl_pos_def intro: order_trans [rotated])

lemma fl_mono:
  assumes "0 \<le> x" "x \<le> y" "0 < p"
  shows "fl p x \<le> fl p y"
proof (cases "x = 0")
  case True
  then show ?thesis using fl_nonneg [of y p] assms by (simp add: fl_def fl_pos_def)
next
  case False
  then have x: "0 < x" "0 < y" using assms by simp_all
  show ?thesis
  proof (cases "exp2 x = exp2 y")
    case True
    define u :: rat where "u = 2 powi (exp2 y - int p + 1)"
    have "0 < u" by (simp add: u_def)
    then have "rne (x / u) \<le> rne (y / u)" using assms(2) by (intro rne_mono) (simp add: divide_right_mono)
    then have "of_int (rne (x / u)) * u \<le> of_int (rne (y / u)) * u"
      using \<open>0 < u\<close> by (intro mult_right_mono) simp_all
    then show ?thesis using x True by (simp add: fl_def fl_pos_def u_def Let_def)
  next
    case False
    then have "exp2 x + 1 \<le> exp2 y" using exp2_mono [OF x(1) assms(2)] by simp
    then have "(2 :: rat) powi (exp2 x + 1) \<le> 2 powi exp2 y" by (intro power_int_increasing) simp_all
    then show ?thesis
      using fl_pos_binade(2) [OF x(1) assms(3)] fl_pos_binade(1) [OF x(2) assms(3)] x by (simp add: fl_def)
  qed
qed

text \<open>A fraction \<open>n / 2 ^ k\<close> whose numerator has up to \<open>p\<close> bits is exact.\<close>

lemma fl_exact:
  assumes "n \<le> 2 ^ p" "0 < p"
  shows "fl p (of_nat n / 2 ^ k) = of_nat n / 2 ^ k"
proof (cases "n = 0")
  case False
  define x :: rat where "x = of_nat n / 2 ^ k"
  have x: "0 < x" using False by (simp add: x_def)
  have "of_nat n \<le> (2 ^ p :: rat)" using assms(1) by (metis of_nat_le_iff of_nat_numeral of_nat_power)
  moreover have pk: "2 powi (int p - int k) = (2 ^ p / 2 ^ k :: rat)" by (simp add: power_int_diff)
  ultimately have le: "x \<le> 2 powi (int p - int k)" by (simp add: x_def divide_right_mono)
  have e: "exp2 x \<le> int p - int k"
  proof (rule ccontr)
    assume "\<not> exp2 x \<le> int p - int k"
    then have "(2 :: rat) powi (int p - int k + 1) \<le> 2 powi exp2 x" by (intro power_int_increasing) simp_all
    moreover have "(2 :: rat) powi (int p - int k + 1) = 2 * 2 powi (int p - int k)" by (simp add: power_int_add)
    moreover have "(0 :: rat) < 2 powi (int p - int k)" by simp
    ultimately show False using exp2_bounds(1) [OF x] le by linarith
  qed
  define u :: rat where "u = 2 powi (exp2 x - int p + 1)"
  have "\<exists>z. x = of_int z * u"
  proof (cases "exp2 x = int p - int k")
    case True
    then have "x = 2 powi (int p - int k)" using exp2_bounds(1) [OF x] le by simp
    moreover have "2 powi (int p - int k) = 2 ^ (p - 1) * u"
    proof -
      have i: "int p - int k = int (p - 1) + (1 - int k)" and e: "exp2 x - int p + 1 = 1 - int k"
        using True assms(2) by simp_all
      show ?thesis unfolding u_def e i by (subst power_int_add) (simp, simp only: power_int_of_nat)
    qed
    ultimately show ?thesis by (intro exI [of _ "2 ^ (p - 1)"]) simp
  next
    case False
    then have "\<exists>m. exp2 x - int p + 1 = - int k - int m" using e
      by (intro exI [of _ "nat (int p - int k - 1 - exp2 x)"]) simp
    then obtain m where "exp2 x - int p + 1 = - int k - int m" ..
    then have "u = 2 powi (- int k - int m)" by (simp only: u_def)
    then have "u = 1 / 2 ^ k / 2 ^ m" by (simp add: power_int_diff power_int_minus inverse_eq_divide)
    then show ?thesis by (intro exI [of _ "int n * 2 ^ m"]) (simp add: x_def)
  qed
  then obtain z where z: "x = of_int z * u" ..
  have "0 < u" by (simp add: u_def)
  then have "x / u = of_int z" using z by simp
  then have "fl_pos p x = of_int z * u" using x by (simp add: fl_pos_def Let_def flip: u_def)
  then have "fl_pos p x = x" by (simp only: flip: z)
  then have "fl p x = x" using x by (simp add: fl_def)
  then show ?thesis by (simp only: x_def)
qed (simp add: fl_def fl_pos_def)

lemma fl_of_nat: "n \<le> 2 ^ p \<Longrightarrow> 0 < p \<Longrightarrow> fl p (of_nat n) = of_nat n"
  using fl_exact [of n p 0] by simp

section \<open>The contract of a floating-point format\<close>

text \<open>
  What the bounds of the controllers use of their arithmetic: a rounding that is monotone on the
  non-negative numbers and exact on the integers up to \<open>2 ^ prec\<close>.
\<close>

locale rounding =
  fixes rnd :: "rat \<Rightarrow> rat" and prec :: nat
  assumes rnd_mono: "0 \<le> x \<Longrightarrow> x \<le> y \<Longrightarrow> rnd x \<le> rnd y"
    and rnd_exact: "n \<le> 2 ^ prec \<Longrightarrow> rnd (of_nat n / 2 ^ k) = of_nat n / 2 ^ k"
begin

lemma rnd_of_nat: "n \<le> 2 ^ prec \<Longrightarrow> rnd (of_nat n) = of_nat n"
  using rnd_exact [of n 0] by simp

lemma rnd_nonneg: "0 \<le> x \<Longrightarrow> 0 \<le> rnd x"
  using rnd_mono [of 0 x] rnd_of_nat [of 0] by simp

lemma rnd_le: "0 \<le> x \<Longrightarrow> x \<le> of_nat n / 2 ^ k \<Longrightarrow> n \<le> 2 ^ prec \<Longrightarrow> rnd x \<le> of_nat n / 2 ^ k"
  using rnd_mono [of x "of_nat n / 2 ^ k"] by (simp add: rnd_exact)

lemma rnd_ge: "of_nat n / 2 ^ k \<le> x \<Longrightarrow> n \<le> 2 ^ prec \<Longrightarrow> of_nat n / 2 ^ k \<le> rnd x"
  using rnd_mono [of "of_nat n / 2 ^ k" x] by (simp add: rnd_exact)

lemma rnd_le_nat: "0 \<le> x \<Longrightarrow> x \<le> of_nat n \<Longrightarrow> n \<le> 2 ^ prec \<Longrightarrow> rnd x \<le> of_nat n"
  using rnd_le [of x n 0] by simp

lemma rnd_ge_nat: "of_nat n \<le> x \<Longrightarrow> n \<le> 2 ^ prec \<Longrightarrow> of_nat n \<le> rnd x"
  using rnd_ge [of n 0 x] by simp

end

text \<open>The x87 extended format and the IEEE double format.\<close>

interpretation x87: rounding "fl 64" 64
  by unfold_locales (simp_all add: fl_mono fl_exact)

interpretation dbl: rounding "fl 53" 53
  by unfold_locales (simp_all add: fl_mono fl_exact)

section \<open>Conversions to integer types\<close>

text \<open>
  A conversion is undefined behaviour when the truncated value does not fit the type, which is the
  result \<open>None\<close>.
\<close>

definition to_u32 :: "rat \<Rightarrow> 32 word option" where
  "to_u32 x = (let n = trunc x in if 0 \<le> n \<and> n < 2 ^ 32 then Some (word_of_int n) else None)"

definition to_u64 :: "rat \<Rightarrow> 64 word option" where
  "to_u64 x = (let n = trunc x in if 0 \<le> n \<and> n < 2 ^ 64 then Some (word_of_int n) else None)"

definition to_long :: "rat \<Rightarrow> int option" where
  "to_long x = (let n = trunc x in if - (2 ^ 63) \<le> n \<and> n < 2 ^ 63 then Some n else None)"

lemma trunc_bounds: "of_nat m \<le> x \<Longrightarrow> int m \<le> trunc x" "0 \<le> x \<Longrightarrow> x \<le> of_nat n \<Longrightarrow> trunc x \<le> int n"
  using floor_mono [of x "of_nat n"] by (auto simp: trunc_def le_floor_iff)

lemma to_u32_defined:
  assumes "of_nat m \<le> x" "x \<le> of_nat n" "n < 2 ^ 32"
  shows "\<exists>W. to_u32 x = Some W \<and> m \<le> unat W \<and> unat W \<le> n"
proof -
  have x: "0 \<le> x" using assms(1) by (rule order_trans [rotated]) simp
  have t: "int m \<le> trunc x" "trunc x \<le> int n" using trunc_bounds assms x by blast+
  have "trunc x < 2 ^ 32" using t(2) assms(3) by simp
  moreover have "unat (word_of_int (trunc x) :: 32 word) = nat (trunc x)"
    using t calculation by (simp add: unat_eq_nat_uint uint_word_of_int_eq take_bit_int_eq_self)
  ultimately show ?thesis using t by (simp add: to_u32_def Let_def) linarith
qed

lemma to_u32_below:
  assumes "to_u32 x = Some W" "0 \<le> x" "x < of_nat n"
  shows "unat W < n"
proof -
  have W: "W = word_of_int (trunc x)" "0 \<le> trunc x" "trunc x < 2 ^ 32"
    using assms(1) by (simp_all add: to_u32_def Let_def split: if_splits)
  have "trunc x < int n" using assms(2,3) by (simp add: trunc_def floor_less_iff)
  moreover have "unat W = nat (trunc x)"
    using W by (simp add: unat_eq_nat_uint uint_word_of_int_eq take_bit_int_eq_self)
  ultimately show ?thesis using W(2) by linarith
qed

lemma to_u64_of_nat: "n < 2 ^ 64 \<Longrightarrow> to_u64 (of_nat n) = Some (of_nat n)"
proof -
  assume "n < 2 ^ 64"
  then have "int n < int (2 ^ 64)" by (simp only: of_nat_less_iff)
  then show ?thesis by (simp add: to_u64_def trunc_def)
qed

lemma to_long_defined: "0 \<le> x \<Longrightarrow> x \<le> of_nat n \<Longrightarrow> n < 2 ^ 63 \<Longrightarrow> to_long x = Some \<lfloor>x\<rfloor>"
proof -
  assume x: "0 \<le> x" "x \<le> of_nat n" and n: "n < 2 ^ 63"
  have "int n < int (2 ^ 63)" using n by (simp only: of_nat_less_iff)
  then show ?thesis using trunc_bounds(2) [OF x] x by (simp add: to_long_def trunc_def Let_def)
qed

end
