(* ===== verification/Cc_Sender.thy ===== *)
theory Cc_Sender
  imports Cc_Float
begin

text \<open>
  The datagram sender of the congestion-control assignment (\<open>Assign_3/sender.cc\<close>) and the interface
  it links against (\<open>Assign_3/controller.hh\<close>). The class \<open>Controller\<close> is a record of its public
  operations over its own state, so that the sender runs with either of the two implementations; what
  the sender relies on is the locale \<open>congestion_controller\<close>. The sockets, the contest message and the
  poller are code outside the repository: a datagram given to \<open>socket_.send\<close> is appended to a log, a
  received message is the record of what the sender reads of it, and what the poller reports is a list
  of events, the argument of the loop.
\<close>

section \<open>The interface of a controller\<close>

type_synonym u64 = "64 word"

record 'c controller_class =
  new_controller :: "bool \<Rightarrow> rat \<Rightarrow> rat \<Rightarrow> 'c option"
  window_size :: "'c \<Rightarrow> u32 option"
  datagram_was_sent :: "u64 \<Rightarrow> u64 \<Rightarrow> bool \<Rightarrow> 'c \<Rightarrow> 'c"
  ack_received :: "u64 \<Rightarrow> u64 \<Rightarrow> u64 \<Rightarrow> u64 \<Rightarrow> 'c \<Rightarrow> 'c option"
  timeout_ms :: "'c \<Rightarrow> u32 option"

text \<open>\<open>None\<close> is undefined behaviour: a number converted to an integer type that cannot hold it.\<close>

datatype sender_error = Undefined | Runtime_error string

section \<open>The sender\<close>

record contest_message =
  is_ack :: bool
  ack_sequence_number :: u64
  ack_send_timestamp :: u64
  ack_recv_timestamp :: u64

record datagram =
  dg_sequence_number :: u64
  dg_send_timestamp :: u64
  dg_payload :: string

record 'c sender =
  controller :: 'c
  sequence_number :: u64
  next_ack_expected :: u64
  sent :: "datagram list"

definition new_sender :: "'c controller_class \<Rightarrow> bool \<Rightarrow> sender_error + 'c sender" where
  "new_sender C debug = (case new_controller C debug 10 25 of
     None \<Rightarrow> Inl Undefined
   | Some c \<Rightarrow> Inr \<lparr>controller = c, sequence_number = 0, next_ack_expected = 0, sent = []\<rparr>)"

definition got_ack :: "'c controller_class \<Rightarrow> u64 \<Rightarrow> contest_message \<Rightarrow> 'c sender \<Rightarrow> sender_error + 'c sender" where
  "got_ack C timestamp ack s =
     (if \<not> is_ack ack then Inl (Runtime_error ''sender got something other than an ack from the receiver'')
      else let s = s\<lparr>next_ack_expected := max (next_ack_expected s) (ack_sequence_number ack + 1)\<rparr> in
        case ack_received C (ack_sequence_number ack) (ack_send_timestamp ack) (ack_recv_timestamp ack)
               timestamp (controller s) of
          None \<Rightarrow> Inl Undefined
        | Some c \<Rightarrow> Inr (s\<lparr>controller := c\<rparr>))"

definition dummy_payload :: string where
  "dummy_payload = replicate 1424 CHR ''x''"

text \<open>\<open>now\<close> is the time that \<open>set_send_timestamp\<close> stamps on the message.\<close>

definition send_datagram :: "'c controller_class \<Rightarrow> bool \<Rightarrow> u64 \<Rightarrow> 'c sender \<Rightarrow> 'c sender" where
  "send_datagram C after_timeout now s =
     (let cm = \<lparr>dg_sequence_number = sequence_number s, dg_send_timestamp = now, dg_payload = dummy_payload\<rparr> in
      s\<lparr>sequence_number := sequence_number s + 1, sent := sent s @ [cm],
        controller := datagram_was_sent C (dg_sequence_number cm) (dg_send_timestamp cm) after_timeout (controller s)\<rparr>)"

definition window_is_open :: "'c controller_class \<Rightarrow> 'c sender \<Rightarrow> sender_error + bool" where
  "window_is_open C s = (case window_size C (controller s) of
     None \<Rightarrow> Inl Undefined
   | Some w \<Rightarrow> Inr (sequence_number s - next_ack_expected s < ucast w))"

text \<open>
  The callback of the first rule, \<open>while (window_is_open()) send_datagram(false)\<close>. Nothing in its text
  bounds the loop, so it is a partial function: \<open>None\<close> is a callback that does not return. \<open>clk\<close> gives
  the time at which a sequence number is sent.
\<close>

partial_function (option) close_window ::
  "'c controller_class \<Rightarrow> (u64 \<Rightarrow> u64) \<Rightarrow> 'c sender \<Rightarrow> (sender_error + 'c sender) option" where
  "close_window C clk s = (case window_is_open C s of
     Inl e \<Rightarrow> Some (Inl e)
   | Inr b \<Rightarrow> if b then close_window C clk (send_datagram C False (clk (sequence_number s)) s) else Some (Inr s))"

text \<open>What \<open>poller.poll\<close> reports: the socket can take data, a datagram has come, nothing happened in
  time, or the poller gives up.\<close>

datatype poll_event =
    Writable "u64 \<Rightarrow> u64"
  | Received u64 contest_message
  | Timed_out u64
  | Poll_exit int

definition poll_step ::
  "'c controller_class \<Rightarrow> poll_event \<Rightarrow> 'c sender \<Rightarrow> (sender_error + int option \<times> 'c sender) option" where
  "poll_step C e s = (case timeout_ms C (controller s) of
     None \<Rightarrow> Some (Inl Undefined)
   | Some _ \<Rightarrow> (case e of
       Writable clk \<Rightarrow> (case window_is_open C s of
           Inl err \<Rightarrow> Some (Inl err)
         | Inr b \<Rightarrow> if b then map_option (map_sum id (Pair None)) (close_window C clk s)
             else Some (Inr (None, s)))
     | Received timestamp ack \<Rightarrow> Some (map_sum id (Pair None) (got_ack C timestamp ack s))
     | Timed_out now \<Rightarrow> Some (Inr (None, send_datagram C True now s))
     | Poll_exit status \<Rightarrow> Some (Inr (Some status, s))))"

primrec loop ::
  "'c controller_class \<Rightarrow> poll_event list \<Rightarrow> 'c sender \<Rightarrow> (sender_error + int option \<times> 'c sender) option" where
  "loop C [] s = Some (Inr (None, s))"
| "loop C (e # es) s = (case poll_step C e s of
     Some (Inr (None, s')) \<Rightarrow> loop C es s'
   | r \<Rightarrow> r)"

text \<open>The command line: \<open>HOST PORT [debug]\<close>.\<close>

datatype 'r sender_exit = Abort | Usage int | Ran 'r

definition sender_main ::
  "'c controller_class \<Rightarrow> string list \<Rightarrow> poll_event list
    \<Rightarrow> (sender_error + int option \<times> 'c sender) option sender_exit" where
  "sender_main C argv es = (let argc = length argv; run = (\<lambda>debug. Ran (case new_sender C debug of
       Inl e \<Rightarrow> Some (Inl e)
     | Inr s \<Rightarrow> loop C es s)) in
     if argc < 1 then Abort
     else if argc = 4 \<and> argv ! 3 = ''debug'' then run True
     else if argc = 3 then run False
     else Usage 1)"

section \<open>Facts of the operations\<close>

lemmas sender_defs = new_sender_def got_ack_def send_datagram_def window_is_open_def

lemma send_datagram_fields [simp]:
  "sequence_number (send_datagram C b now s) = sequence_number s + 1"
  "next_ack_expected (send_datagram C b now s) = next_ack_expected s"
  "sent (send_datagram C b now s) = sent s @ [\<lparr>dg_sequence_number = sequence_number s, dg_send_timestamp = now,
     dg_payload = dummy_payload\<rparr>]"
  "controller (send_datagram C b now s) = datagram_was_sent C (sequence_number s) now b (controller s)"
  by (simp_all add: send_datagram_def Let_def)

text \<open>The datagrams in flight, as the sender counts them: the difference wraps.\<close>

definition outstanding :: "'c sender \<Rightarrow> u64" where
  "outstanding s = sequence_number s - next_ack_expected s"

lemma unat_ucast_u32_u64 [simp]: "unat (ucast (w :: u32) :: u64) = unat w"
  using unat_u32_less [of w] by (simp add: unsigned_ucast_eq take_bit_eq_mod)

lemma window_open_iff:
  "window_size C (controller s) = Some w \<Longrightarrow>
   window_is_open C s = Inr (unat (outstanding s) < unat w)"
  by (simp add: window_is_open_def outstanding_def word_less_nat_alt)

section \<open>The contract between sender and controller\<close>

text \<open>
  \<open>legal n c\<close> is the invariant of a controller after \<open>n\<close> acks. Up to \<open>limit\<close> acks the window has a
  size, it is never zero and it is at most \<open>bound n\<close>; a sent datagram does not change it.
\<close>

locale congestion_controller =
  fixes C :: "'c controller_class" and legal :: "nat \<Rightarrow> 'c \<Rightarrow> bool" and bound :: "nat \<Rightarrow> nat" and limit :: nat
  assumes ctor: "\<exists>c. new_controller C debug 10 25 = Some c \<and> legal 0 c"
    and size_ok: "legal n c \<Longrightarrow> n \<le> limit \<Longrightarrow> \<exists>w. window_size C c = Some w \<and> 0 < unat w \<and> unat w \<le> bound n"
    and sent_legal [simp]: "legal n (datagram_was_sent C a t b c) = legal n c"
    and sent_size [simp]: "window_size C (datagram_was_sent C a t b c) = window_size C c"
    and ack_ok: "legal n c \<Longrightarrow> n < limit \<Longrightarrow> \<exists>c'. ack_received C a ts tr t c = Some c' \<and> legal (Suc n) c'"
    and timer_ok: "\<exists>t. timeout_ms C c = Some t"

text \<open>The datagrams that the loop of the first rule sends: \<open>k\<close> consecutive sequence numbers.\<close>

definition burst :: "(u64 \<Rightarrow> u64) \<Rightarrow> u64 \<Rightarrow> nat \<Rightarrow> datagram list" where
  "burst clk a k = map (\<lambda>i. \<lparr>dg_sequence_number = a + of_nat i, dg_send_timestamp = clk (a + of_nat i),
     dg_payload = dummy_payload\<rparr>) [0..<k]"

lemma burst_Suc: "burst clk a (Suc k) = \<lparr>dg_sequence_number = a, dg_send_timestamp = clk a,
    dg_payload = dummy_payload\<rparr> # burst clk (a + 1) k"
  by (simp add: burst_def upt_conv_Cons map_Suc_upt [symmetric] o_def add_ac del: upt_Suc map_Suc_upt)

lemma outstanding_send [simp]: "outstanding (send_datagram C b now s) = outstanding s + 1"
  by (simp add: outstanding_def)

lemma unat_outstanding_send:
  assumes "unat (outstanding s) < unat (w :: u32)"
  shows "unat (outstanding s + 1) = Suc (unat (outstanding s))"
proof -
  have "Suc (unat (outstanding s)) < 2 ^ 64" using assms unat_u32_less [of w] by simp
  then show ?thesis by (subst unat_add_lem [THEN iffD1]) simp_all
qed

section \<open>Runs of the sender\<close>

text \<open>
  The runs against a receiver that acks only what was sent: the states that the loop reaches, with the
  number of acks taken so far. Acks may be lost, repeated and out of order.
\<close>

definition acks :: "poll_event \<Rightarrow> nat" where
  "acks e = (case e of Received t m \<Rightarrow> 1 | _ \<Rightarrow> 0)"

definition honest :: "poll_event \<Rightarrow> 'c sender \<Rightarrow> bool" where
  "honest e s = (case e of
     Received t m \<Rightarrow> is_ack m \<and> ack_sequence_number m \<in> dg_sequence_number ` set (sent s)
   | _ \<Rightarrow> True)"

inductive runs :: "'c controller_class \<Rightarrow> nat \<Rightarrow> 'c sender \<Rightarrow> bool" for C where
  start: "new_sender C debug = Inr s \<Longrightarrow> runs C 0 s"
| step: "runs C n s \<Longrightarrow> honest e s \<Longrightarrow> poll_step C e s = Some (Inr (None, s')) \<Longrightarrow> runs C (n + acks e) s'"

text \<open>The events of a list are honest at the state in which the loop meets them.\<close>

primrec honest_run :: "'c controller_class \<Rightarrow> poll_event list \<Rightarrow> 'c sender \<Rightarrow> bool" where
  "honest_run C [] s = True"
| "honest_run C (e # es) s = (honest e s \<and> (case poll_step C e s of
     Some (Inr (None, s')) \<Rightarrow> honest_run C es s'
   | _ \<Rightarrow> True))"

text \<open>The sequence numbers are consecutive from 0, and nothing unsent counts as acknowledged.\<close>

definition numbered :: "'c sender \<Rightarrow> bool" where
  "numbered s \<longleftrightarrow> sequence_number s = of_nat (length (sent s)) \<and>
     map dg_sequence_number (sent s) = map of_nat [0..<length (sent s)] \<and>
     unat (next_ack_expected s) \<le> length (sent s)"

lemma numbered_send: "numbered s \<Longrightarrow> numbered (send_datagram C b now s)"
  by (simp add: numbered_def add.commute)

lemma numbered_burst:
  assumes "numbered s" "next_ack_expected s' = next_ack_expected s" "sequence_number s' = sequence_number s + of_nat k"
    "sent s' = sent s @ burst clk (sequence_number s) k"
  shows "numbered s'"
proof -
  have "map dg_sequence_number (burst clk (of_nat m) k) = map of_nat [m..<m + k]" for m
    by (simp add: burst_def o_def map_add_upt [symmetric] add.commute del: map_add_upt)
  then show ?thesis using assms by (simp add: numbered_def burst_def upt_add_eq_append [of 0] flip: of_nat_add)
qed

lemma numbered_ack:
  assumes "numbered s" "a \<in> dg_sequence_number ` set (sent s)"
  shows "numbered (s\<lparr>next_ack_expected := max (next_ack_expected s) (a + 1), controller := c\<rparr>)"
proof -
  have "a \<in> set (map of_nat [0..<length (sent s)])" using assms by (simp only: numbered_def flip: set_map)
  then obtain i where i: "a = of_nat i" "i < length (sent s)" by auto
  have "a + 1 = of_nat (Suc i)" using i(1) by (simp add: add.commute)
  then have "unat (a + 1) \<le> Suc i" by (simp only: unat_of_nat mod_less_eq_dividend)
  then show ?thesis using assms(1) i(2) by (simp add: numbered_def max_def)
qed

lemma outstanding_numbered:
  assumes "numbered s" "length (sent s) < 2 ^ 64"
  shows "unat (outstanding s) = length (sent s) - unat (next_ack_expected s)"
proof -
  have n: "unat (sequence_number s) = length (sent s)"
    using assms by (simp add: numbered_def unat_of_nat)
  then have "next_ack_expected s \<le> sequence_number s" using assms(1) by (simp add: numbered_def word_le_nat_alt)
  then show ?thesis by (simp add: outstanding_def unat_sub n)
qed

context congestion_controller
begin

lemma close_window_result:
  assumes "window_size C (controller s) = Some w"
  shows "\<exists>s'. close_window C clk s = Some (Inr s') \<and> window_is_open C s' = Inr False
    \<and> (\<forall>n. legal n (controller s') = legal n (controller s))
    \<and> next_ack_expected s' = next_ack_expected s
    \<and> sequence_number s' = sequence_number s + of_nat (unat w - unat (outstanding s))
    \<and> sent s' = sent s @ burst clk (sequence_number s) (unat w - unat (outstanding s))"
  using assms
proof (induction "unat w - unat (outstanding s)" arbitrary: s)
  case 0
  then show ?case
    by (subst close_window.simps) (simp add: window_open_iff burst_def)
next
  case (Suc k)
  let ?t = "send_datagram C False (clk (sequence_number s)) s"
  have lt: "unat (outstanding s) < unat w" using Suc.hyps(2) by simp
  then have k: "k = unat w - unat (outstanding ?t)" using Suc.hyps(2) unat_outstanding_send [of s w] by simp
  have open_: "close_window C clk s = close_window C clk ?t"
    using lt Suc.prems by (subst close_window.simps) (simp add: window_open_iff)
  show ?case
    using Suc.hyps(1) [OF k, folded k] Suc.prems unfolding open_ Suc.hyps(2) [symmetric]
    by (simp add: burst_Suc add_ac)
qed

text \<open>In a run within the limit, every event is handled: the loop of the first rule ends, no
  conversion is undefined and nothing is thrown.\<close>

lemma poll_step_ok:
  assumes "legal n (controller s)" "numbered s" "honest e s" "n + acks e \<le> limit"
  shows "\<exists>r s'. poll_step C e s = Some (Inr (r, s')) \<and> legal (n + acks e) (controller s') \<and> numbered s'"
proof -
  obtain t where t: "timeout_ms C (controller s) = Some t" using timer_ok by blast
  show ?thesis
  proof (cases e)
    case (Writable clk)
    obtain w where w: "window_size C (controller s) = Some w" using size_ok [OF assms(1)] assms(4) by force
    obtain s' where s': "close_window C clk s = Some (Inr s')" "\<forall>n. legal n (controller s') = legal n (controller s)"
      "next_ack_expected s' = next_ack_expected s"
      "sequence_number s' = sequence_number s + of_nat (unat w - unat (outstanding s))"
      "sent s' = sent s @ burst clk (sequence_number s) (unat w - unat (outstanding s))"
      using close_window_result [OF w] by blast
    have "numbered s'" by (rule numbered_burst [OF assms(2) s'(3-5)])
    then show ?thesis using Writable assms s'(1,2) by (simp add: poll_step_def t window_open_iff [OF w] acks_def)
  next
    case (Received ts m)
    have l: "n < limit" using assms(4) Received by (simp add: acks_def)
    obtain c' where c': "ack_received C (ack_sequence_number m) (ack_send_timestamp m) (ack_recv_timestamp m) ts
        (controller s) = Some c'" "legal (Suc n) c'"
      using ack_ok [OF assms(1) l] by blast
    have "is_ack m" "ack_sequence_number m \<in> dg_sequence_number ` set (sent s)"
      using assms(3) by (simp_all add: honest_def Received)
    then show ?thesis using numbered_ack [OF assms(2)] c'
      by (simp add: poll_step_def t Received got_ack_def Let_def acks_def)
  qed (use assms in \<open>simp_all add: poll_step_def t acks_def numbered_send\<close>)
qed

lemma runs_inv:
  assumes "runs C n s" "n \<le> limit"
  shows "legal n (controller s) \<and> numbered s"
  using assms
proof (induction rule: runs.induct)
  case (start debug s)
  then show ?case using ctor [of debug] by (auto simp: new_sender_def numbered_def)
next
  case (step n s e s')
  then show ?case using poll_step_ok [of n s e] by simp
qed

lemma runs_handled:
  assumes "runs C n s" "honest e s" "n + acks e \<le> limit"
  shows "\<exists>r s'. poll_step C e s = Some (Inr (r, s'))"
  using runs_inv [OF assms(1)] assms poll_step_ok [of n s e] by fastforce

lemma runs_size:
  assumes "runs C n s" "n \<le> limit"
  shows "\<exists>w. window_size C (controller s) = Some w \<and> 0 < unat w \<and> unat w \<le> bound n"
  using runs_inv [OF assms] size_ok assms(2) by blast

text \<open>After the first rule has run, the window is full: as many datagrams are in flight as it allows,
  unless timeouts had already sent more.\<close>

lemma runs_fill:
  assumes "runs C n s" "n \<le> limit" "length (sent s) < 2 ^ 64"
  shows "\<exists>w s'. window_size C (controller s) = Some w \<and> 0 < unat w \<and> unat w \<le> bound n
    \<and> close_window C clk s = Some (Inr s') \<and> window_is_open C s' = Inr False
    \<and> next_ack_expected s' = next_ack_expected s
    \<and> sent s' = sent s @ burst clk (sequence_number s) (unat w - (length (sent s) - unat (next_ack_expected s)))"
proof -
  obtain w where w: "window_size C (controller s) = Some w" "0 < unat w" "unat w \<le> bound n"
    using runs_size assms(1,2) by blast
  have o': "unat (outstanding s) = length (sent s) - unat (next_ack_expected s)"
    using outstanding_numbered runs_inv [OF assms(1,2)] assms(3) by blast
  show ?thesis using close_window_result [OF w(1), of clk] w unfolding o' by blast
qed

text \<open>So the loop and the whole program run through any such list of events.\<close>

lemma loop_ok:
  assumes "legal n (controller s)" "numbered s" "honest_run C es s" "n + sum_list (map acks es) \<le> limit"
  shows "\<exists>r s'. loop C es s = Some (Inr (r, s')) \<and> numbered s'"
  using assms
proof (induction es arbitrary: n s)
  case (Cons e es)
  obtain r s' where s': "poll_step C e s = Some (Inr (r, s'))" "legal (n + acks e) (controller s')" "numbered s'"
    using poll_step_ok [of n s e] Cons.prems by auto
  then show ?case using Cons.IH [of "n + acks e" s'] Cons.prems by (cases r) simp_all
qed simp

lemma new_sender_ok: "\<exists>s. new_sender C debug = Inr s \<and> legal 0 (controller s) \<and> numbered s"
  using ctor [of debug] by (auto simp: new_sender_def numbered_def)

lemma main_ok:
  assumes "new_sender C False = Inr s" "honest_run C es s" "sum_list (map acks es) \<le> limit"
  shows "\<exists>r s'. sender_main C [prog, host, port] es = Ran (Some (Inr (r, s'))) \<and> numbered s'"
  using loop_ok [of 0 s es] new_sender_ok [of False] assms by (auto simp: sender_main_def)

end

text \<open>An ack for a datagram that was never sent, the rest of the state being sound.\<close>

lemma bogus_ack_closes:
  assumes "next_ack_expected s \<le> sequence_number s" "sequence_number s \<le> a" "a < 2 ^ 63"
    "next_ack_expected s' = max (next_ack_expected s) (a + 1)" "sequence_number s' = sequence_number s"
    "window_size C (controller s') = Some w"
  shows "window_is_open C s' = Inr False" "close_window C clk s' = Some (Inr s')"
proof -
  have a: "unat a < 2 ^ 63" using assms(3) by (simp add: word_less_nat_alt)
  have a1: "unat (a + 1) = Suc (unat a)" using a by (subst unat_add_lem [THEN iffD1]) simp_all
  have le: "unat (sequence_number s) \<le> unat a" "unat (next_ack_expected s) \<le> unat a"
    using assms(1,2) by (simp_all add: word_le_nat_alt)
  then have n: "next_ack_expected s' = a + 1"
    using assms(4) a1 by (simp add: max_def word_le_nat_alt)
  have "unat (outstanding s') = unat (sequence_number s) + 2 ^ 64 - Suc (unat a)"
    using le(1) a1 by (simp add: outstanding_def n assms(5) unat_sub_if')
  then have "\<not> unat (outstanding s') < unat w" using a unat_u32_less [of w] by simp
  then show o': "window_is_open C s' = Inr False" using window_open_iff [OF assms(6)] by simp
  show "close_window C clk s' = Some (Inr s')" by (subst close_window.simps) (simp add: o')
qed

end
