(* ===== verification/Cc_Aimd.thy ===== *)
theory Cc_Aimd
  imports Cc_Sender
begin

text \<open>
  The AIMD congestion controller (\<open>Assign_3/controller_AIMD_best.cc\<close>): the window in datagrams, a
  \<open>long double\<close>, grows with every ack that comes in time and is cut on a late one. Arithmetic on the
  window is rounded to 64 bits (\<open>fl 64\<close>). It provides the interface of \<open>Cc_Sender\<close>.
\<close>

section \<open>State and operations\<close>

text \<open>The members of the class and the global \<open>previous_RTT\<close>.\<close>

record aimd =
  aimd_debug :: bool
  this_window :: rat
  ssthresh :: int
  previous_RTT :: rat

definition Controller_aimd :: "bool \<Rightarrow> rat \<Rightarrow> rat \<Rightarrow> aimd option" where
  "Controller_aimd debug window thresh = (case to_long thresh of
     None \<Rightarrow> None
   | Some t \<Rightarrow> Some \<lparr>aimd_debug = debug, this_window = window, ssthresh = t, previous_RTT = 0\<rparr>)"

definition aimd_window_size :: "aimd \<Rightarrow> u32 option" where
  "aimd_window_size c = to_u32 (this_window c)"

definition aimd_datagram_was_sent :: "u64 \<Rightarrow> u64 \<Rightarrow> bool \<Rightarrow> aimd \<Rightarrow> aimd" where
  "aimd_datagram_was_sent seq_number send_time after_timeout c = c"

definition aimd_set_window_size :: "rat \<Rightarrow> aimd \<Rightarrow> aimd" where
  "aimd_set_window_size window c = c\<lparr>this_window := window\<rparr>"

definition aimd_slow_start :: "aimd \<Rightarrow> aimd" where
  "aimd_slow_start c = c\<lparr>this_window := fl 64 (this_window c + 1)\<rparr>"

definition aimd_next_time_out :: rat where
  "aimd_next_time_out = 105"

definition aimd_timeout_ms :: "aimd \<Rightarrow> u32 option" where
  "aimd_timeout_ms c = to_u32 aimd_next_time_out"

text \<open>The cut on a late ack; half the window plus one becomes the threshold, an integer.\<close>

definition aimd_cut :: "aimd \<Rightarrow> aimd option" where
  "aimd_cut c = (case to_long (fl 64 (fl 64 (this_window c / 2) + 1)) of
     None \<Rightarrow> None
   | Some t \<Rightarrow> Some (c\<lparr>ssthresh := t, this_window := 3\<rparr>))"

definition aimd_grow :: "aimd \<Rightarrow> aimd" where
  "aimd_grow c = (if this_window c \<le> of_int (ssthresh c)
     then c\<lparr>this_window := fl 64 (this_window c + 1)\<rparr>
     else c\<lparr>this_window := fl 64 (this_window c + fl 64 (2 / this_window c))\<rparr>)"

text \<open>
  The message printed at the end calls \<open>window_size()\<close>, whose conversion to \<open>unsigned int\<close> must be
  defined. \<open>current_RTT\<close> is an \<open>unsigned int\<close>: the low 32 bits of the difference of the two times.
\<close>

definition aimd_ack_received :: "u64 \<Rightarrow> u64 \<Rightarrow> u64 \<Rightarrow> u64 \<Rightarrow> aimd \<Rightarrow> aimd option" where
  "aimd_ack_received sequence_number_acked send_timestamp_acked recv_timestamp_acked timestamp_ack_received c =
     (let current_RTT = (ucast (timestamp_ack_received - send_timestamp_acked) :: u32);
          c = c\<lparr>previous_RTT := of_nat (unat current_RTT)\<rparr>
      in case aimd_timeout_ms c of
        None \<Rightarrow> None
      | Some t \<Rightarrow> (case (if current_RTT \<le> t then Some (aimd_grow c) else aimd_cut c) of
          None \<Rightarrow> None
        | Some c \<Rightarrow>
            let c = (if this_window c < 1 then c\<lparr>this_window := 1\<rparr> else c)
            in case aimd_window_size c of None \<Rightarrow> None | Some w \<Rightarrow> Some c))"

definition aimd_class :: "aimd controller_class" where
  "aimd_class = \<lparr>new_controller = Controller_aimd, window_size = aimd_window_size,
     datagram_was_sent = aimd_datagram_was_sent, ack_received = aimd_ack_received,
     timeout_ms = aimd_timeout_ms\<rparr>"

section \<open>The window stays between 3 and 10 plus the number of acks\<close>

definition aimd_ok :: "nat \<Rightarrow> aimd \<Rightarrow> bool" where
  "aimd_ok n c \<longleftrightarrow> 3 \<le> this_window c \<and> this_window c \<le> of_nat (10 + n)"

definition aimd_limit :: nat where
  "aimd_limit = 2 ^ 32 - 11"

lemma aimd_timeout [simp]: "aimd_timeout_ms c = Some 105"
  by (simp add: aimd_timeout_ms_def aimd_next_time_out_def to_u32_def trunc_def)

lemma aimd_window_defined:
  assumes "aimd_ok n c" "n \<le> aimd_limit"
  shows "\<exists>w. aimd_window_size c = Some w \<and> 3 \<le> unat w \<and> unat w \<le> 10 + n"
  unfolding aimd_window_size_def
  by (rule to_u32_defined) (use assms in \<open>simp_all add: aimd_ok_def aimd_limit_def\<close>)

lemma aimd_grow_ok:
  assumes "aimd_ok n c" "n < aimd_limit"
  shows "aimd_ok (Suc n) (aimd_grow c)"
proof -
  have w: "3 \<le> this_window c" "this_window c \<le> of_nat (10 + n)" using assms(1) by (simp_all add: aimd_ok_def)
  have n: "11 + n \<le> 2 ^ 64" using assms(2) by (simp add: aimd_limit_def)
  have d: "0 \<le> fl 64 (2 / this_window c)" "fl 64 (2 / this_window c) \<le> 1"
    using w x87.rnd_nonneg [of "2 / this_window c"] x87.rnd_le_nat [of "2 / this_window c" 1] by simp_all
  have g: "3 \<le> fl 64 (this_window c + e) \<and> fl 64 (this_window c + e) \<le> of_nat (11 + n)" if "0 \<le> e" "e \<le> 1" for e
    using x87.rnd_ge_nat [of 3 "this_window c + e"] x87.rnd_le_nat [of "this_window c + e" "11 + n"]
      w n that by simp
  show ?thesis
    using g [of 1] g [OF d] by (auto simp: aimd_ok_def aimd_grow_def)
qed

lemma aimd_cut_ok:
  assumes "aimd_ok n c" "n < aimd_limit"
  shows "\<exists>c'. aimd_cut c = Some c' \<and> this_window c' = 3 \<and> ssthresh c' = \<lfloor>fl 64 (fl 64 (this_window c / 2) + 1)\<rfloor>"
proof -
  have w: "3 \<le> this_window c" "this_window c \<le> of_nat (10 + n)" using assms(1) by (simp_all add: aimd_ok_def)
  have n: "11 + n < 2 ^ 32" using assms(2) by (simp add: aimd_limit_def)
  have h: "0 \<le> fl 64 (this_window c / 2)" "fl 64 (this_window c / 2) \<le> of_nat (10 + n)"
    using w n x87.rnd_nonneg [of "this_window c / 2"] x87.rnd_le_nat [of "this_window c / 2" "10 + n"] by simp_all
  have "0 \<le> fl 64 (fl 64 (this_window c / 2) + 1)" "fl 64 (fl 64 (this_window c / 2) + 1) \<le> of_nat (11 + n)"
    using h n x87.rnd_nonneg [of "fl 64 (this_window c / 2) + 1"]
      x87.rnd_le_nat [of "fl 64 (this_window c / 2) + 1" "11 + n"] by simp_all
  then have "to_long (fl 64 (fl 64 (this_window c / 2) + 1)) = Some \<lfloor>fl 64 (fl 64 (this_window c / 2) + 1)\<rfloor>"
    by (rule to_long_defined) (use n in simp)
  then show ?thesis by (simp add: aimd_cut_def)
qed

lemma aimd_ok_RTT [simp]: "aimd_ok n (c\<lparr>previous_RTT := r\<rparr>) = aimd_ok n c"
  by (simp add: aimd_ok_def)

lemma aimd_ack_cases:
  assumes "d = c\<lparr>previous_RTT := of_nat (unat (ucast (t - ts) :: u32))\<rparr>"
    and "(if (ucast (t - ts) :: u32) \<le> 105 then Some (aimd_grow d) else aimd_cut d) = Some c'"
    and "aimd_ok (Suc n) c'" "Suc n \<le> aimd_limit"
  shows "aimd_ack_received a ts tr t c = Some c'"
proof -
  have "\<not> this_window c' < 1" using assms(3) by (simp add: aimd_ok_def)
  moreover obtain w where "aimd_window_size c' = Some w" using aimd_window_defined [OF assms(3,4)] by blast
  ultimately show ?thesis
    unfolding aimd_ack_received_def Let_def assms(1) [symmetric] aimd_timeout option.case assms(2) by simp
qed

lemma aimd_ack_in_time:
  assumes "aimd_ok n c" "n < aimd_limit" "(ucast (t - ts) :: u32) \<le> 105"
    "d = c\<lparr>previous_RTT := of_nat (unat (ucast (t - ts) :: u32))\<rparr>"
  shows "aimd_ack_received a ts tr t c = Some (aimd_grow d)" "aimd_ok (Suc n) (aimd_grow d)"
proof -
  show ok: "aimd_ok (Suc n) (aimd_grow d)" using aimd_grow_ok [of n d] assms by simp
  show "aimd_ack_received a ts tr t c = Some (aimd_grow d)"
    by (rule aimd_ack_cases [OF assms(4) _ ok]) (use assms in simp_all)
qed

lemma aimd_ack_late:
  assumes "aimd_ok n c" "n < aimd_limit" "105 < (ucast (t - ts) :: u32)"
  shows "\<exists>c'. aimd_ack_received a ts tr t c = Some c' \<and> aimd_ok (Suc n) c' \<and> this_window c' = 3
    \<and> ssthresh c' = \<lfloor>fl 64 (fl 64 (this_window c / 2) + 1)\<rfloor>"
proof -
  define d where "d = c\<lparr>previous_RTT := of_nat (unat (ucast (t - ts) :: u32))\<rparr>"
  have "aimd_ok n d" "this_window d = this_window c" using assms(1) by (simp_all add: d_def)
  then obtain c' where c': "aimd_cut d = Some c'" "this_window c' = 3"
    "ssthresh c' = \<lfloor>fl 64 (fl 64 (this_window c / 2) + 1)\<rfloor>"
    using aimd_cut_ok [of n d] assms(2) by auto
  have ok: "aimd_ok (Suc n) c'" using c'(2) by (simp add: aimd_ok_def)
  have "aimd_ack_received a ts tr t c = Some c'"
    by (rule aimd_ack_cases [OF d_def _ ok]) (use assms c' in simp_all)
  then show ?thesis using c' ok by blast
qed

lemma aimd_ack_ok:
  assumes "aimd_ok n c" "n < aimd_limit"
  shows "\<exists>c'. aimd_ack_received a ts tr t c = Some c' \<and> aimd_ok (Suc n) c'"
proof (cases "(ucast (t - ts) :: u32) \<le> 105")
  case True
  then show ?thesis using aimd_ack_in_time [OF assms True refl] by blast
next
  case False
  then show ?thesis using aimd_ack_late [OF assms] by (meson not_le)
qed

interpretation aimd: congestion_controller aimd_class aimd_ok "\<lambda>n. 10 + n" aimd_limit
proof
  show "\<exists>c. new_controller aimd_class debug 10 25 = Some c \<and> aimd_ok 0 c" for debug
    by (simp add: aimd_class_def Controller_aimd_def to_long_def trunc_def aimd_ok_def)
  show "\<exists>w. window_size aimd_class c = Some w \<and> 0 < unat w \<and> unat w \<le> 10 + n"
    if "aimd_ok n c" "n \<le> aimd_limit" for n c
    using aimd_window_defined [OF that] by (fastforce simp: aimd_class_def)
  show "\<exists>c'. ack_received aimd_class a ts tr t c = Some c' \<and> aimd_ok (Suc n) c'"
    if "aimd_ok n c" "n < aimd_limit" for n c a ts tr t
    using aimd_ack_ok [OF that] by (simp add: aimd_class_def)
qed (simp_all add: aimd_class_def aimd_datagram_was_sent_def)

section \<open>Properties\<close>

lemma fl64_nat: "m \<le> 2 ^ 64 \<Longrightarrow> fl 64 (of_nat m) = of_nat m"
  by (rule x87.rnd_of_nat)

lemma fl64_two_halves: "fl 64 (fl 64 (3 / 2) + 1) = 5 / 2"
proof -
  have f: "fl 64 (3 / 2) = 3 / 2" "fl 64 (5 / 2) = 5 / 2"
    using x87.rnd_exact [of 3 1] x87.rnd_exact [of 5 1] by simp_all
  have "fl 64 (3 / 2) + 1 = 5 / 2" by (subst f) simp
  then show ?thesis by (simp only: f)
qed

text \<open>Acks one after another; each is the time its datagram was sent and the time it came.\<close>

primrec aimd_acks :: "(u64 \<times> u64) list \<Rightarrow> aimd \<Rightarrow> aimd option" where
  "aimd_acks [] c = Some c"
| "aimd_acks (a # as) c = (case aimd_ack_received 0 (fst a) 0 (snd a) c of
     None \<Rightarrow> None
   | Some c' \<Rightarrow> aimd_acks as c')"

lemma aimd_two_late:
  assumes "aimd_ok n c" "Suc n < aimd_limit" "105 < (ucast (t1 - s1) :: u32)" "105 < (ucast (t2 - s2) :: u32)"
  shows "\<exists>c'. aimd_acks [(s1, t1), (s2, t2)] c = Some c' \<and> ssthresh c' = 2 \<and> this_window c' = 3"
proof -
  obtain c1 where c1: "aimd_ack_received 0 s1 0 t1 c = Some c1" "aimd_ok (Suc n) c1" "this_window c1 = 3"
    using aimd_ack_late [OF assms(1) _ assms(3), of 0 0] assms(2) by force
  obtain c2 where "aimd_ack_received 0 s2 0 t2 c1 = Some c2" "this_window c2 = 3"
    "ssthresh c2 = \<lfloor>fl 64 (fl 64 (this_window c1 / 2) + 1)\<rfloor>"
    using aimd_ack_late [OF c1(2) assms(2) assms(4), of 0 0] by force
  moreover have "\<lfloor>5 / 2 :: rat\<rfloor> = 2" by (rule floor_unique) simp_all
  ultimately show ?thesis using c1 by (simp add: fl64_two_halves)
qed

lemma aimd_acks_append: "aimd_acks (as @ bs) c = Option.bind (aimd_acks as c) (aimd_acks bs)"
  by (induction as arbitrary: c) (simp_all split: option.split)

lemma aimd_acks_ok:
  "aimd_ok n c \<Longrightarrow> n + length as \<le> aimd_limit \<Longrightarrow> \<exists>c'. aimd_acks as c = Some c' \<and> aimd_ok (n + length as) c'"
proof (induction as arbitrary: n c)
  case (Cons a as)
  obtain c1 where "aimd_ack_received 0 (fst a) 0 (snd a) c = Some c1" "aimd_ok (Suc n) c1"
    using aimd_ack_ok [OF Cons.prems(1)] Cons.prems(2) by force
  then show ?case using Cons.IH [of "Suc n" c1] Cons.prems(2) by simp
qed simp

lemma aimd_slow_start_run:
  assumes "this_window c = of_nat m" "ssthresh c = 25" "3 \<le> m" "m + length as \<le> 26"
    "\<forall>a\<in>set as. (ucast (snd a - fst a) :: u32) \<le> 105"
  shows "\<exists>c'. aimd_acks as c = Some c' \<and> this_window c' = of_nat (m + length as) \<and> ssthresh c' = 25"
  using assms
proof (induction as arbitrary: c m)
  case (Cons a as)
  define d where "d = c\<lparr>previous_RTT := of_nat (unat (ucast (snd a - fst a) :: u32))\<rparr>"
  have ok: "aimd_ok 16 c" using Cons.prems by (simp add: aimd_ok_def)
  have r: "aimd_ack_received 0 (fst a) 0 (snd a) c = Some (aimd_grow d)"
    using aimd_ack_in_time(1) [OF ok _ _ d_def] Cons.prems(5) by (simp add: aimd_limit_def)
  have "fl 64 (of_nat (m + 1)) = of_nat (m + 1)" using Cons.prems(4) by (intro fl64_nat) simp
  then have "this_window (aimd_grow d) = of_nat (m + 1)" "ssthresh (aimd_grow d) = 25"
    using Cons.prems by (simp_all add: aimd_grow_def d_def add.commute)
  then show ?case using Cons.IH [of "aimd_grow d" "m + 1"] Cons.prems r by simp
qed simp

text \<open>A sender just made, and the same after a first timeout.\<close>

definition aimd_fresh :: "aimd sender" where
  "aimd_fresh = \<lparr>controller = \<lparr>aimd_debug = False, this_window = 10, ssthresh = 25, previous_RTT = 0\<rparr>,
     sequence_number = 0, next_ack_expected = 0, sent = []\<rparr>"

definition aimd_one :: "aimd sender" where
  "aimd_one = send_datagram aimd_class True 7 aimd_fresh"

lemma aimd_fresh_runs: "runs aimd_class 0 aimd_fresh"
  by (rule runs.start [of _ False])
    (simp add: new_sender_def aimd_class_def Controller_aimd_def to_long_def trunc_def aimd_fresh_def)

lemma aimd_one_runs: "runs aimd_class 0 aimd_one"
  using runs.step [OF aimd_fresh_runs, of "Timed_out 7" aimd_one]
  by (simp add: honest_def acks_def poll_step_def aimd_one_def) (simp add: aimd_class_def)

text \<open>C16: In every run of the sender with the AIMD controller against a receiver that acks only
  datagrams that were sent (lost, repeated and reordered acks included), up to \<open>2 ^ 32 - 11\<close> acks: the
  datagrams carry the sequence numbers 0, 1, 2, ... in order, no unsent datagram counts as
  acknowledged, the window has a size between 3 and 10 plus the number of acks, and the next event is
  handled: the sending loop ends, nothing is thrown and no conversion is undefined.\<close>

theorem aimd_sender_safe:
  assumes "runs aimd_class n s" "honest e s" "n + acks e \<le> 2 ^ 32 - 11"
  shows "map dg_sequence_number (sent s) = map of_nat [0..<length (sent s)]
    \<and> unat (next_ack_expected s) \<le> length (sent s)
    \<and> (\<exists>w. window_size aimd_class (controller s) = Some w \<and> 3 \<le> unat w \<and> unat w \<le> 10 + n)
    \<and> (\<exists>r s'. poll_step aimd_class e s = Some (Inr (r, s')))"
proof -
  have n: "n \<le> aimd_limit" "n + acks e \<le> aimd_limit" using assms(3) by (simp_all add: aimd_limit_def)
  have inv: "aimd_ok n (controller s)" "numbered s" using aimd.runs_inv [OF assms(1) n(1)] by simp_all
  then show ?thesis using aimd_window_defined [OF inv(1) n(1)] aimd.runs_handled [OF assms(1,2) n(2)]
    by (simp add: numbered_def aimd_class_def)
qed

theorem aimd_sender_safe_witness:
  "runs aimd_class 0 aimd_one \<and> length (sent aimd_one) = 1 \<and>
   (\<exists>w. window_size aimd_class (controller aimd_one) = Some w \<and> 3 \<le> unat w \<and> unat w \<le> 10) \<and>
   (\<exists>r s'. poll_step aimd_class (Received 50 \<lparr>is_ack = True, ack_sequence_number = 0, ack_send_timestamp = 7,
      ack_recv_timestamp = 9\<rparr>) aimd_one = Some (Inr (r, s')))"
  using aimd_sender_safe [of 0 aimd_one "Received 50 \<lparr>is_ack = True, ack_sequence_number = 0,
      ack_send_timestamp = 7, ack_recv_timestamp = 9\<rparr>"] aimd_one_runs
  by (simp add: honest_def acks_def aimd_one_def aimd_fresh_def)

text \<open>C17: The sender with the AIMD controller never stalls on a window: whatever has happened in a run,
  once every datagram sent is acknowledged the first rule sends at least three more, with the next
  sequence numbers, exactly as many as the window allows, and then stops.\<close>

theorem aimd_sender_progress:
  assumes "runs aimd_class n s" "n \<le> 2 ^ 32 - 11" "length (sent s) < 2 ^ 64"
    "unat (next_ack_expected s) = length (sent s)"
  shows "\<exists>w s'. window_size aimd_class (controller s) = Some w \<and> 3 \<le> unat w
    \<and> close_window aimd_class clk s = Some (Inr s') \<and> window_is_open aimd_class s' = Inr False
    \<and> sent s' = sent s @ burst clk (sequence_number s) (unat w)"
proof -
  have n: "n \<le> aimd_limit" using assms(2) by (simp add: aimd_limit_def)
  have "aimd_ok n (controller s)" using aimd.runs_inv [OF assms(1) n] by simp
  then obtain w where w: "window_size aimd_class (controller s) = Some w" "3 \<le> unat w"
    using aimd_window_defined [OF _ n] by (auto simp: aimd_class_def)
  then show ?thesis using aimd.runs_fill [OF assms(1) n assms(3), of clk] assms(4) by auto
qed

theorem aimd_sender_progress_witness:
  "runs aimd_class 0 aimd_fresh \<and> (\<exists>w s'. window_size aimd_class (controller aimd_fresh) = Some w \<and> 3 \<le> unat w
    \<and> close_window aimd_class (\<lambda>i. 40 + i) aimd_fresh = Some (Inr s')
    \<and> sent s' = burst (\<lambda>i. 40 + i) 0 (unat w))"
  using aimd_sender_progress [of 0 aimd_fresh "\<lambda>i. 40 + i"] aimd_fresh_runs by (auto simp: aimd_fresh_def)

text \<open>C28: The AIMD controller grows its window by exactly one datagram per ack in slow start (from the
  initial 10 up to 26, one past the threshold 25). Whatever acks follow, two late ones in a row, which
  one loss burst produces, leave the threshold at 2 with a window of 3: the second one halves the window
  that the first has just set to 3, so the memory of the window before the loss is gone.\<close>

theorem aimd_acks_effect:
  assumes "Controller_aimd debug 10 25 = Some c" "length as \<le> 16"
    "\<forall>a\<in>set as. (ucast (snd a - fst a) :: u32) \<le> 105"
    "length bs \<le> 2 ^ 31" "105 < (ucast (t1 - s1) :: u32)" "105 < (ucast (t2 - s2) :: u32)"
  shows "\<exists>c1 c2. aimd_acks as c = Some c1 \<and> this_window c1 = of_nat (10 + length as) \<and> ssthresh c1 = 25
    \<and> aimd_acks (bs @ [(s1, t1), (s2, t2)]) c1 = Some c2 \<and> this_window c2 = 3 \<and> ssthresh c2 = 2"
proof -
  have c: "this_window c = of_nat 10" "ssthresh c = 25"
    using assms(1) by (auto simp: Controller_aimd_def to_long_def trunc_def)
  obtain c1 where c1: "aimd_acks as c = Some c1" "this_window c1 = of_nat (10 + length as)" "ssthresh c1 = 25"
    using aimd_slow_start_run [OF c _ _ assms(3)] assms(2) by auto
  have "aimd_ok 16 c1" using c1(2) assms(2) by (simp add: aimd_ok_def)
  then obtain c' where c': "aimd_acks bs c1 = Some c'" "aimd_ok (16 + length bs) c'"
    using aimd_acks_ok [of 16 c1 bs] assms(4) by (auto simp: aimd_limit_def)
  obtain c2 where "aimd_acks [(s1, t1), (s2, t2)] c' = Some c2" "ssthresh c2 = 2" "this_window c2 = 3"
    using aimd_two_late [OF c'(2) _ assms(5,6)] assms(4) by (auto simp: aimd_limit_def)
  then show ?thesis using c1 c' by (simp add: aimd_acks_append del: aimd_acks.simps(2))
qed

theorem aimd_acks_effect_witness:
  "\<exists>c1 c2. aimd_acks [(0, 50), (10, 60)] (controller aimd_fresh) = Some c1 \<and> this_window c1 = 12
    \<and> aimd_acks [(20, 200), (30, 300), (40, 300)] c1 = Some c2 \<and> this_window c2 = 3 \<and> ssthresh c2 = 2"
  using aimd_acks_effect [of False "controller aimd_fresh" "[(0, 50), (10, 60)]" "[(20, 200)]" 300 30 300 40]
  by (simp add: Controller_aimd_def to_long_def trunc_def aimd_fresh_def del: aimd_acks.simps) blast



text \<open>C19: The whole program, sender and AIMD controller, ends on every finite list of poller events in
  which the acks are for datagrams sent, up to \<open>2 ^ 32 - 11\<close> of them: started with a host and a port it
  returns a state (or the poller's exit status), and the datagrams of that state carry consecutive
  sequence numbers from 0.\<close>

theorem aimd_program_runs:
  assumes "honest_run aimd_class es aimd_fresh" "sum_list (map acks es) \<le> 2 ^ 32 - 11"
  shows "\<exists>r s'. sender_main aimd_class [prog, host, port] es = Ran (Some (Inr (r, s')))
    \<and> map dg_sequence_number (sent s') = map of_nat [0..<length (sent s')]"
proof -
  have "new_sender aimd_class False = Inr aimd_fresh"
    by (simp add: new_sender_def aimd_class_def Controller_aimd_def to_long_def trunc_def aimd_fresh_def)
  then show ?thesis using aimd.main_ok [OF _ assms(1), of prog host port] assms(2)
    by (auto simp: numbered_def aimd_limit_def)
qed

theorem aimd_program_runs_witness:
  "\<exists>r s'. sender_main aimd_class [''sender'', ''host'', ''port''] [Timed_out 7, Received 50 \<lparr>is_ack = True,
      ack_sequence_number = 0, ack_send_timestamp = 7, ack_recv_timestamp = 9\<rparr>, Writable id] = Ran (Some (Inr (r, s')))"
proof -
  have "honest_run aimd_class [Timed_out 7, Received 50 \<lparr>is_ack = True, ack_sequence_number = 0,
      ack_send_timestamp = 7, ack_recv_timestamp = 9\<rparr>, Writable id] aimd_fresh"
    by (simp add: honest_def poll_step_def aimd_fresh_def aimd_class_def split: option.split sum.split)
  then show ?thesis using aimd_program_runs by (force simp: acks_def)
qed

end
