(* ===== verification/Cc_Throughput.thy ===== *)
theory Cc_Throughput
  imports Cc_Sender
begin

text \<open>
  The controller that estimates the throughput (\<open>Assign_3/controller_throughput.cc\<close>): acks are counted
  in slots of 30 ms, a closed slot gives an observed throughput, an exponential average of which times
  a delay is the window. The globals of the file are fields of the state; arithmetic on them is that of
  \<open>double\<close> (\<open>fl 53\<close>). It provides the interface of \<open>Cc_Sender\<close>.
\<close>

section \<open>State and operations\<close>

record thr =
  thr_debug :: bool
  thr_window :: rat
  thr_ssthresh :: int
  estimate_throughput :: rat
  observed_throughput :: rat
  delay :: rat
  successive_time_out :: rat
  end_time :: u64
  packet_count :: rat

definition alpha :: rat where
  "alpha = fl 53 (15 / 100)"

definition thr_next_time_out :: rat where
  "thr_next_time_out = 100"

definition slot :: rat where
  "slot = 30"

definition Controller_thr :: "bool \<Rightarrow> rat \<Rightarrow> rat \<Rightarrow> thr option" where
  "Controller_thr debug window thresh = (case to_long thresh of
     None \<Rightarrow> None
   | Some t \<Rightarrow> Some \<lparr>thr_debug = debug, thr_window = window, thr_ssthresh = t, estimate_throughput = 0,
       observed_throughput = 0, delay = 50, successive_time_out = 0, end_time = 0, packet_count = 0\<rparr>)"

definition thr_window_size :: "thr \<Rightarrow> u32 option" where
  "thr_window_size c = to_u32 (thr_window c)"

definition thr_datagram_was_sent :: "u64 \<Rightarrow> u64 \<Rightarrow> bool \<Rightarrow> thr \<Rightarrow> thr" where
  "thr_datagram_was_sent seq_number send_time after_timeout c = c"

definition thr_set_window_size :: "rat \<Rightarrow> thr \<Rightarrow> thr" where
  "thr_set_window_size window c = c\<lparr>thr_window := window\<rparr>"

definition thr_timeout_ms :: "thr \<Rightarrow> u32 option" where
  "thr_timeout_ms c = to_u32 thr_next_time_out"

text \<open>The first part of \<open>ack_received\<close>: late acks are counted, and two in a row shorten the delay.\<close>

definition thr_note_delay :: "bool \<Rightarrow> thr \<Rightarrow> thr" where
  "thr_note_delay late c =
     (let c = c\<lparr>successive_time_out := (if late then fl 53 (successive_time_out c + 1) else 0)\<rparr>
      in c\<lparr>delay := (if 2 \<le> successive_time_out c then 44 else 50)\<rparr>)"

text \<open>The end of a slot: a new estimate, a new window, and the next slot.\<close>

definition thr_close_slot :: "thr \<Rightarrow> thr option" where
  "thr_close_slot c =
     (let obs = fl 53 (packet_count c / fl 53 (slot / 2));
          est = fl 53 (fl 53 (estimate_throughput c * fl 53 (1 - alpha)) + fl 53 (alpha * obs))
      in case to_u64 (fl 53 (slot + fl 53 (of_nat (unat (end_time c))))) of
        None \<Rightarrow> None
      | Some e \<Rightarrow> Some (c\<lparr>observed_throughput := obs, estimate_throughput := est,
          thr_window := fl 53 (est * delay c), end_time := e, packet_count := 1\<rparr>))"

definition thr_ack_received :: "u64 \<Rightarrow> u64 \<Rightarrow> u64 \<Rightarrow> u64 \<Rightarrow> thr \<Rightarrow> thr option" where
  "thr_ack_received sequence_number_acked send_timestamp_acked recv_timestamp_acked timestamp_ack_received c =
     (case thr_timeout_ms c of
        None \<Rightarrow> None
      | Some t \<Rightarrow>
          let c = thr_note_delay (ucast t < timestamp_ack_received - send_timestamp_acked) c
          in case (if timestamp_ack_received \<le> end_time c
                   then Some (c\<lparr>packet_count := fl 53 (packet_count c + 1)\<rparr>)
                   else thr_close_slot c) of
            None \<Rightarrow> None
          | Some c \<Rightarrow> Some (if thr_window c < 1 then c\<lparr>thr_window := 3\<rparr> else c))"

definition thr_class :: "thr controller_class" where
  "thr_class = \<lparr>new_controller = Controller_thr, window_size = thr_window_size,
     datagram_was_sent = thr_datagram_was_sent, ack_received = thr_ack_received,
     timeout_ms = thr_timeout_ms\<rparr>"

section \<open>The window stays between 1 and 10 plus fifty times the number of acks\<close>

text \<open>
  The estimate never exceeds the acks of the closed slots, because a slot with \<open>k\<close> acks adds at most
  \<open>k\<close> to it; \<open>N\<close> counts those and \<open>k\<close> the acks of the current slot.
\<close>

definition thr_ok :: "nat \<Rightarrow> thr \<Rightarrow> bool" where
  "thr_ok n c \<longleftrightarrow> (\<exists>N k. packet_count c = of_nat k \<and> 0 \<le> estimate_throughput c
     \<and> estimate_throughput c \<le> of_nat N \<and> N + k \<le> n)
     \<and> 1 \<le> thr_window c \<and> thr_window c \<le> of_nat (10 + 50 * n) \<and> unat (end_time c) \<le> 30 * n"

definition thr_limit :: nat where
  "thr_limit = 85899345"

lemma thr_timeout [simp]: "thr_timeout_ms c = Some 100"
  by (simp add: thr_timeout_ms_def thr_next_time_out_def to_u32_def trunc_def)

lemma thr_window_defined:
  assumes "thr_ok n c" "n \<le> thr_limit"
  shows "\<exists>w. thr_window_size c = Some w \<and> 1 \<le> unat w \<and> unat w \<le> 10 + 50 * n"
  unfolding thr_window_size_def
  by (rule to_u32_defined) (use assms in \<open>simp_all add: thr_ok_def thr_limit_def\<close>)

lemma alpha_bounds: "0 \<le> alpha" "alpha \<le> 77 / 512" "0 \<le> fl 53 (1 - alpha)" "fl 53 (1 - alpha) \<le> 871 / 1024"
proof -
  show a: "0 \<le> alpha" "alpha \<le> 77 / 512" unfolding alpha_def double_015 by simp_all
  have "153 / 1024 \<le> alpha" unfolding alpha_def double_015 by simp
  then show "0 \<le> fl 53 (1 - alpha)" "fl 53 (1 - alpha) \<le> 871 / 1024"
    using a dbl.rnd_nonneg [of "1 - alpha"] dbl.rnd_le [of "1 - alpha" 871 10] by simp_all
qed

lemma half_slot [simp]: "fl 53 (slot / 2) = 15"
  using dbl.rnd_of_nat [of 15] by (simp add: slot_def)

text \<open>The new estimate, bounded by any dyadic bounds of its parts.\<close>

definition thr_estimate :: "rat \<Rightarrow> rat \<Rightarrow> rat" where
  "thr_estimate est pc = fl 53 (fl 53 (est * fl 53 (1 - alpha)) + fl 53 (alpha * fl 53 (pc / 15)))"

lemma thr_estimate_le:
  assumes "0 \<le> est" "est \<le> of_nat N" "N + k \<le> 2 ^ 53"
  shows "0 \<le> thr_estimate est (of_nat k)" "thr_estimate est (of_nat k) \<le> of_nat (N + k)"
proof -
  note a = alpha_bounds
  have o: "0 \<le> fl 53 (of_nat k / 15)" "fl 53 (of_nat k / 15) \<le> of_nat k"
    using assms(3) dbl.rnd_nonneg [of "of_nat k / 15"] dbl.rnd_le_nat [of "of_nat k / 15" k] by simp_all
  have "est * fl 53 (1 - alpha) \<le> of_nat N * 1" using assms a by (intro mult_mono) simp_all
  then have x: "0 \<le> fl 53 (est * fl 53 (1 - alpha))" "fl 53 (est * fl 53 (1 - alpha)) \<le> of_nat N"
    using assms a dbl.rnd_nonneg [of "est * fl 53 (1 - alpha)"] dbl.rnd_le_nat [of "est * fl 53 (1 - alpha)" N] by simp_all
  have "alpha * fl 53 (of_nat k / 15) \<le> 1 * of_nat k" using o a by (intro mult_mono) simp_all
  then have y: "0 \<le> fl 53 (alpha * fl 53 (of_nat k / 15))" "fl 53 (alpha * fl 53 (of_nat k / 15)) \<le> of_nat k"
    using assms(3) o a dbl.rnd_nonneg [of "alpha * fl 53 (of_nat k / 15)"]
      dbl.rnd_le_nat [of "alpha * fl 53 (of_nat k / 15)" k] by simp_all
  show "0 \<le> thr_estimate est (of_nat k)" "thr_estimate est (of_nat k) \<le> of_nat (N + k)"
    unfolding thr_estimate_def using x y assms(3)
      dbl.rnd_nonneg [OF add_nonneg_nonneg [OF x(1) y(1)]]
      dbl.rnd_le_nat [OF add_nonneg_nonneg [OF x(1) y(1)], of "N + k"] by simp_all
qed

lemma next_end_time:
  assumes "unat e \<le> 2 ^ 40"
  shows "to_u64 (fl 53 (slot + fl 53 (of_nat (unat e)))) = Some (e + 30)"
proof -
  have "fl 53 (of_nat (unat e)) = of_nat (unat e)" using assms by (intro dbl.rnd_of_nat) simp
  moreover have "fl 53 (of_nat (30 + unat e)) = of_nat (30 + unat e)" using assms by (intro dbl.rnd_of_nat) simp
  moreover have "to_u64 (of_nat (30 + unat e)) = Some (of_nat (30 + unat e))" using assms by (intro to_u64_of_nat) simp
  ultimately show ?thesis by (simp add: slot_def add.commute)
qed

lemma thr_close_slot_eq:
  assumes "unat (end_time c) \<le> 2 ^ 40"
  shows "thr_close_slot c = Some (c\<lparr>observed_throughput := fl 53 (packet_count c / 15),
     estimate_throughput := thr_estimate (estimate_throughput c) (packet_count c),
     thr_window := fl 53 (thr_estimate (estimate_throughput c) (packet_count c) * delay c),
     end_time := end_time c + 30, packet_count := 1\<rparr>)"
  unfolding thr_close_slot_def Let_def next_end_time [OF assms] half_slot option.case thr_estimate_def ..

lemma thr_note_delay_fields [simp]:
  "packet_count (thr_note_delay l c) = packet_count c" "estimate_throughput (thr_note_delay l c) = estimate_throughput c"
  "thr_window (thr_note_delay l c) = thr_window c" "end_time (thr_note_delay l c) = end_time c"
  "0 \<le> delay (thr_note_delay l c)" "delay (thr_note_delay l c) \<le> 50"
  by (simp_all add: thr_note_delay_def Let_def)

lemma unat_add_30: "unat (e :: u64) \<le> 2 ^ 40 \<Longrightarrow> unat (e + 30) = unat e + 30"
  by (subst unat_add_lem [THEN iffD1]) simp_all

lemma thr_ack_counted:
  assumes "thr_ok n c" "n < thr_limit" "t \<le> end_time c"
  shows "\<exists>c'. thr_ack_received a ts tr t c = Some c' \<and> thr_ok (Suc n) c'"
proof -
  let ?d = "thr_note_delay (100 < t - ts) c"
  obtain N k where k: "packet_count c = of_nat k" "0 \<le> estimate_throughput c" "estimate_throughput c \<le> of_nat N" "N + k \<le> n"
    using assms(1) by (auto simp: thr_ok_def)
  have "fl 53 (of_nat (k + 1)) = of_nat (k + 1)" using k(4) assms(2) by (intro dbl.rnd_of_nat) (simp add: thr_limit_def)
  then have f: "fl 53 (packet_count c + 1) = of_nat (Suc k)" using k(1) by (simp add: add.commute)
  have "thr_ok (Suc n) (?d\<lparr>packet_count := of_nat (Suc k)\<rparr>)"
    unfolding thr_ok_def using assms(1) k by (intro conjI exI [of _ N] exI [of _ "Suc k"]) (simp_all add: thr_ok_def)
  then show ?thesis using assms f by (simp add: thr_ack_received_def Let_def thr_ok_def del: of_nat_Suc)
qed

lemma thr_ack_closing:
  assumes "thr_ok n c" "n < thr_limit" "end_time c < t"
  shows "\<exists>c'. thr_ack_received a ts tr t c = Some c' \<and> thr_ok (Suc n) c' \<and> packet_count c' = 1
    \<and> end_time c' = end_time c + 30
    \<and> estimate_throughput c' = thr_estimate (estimate_throughput c) (packet_count c)
    \<and> thr_window c' = (let w = fl 53 (thr_estimate (estimate_throughput c) (packet_count c)
         * delay (thr_note_delay (100 < t - ts) c)) in if w < 1 then 3 else w)"
proof -
  define d where "d = thr_note_delay (100 < t - ts) c"
  have d: "packet_count d = packet_count c" "estimate_throughput d = estimate_throughput c" "end_time d = end_time c"
    "0 \<le> delay d" "delay d \<le> 50" by (simp_all add: d_def)
  obtain N k where k: "packet_count c = of_nat k" "0 \<le> estimate_throughput c" "estimate_throughput c \<le> of_nat N" "N + k \<le> n"
    using assms(1) by (auto simp: thr_ok_def)
  have e: "unat (end_time c) \<le> 2 ^ 40" "unat (end_time c) \<le> 30 * n"
    using assms(1,2) by (simp_all add: thr_ok_def thr_limit_def)
  define est where "est = thr_estimate (estimate_throughput c) (packet_count c)"
  have est: "0 \<le> est" "est \<le> of_nat (N + k)"
    unfolding est_def k(1) using thr_estimate_le [OF k(2,3)] k(4) assms(2) by (simp_all add: thr_limit_def)
  define w where "w = fl 53 (est * delay d)"
  have "est * delay d \<le> of_nat (N + k) * 50" using est d by (intro mult_mono) simp_all
  then have "est * delay d \<le> of_nat (50 * (N + k))" by simp
  then have w: "0 \<le> w" "w \<le> of_nat (50 * (N + k))" unfolding w_def
    using mult_nonneg_nonneg [OF est(1) d(4)] k(4) assms(2) dbl.rnd_nonneg [of "est * delay d"]
      dbl.rnd_le_nat [of "est * delay d" "50 * (N + k)"] by (simp_all add: thr_limit_def)
  then have w': "w \<le> of_nat (10 + 50 * Suc n)"
    using k(4) by (intro order_trans [OF w(2)] of_nat_mono) simp
  define c1 where "c1 = d\<lparr>observed_throughput := fl 53 (packet_count c / 15), estimate_throughput := est,
    thr_window := w, end_time := end_time c + 30, packet_count := 1\<rparr>"
  have "thr_close_slot d = Some c1"
    using thr_close_slot_eq [of d] e(1) d by (simp add: c1_def est_def w_def)
  then have r: "thr_ack_received a ts tr t c = Some (if w < 1 then c1\<lparr>thr_window := 3\<rparr> else c1)"
    using assms(3) d(3) by (simp add: thr_ack_received_def Let_def flip: d_def) (simp add: c1_def)
  have "thr_ok (Suc n) (if w < 1 then c1\<lparr>thr_window := 3\<rparr> else c1)"
    unfolding thr_ok_def using est k(4) e w' unat_add_30 [OF e(1)]
    by (intro conjI exI [of _ "N + k"] exI [of _ 1]) (auto simp: c1_def)
  then show ?thesis using r by (simp add: c1_def Let_def flip: d_def est_def w_def)
qed

lemma thr_ack_ok:
  assumes "thr_ok n c" "n < thr_limit"
  shows "\<exists>c'. thr_ack_received a ts tr t c = Some c' \<and> thr_ok (Suc n) c'"
proof (cases "t \<le> end_time c")
  case True
  then show ?thesis by (rule thr_ack_counted [OF assms])
next
  case False
  then have "end_time c < t" by simp
  then show ?thesis using thr_ack_closing [OF assms, of t a ts tr] by blast
qed

interpretation thr: congestion_controller thr_class thr_ok "\<lambda>n. 10 + 50 * n" thr_limit
proof
  show "\<exists>c. new_controller thr_class debug 10 25 = Some c \<and> thr_ok 0 c" for debug
    by (simp add: thr_class_def Controller_thr_def to_long_def trunc_def thr_ok_def)
  show "\<exists>w. window_size thr_class c = Some w \<and> 0 < unat w \<and> unat w \<le> 10 + 50 * n"
    if "thr_ok n c" "n \<le> thr_limit" for n c
    using thr_window_defined [OF that] by (fastforce simp: thr_class_def)
  show "\<exists>c'. ack_received thr_class a ts tr t c = Some c' \<and> thr_ok (Suc n) c'"
    if "thr_ok n c" "n < thr_limit" for n c a ts tr t
    using thr_ack_ok [OF that] by (simp add: thr_class_def)
qed (simp_all add: thr_class_def thr_datagram_was_sent_def)

section \<open>Properties\<close>

primrec thr_acks :: "(u64 \<times> u64) list \<Rightarrow> thr \<Rightarrow> thr option" where
  "thr_acks [] c = Some c"
| "thr_acks (a # as) c = (case thr_ack_received 0 (fst a) 0 (snd a) c of
     None \<Rightarrow> None
   | Some c' \<Rightarrow> thr_acks as c')"

text \<open>A controller whose slots lag behind the clock: every ack closes one.\<close>

definition lagging :: "nat \<Rightarrow> thr \<Rightarrow> bool" where
  "lagging n c \<longleftrightarrow> thr_ok n c \<and> packet_count c = 1 \<and> 0 \<le> estimate_throughput c
     \<and> estimate_throughput c \<le> 5 / 64 \<and> thr_window c < 4"

lemma estimate_lagging:
  assumes "0 \<le> est" "est \<le> 5 / 64" "0 \<le> pc" "pc \<le> 1"
  shows "0 \<le> thr_estimate est pc" "thr_estimate est pc \<le> 5 / 64"
proof -
  note a = alpha_bounds
  have o: "0 \<le> fl 53 (pc / 15)" "fl 53 (pc / 15) \<le> 9 / 128"
    using dbl.rnd_nonneg [of "pc / 15"] dbl.rnd_le [of "pc / 15" 9 7] assms(3,4) by simp_all
  have "est * fl 53 (1 - alpha) \<le> 5 / 64 * (871 / 1024)" using assms a by (intro mult_mono) simp_all
  then have x: "0 \<le> fl 53 (est * fl 53 (1 - alpha))" "fl 53 (est * fl 53 (1 - alpha)) \<le> 4355 / 65536"
    using assms a dbl.rnd_nonneg [of "est * fl 53 (1 - alpha)"] dbl.rnd_le [of "est * fl 53 (1 - alpha)" 4355 16]
    by simp_all
  have "alpha * fl 53 (pc / 15) \<le> 77 / 512 * (9 / 128)" using a o by (intro mult_mono) simp_all
  then have y: "0 \<le> fl 53 (alpha * fl 53 (pc / 15))" "fl 53 (alpha * fl 53 (pc / 15)) \<le> 693 / 65536"
    using a o dbl.rnd_nonneg [of "alpha * fl 53 (pc / 15)"] dbl.rnd_le [of "alpha * fl 53 (pc / 15)" 693 16] by simp_all
  show "0 \<le> thr_estimate est pc" "thr_estimate est pc \<le> 5 / 64"
    unfolding thr_estimate_def using x y dbl.rnd_nonneg [OF add_nonneg_nonneg [OF x(1) y(1)]]
      dbl.rnd_le [OF add_nonneg_nonneg [OF x(1) y(1)], of 5 6] by simp_all
qed

lemma lagging_step:
  assumes "thr_ok n c" "n < thr_limit" "end_time c < t" "0 \<le> estimate_throughput c" "estimate_throughput c \<le> 5 / 64"
    "packet_count c = 0 \<or> packet_count c = 1"
  shows "\<exists>c'. thr_ack_received a ts tr t c = Some c' \<and> lagging (Suc n) c'"
proof -
  obtain c' where c': "thr_ack_received a ts tr t c = Some c'" "thr_ok (Suc n) c'" "packet_count c' = 1"
    "estimate_throughput c' = thr_estimate (estimate_throughput c) (packet_count c)"
    "thr_window c' = (let w = fl 53 (thr_estimate (estimate_throughput c) (packet_count c)
         * delay (thr_note_delay (100 < t - ts) c)) in if w < 1 then 3 else w)"
    using thr_ack_closing [OF assms(1-3), of a ts tr] by blast
  have pc: "0 \<le> packet_count c" "packet_count c \<le> 1" using assms(6) by auto
  note e = estimate_lagging [OF assms(4,5) pc]
  let ?d = "delay (thr_note_delay (100 < t - ts) c)"
  have "thr_estimate (estimate_throughput c) (packet_count c) * ?d \<le> 5 / 64 * 50" using e by (intro mult_mono) simp_all
  then have "fl 53 (thr_estimate (estimate_throughput c) (packet_count c) * ?d) \<le> 250 / 64"
    using dbl.rnd_le [of "thr_estimate (estimate_throughput c) (packet_count c) * ?d" 250 6] e(1) by simp
  then have "thr_window c' < 4" unfolding c'(5) Let_def by (simp split: if_splits)
  then show ?thesis using c' e by (auto simp: lagging_def)
qed

lemma lagging_acks:
  assumes "lagging n c" "n + length as \<le> thr_limit" "\<forall>a\<in>set as. 30 * (n + length as) < unat (snd a)"
  shows "\<exists>c'. thr_acks as c = Some c' \<and> lagging (n + length as) c'"
  using assms
proof (induction as arbitrary: n c)
  case (Cons a as)
  have "unat (end_time c) \<le> 30 * n" using Cons.prems(1) by (simp add: lagging_def thr_ok_def)
  then have "end_time c < snd a" using Cons.prems(3) by (simp add: word_less_nat_alt)
  then obtain c1 where "thr_ack_received 0 (fst a) 0 (snd a) c = Some c1" "lagging (Suc n) c1"
    using lagging_step [of n c "snd a" 0 "fst a" 0] Cons.prems(1,2) by (auto simp: lagging_def)
  then show ?case using Cons.IH [of "Suc n" c1] Cons.prems(2,3) by simp
qed simp

text \<open>C29: The throughput controller starts its slots at time 0 and moves the end of a slot by 30 ms per
  closed slot, never to the present. So when its acks come while the clock is ahead of all the slots
  (as after an idle start, or with a clock counted from an earlier epoch), every ack closes a slot of
  its own, the observed throughput is that of one ack per slot whatever arrives, and the window never
  exceeds 3 datagrams.\<close>

theorem throughput_slots_lag:
  assumes "Controller_thr debug 10 25 = Some c" "as \<noteq> []" "length as \<le> 85899345"
    "\<forall>a\<in>set as. 30 * length as < unat (snd a)"
  shows "\<exists>c' w. thr_acks as c = Some c' \<and> packet_count c' = 1 \<and> thr_window_size c' = Some w
    \<and> 1 \<le> unat w \<and> unat w \<le> 3"
proof -
  obtain a as' where as: "as = a # as'" using assms(2) by (cases as) auto
  have c: "thr_ok 0 c" "end_time c = 0" "packet_count c = 0" "estimate_throughput c = 0"
    using assms(1) by (auto simp: Controller_thr_def to_long_def trunc_def thr_ok_def)
  then have "end_time c < snd a" using assms(4) by (simp add: as word_less_nat_alt)
  then obtain c1 where c1: "thr_ack_received 0 (fst a) 0 (snd a) c = Some c1" "lagging 1 c1"
    using lagging_step [OF c(1), of "snd a" 0 "fst a" 0] c by (auto simp: thr_limit_def)
  obtain c' where c': "thr_acks as' c1 = Some c'" "lagging (length as) c'"
    using lagging_acks [OF c1(2), of as'] assms(3,4) by (auto simp: as thr_limit_def)
  then have ok: "thr_ok (length as) c'" "length as \<le> thr_limit" "packet_count c' = 1" "thr_window c' < 4" "0 \<le> thr_window c'"
    using assms(3) by (auto simp: lagging_def thr_limit_def thr_ok_def)
  obtain w where w: "thr_window_size c' = Some w" "1 \<le> unat w" using thr_window_defined [OF ok(1,2)] by blast
  have "unat w < 4" using w(1) ok(4,5) to_u32_below [of "thr_window c'" w 4] by (simp add: thr_window_size_def)
  then show ?thesis using w c1 c' ok by (simp add: as)
qed

definition thr_fresh :: thr where
  "thr_fresh = \<lparr>thr_debug = False, thr_window = 10, thr_ssthresh = 25, estimate_throughput = 0,
     observed_throughput = 0, delay = 50, successive_time_out = 0, end_time = 0, packet_count = 0\<rparr>"

theorem throughput_slots_lag_witness:
  "\<exists>c' w. thr_acks [(1000, 1040), (1000, 1041), (1001, 1041), (1001, 1042)] thr_fresh = Some c'
    \<and> packet_count c' = 1 \<and> thr_window_size c' = Some w \<and> 1 \<le> unat w \<and> unat w \<le> 3"
  by (rule throughput_slots_lag [of False])
    (simp_all add: Controller_thr_def to_long_def trunc_def thr_fresh_def)

text \<open>C18: The sender runs with the throughput controller as well as with the other: in every run against
  a receiver that acks only datagrams that were sent, up to 85899345 acks, every event is handled
  (nothing is thrown, no conversion is undefined, the sending loop ends), the window has a size between
  1 and 10 plus 50 times the number of acks, and the first rule sends exactly the datagrams that the
  window leaves room for, with consecutive sequence numbers, so that it is full afterwards.\<close>

theorem throughput_sender_safe:
  assumes "runs thr_class n s" "honest e s" "n + acks e \<le> 85899345" "length (sent s) < 2 ^ 64"
  shows "(\<exists>r s'. poll_step thr_class e s = Some (Inr (r, s')))
    \<and> (\<exists>w s'. window_size thr_class (controller s) = Some w \<and> 0 < unat w \<and> unat w \<le> 10 + 50 * n
        \<and> close_window thr_class clk s = Some (Inr s') \<and> window_is_open thr_class s' = Inr False
        \<and> sent s' = sent s @ burst clk (sequence_number s) (unat w - (length (sent s) - unat (next_ack_expected s))))"
proof -
  have n: "n \<le> thr_limit" "n + acks e \<le> thr_limit" using assms(3) by (simp_all add: thr_limit_def)
  show ?thesis
    using thr.runs_handled [OF assms(1,2) n(2)] thr.runs_fill [OF assms(1) n(1) assms(4), of clk] by blast
qed

theorem throughput_sender_safe_witness:
  "\<exists>s r s'. runs thr_class 0 s \<and> poll_step thr_class (Timed_out 100) s = Some (Inr (r, s'))
    \<and> (\<exists>w. window_size thr_class (controller s) = Some w \<and> 0 < unat w \<and> unat w \<le> 10)"
proof -
  let ?s = "\<lparr>controller = thr_fresh, sequence_number = 0, next_ack_expected = 0, sent = []\<rparr>"
  have r: "runs thr_class 0 ?s"
    by (rule runs.start [of _ False])
      (simp add: new_sender_def thr_class_def Controller_thr_def to_long_def trunc_def thr_fresh_def)
  show ?thesis
    using throughput_sender_safe [OF r, of "Timed_out 100" id] r by (auto simp: honest_def acks_def)
qed

end
