(* ===== verification/Spec2Isabelle.thy ===== *)
theory Spec2Isabelle
  imports Sr_Framing Sr_Unreach_Old Sr_Arrays Cc_Aimd Cc_Throughput
begin

text \<open>
  A verification library for the simple router of \<open>20100117_RouterAssign_1/router\<close>: a user-space IP
  router that receives Ethernet frames from a server over a socket, answers ARP and ICMP, forwards IP
  packets between its interfaces and keeps a cache of its neighbours' hardware addresses; and for the
  datagram sender of \<open>Assign_3\<close> with its two congestion controllers.

  \<^bold>\<open>Parts and theories.\<close> Each theory has the operations of a source file as definitions of the same
  names, then the lemmas about them, then its properties (numbered C1, C2, \<dots>).

  \<^item> \<open>Router_Prelude\<close>: machine words, the faults a C run can end with (\<open>c_error\<close>, results are
    \<open>c_error + 'a\<close>), checked reads and writes of byte buffers, byte order, C strings, and the contract of
    a packed struct (locale \<open>codec\<close>).
  \<^item> \<open>Sr_Protocol\<close> (\<open>sr_protocol.h\<close>): the header structs as records with their layout; five
    interpretations of \<open>codec\<close>.
  \<^item> \<open>Sr_Utils\<close> (\<open>sr_utils.c\<close>): the checksum and its relation to RFC 1071, field readers, printers.
  \<^item> \<open>Sr_Types\<close> (\<open>sr_router.h\<close>, \<open>sr_arpcache.h\<close>, \<open>sr_if.h\<close>, \<open>sr_rt.h\<close>): the router's state and the
    environment of a run; \<open>Sr_Example\<close>: a concrete router for the witnesses.
  \<^item> \<open>Sr_If\<close> (\<open>sr_if.c\<close>) and \<open>Sr_Rt\<close> (\<open>sr_rt.c\<close>, \<open>longest_prefix_sum\<close> of \<open>sr_ip.c\<close>,
    \<open>sr_verify_routing_table\<close> of \<open>sr_main.c\<close>): the two configuration tables.
  \<^item> \<open>Sr_Arpcache\<close> (\<open>sr_arpcache.c\<close>): entries and request queue, with the contracts \<open>neighbour_cache\<close> and
    \<open>pending_queue\<close> the forwarding code relies on, interpreted on the code's operations.
  \<^item> \<open>Sr_Vns_Comm\<close> (\<open>sr_vns_comm.c\<close>, \<open>sr_dumper.c\<close>): sending and logging; the contract \<open>handler\<close> (invariant
    kept, configuration unchanged, only well-addressed messages added to the wire) that every packet
    handler of the later theories is an interpretation of.
  \<^item> \<open>Sr_Icmp\<close> (\<open>sr_icmp.c\<close>), \<open>Sr_Arp\<close> and \<open>Sr_Arp_Packet\<close> (\<open>sr_arp.c\<close>), \<open>Sr_Ip\<close> (\<open>sr_ip.c\<close>): the handlers;
    for each, what it sends on every branch. \<open>Sr_Unreach_Old\<close> (\<open>dest_unreach_code.c\<close>, not part of the
    build): an earlier version of three of them, compared with the present one.
  \<^item> \<open>Sr_Router\<close> (\<open>sr_router.c\<close>, the sweep and the thread of \<open>sr_arpcache.c\<close>): the entry points, the step
    relation of the router and its invariant.
  \<^item> \<open>Sr_Sections\<close> and \<open>Sr_Threads\<close> (the locking of \<open>sr_arpcache.c\<close>): the handlers cut at the acquisitions
    of the cache's mutex, the proof that the pieces compute the handlers, and their interleavings.
  \<^item> \<open>Sr_Safety\<close>: exactly when a frame is handled without a fault.
  \<^item> \<open>Sr_Refinement\<close>: the router as a function on neighbours, pending requests and bytes sent (\<open>net_frame\<close>),
    without buffers, slots, nodes and faults, and the proof that the handler of a frame computes it;
    \<open>Sr_Net_Session\<close>: from the bytes of the server's stream to that function.
  \<^item> \<open>Sr_History\<close>: runs as histories of frames and ticks, and where everything comes from: the cause of each
    message (\<open>caused\<close>), shown on the abstract router, and the ARP reply behind each entry of the cache, with
    its age; \<open>Sr_Program\<close>: the same from the bytes of the server's stream to the messages of \<open>main\<close>;
    \<open>Sr_Framing\<close>: the structs of \<open>vnscommand.h\<close>, and the written stream cut back into its messages.
  \<^item> \<open>Sha1\<close> (\<open>sha1.c\<close>): every function of the file; the digest of a message fed in any parts is the one of
    FIPS 180-1 (written once more in one piece), checked on the standard's test vector.
  \<^item> \<open>Sr_Server_Msg\<close> and \<open>Sr_Server\<close> (\<open>sr_vns_comm.c\<close>, \<open>vnscommand.h\<close>): the messages of the session with the
    server (authentication, hardware information, routing table), then the read loop, the dispatch, the
    opening dialogue and the main loop; what a session of any number of messages, cut anywhere by the
    stream, does to the router.
  \<^item> \<open>Sr_Load_Rt\<close> (\<open>sr_load_rt\<close> of \<open>sr_rt.c\<close>): the parser of the table file, with the library functions it
    uses; printing and reading back a table.
  \<^item> \<open>Sr_Main\<close> (\<open>sr_main.c\<close>): the command line and the whole run of the program. \<open>Sr_Arrays\<close>: the declared
    sizes of the \<open>char\<close> arrays, kept by every operation and so by every run, whatever the server sends.
  \<^item> this theory: properties of whole exchanges of frames.

  The datagram sender does not share code with the router:

  \<^item> \<open>Cc_Float\<close>: binary floating point as rounding of rationals to 64 or 53 bits, with the contract
    \<open>rounding\<close> (monotone, exact on short numbers) that the bounds use, and conversions to integer types.
  \<^item> \<open>Cc_Sender\<close> (\<open>sender.cc\<close>, \<open>controller.hh\<close>): the sender over any implementation of the class
    \<open>Controller\<close>, a record of its operations; the contract \<open>congestion_controller\<close>, under which every run
    is handled, keeps its sequence numbers in order and fills the window; the loop of the first rule is a
    partial function whose termination is a consequence.
  \<^item> \<open>Cc_Aimd\<close> (\<open>controller_AIMD_best.cc\<close>) and \<open>Cc_Throughput\<close> (\<open>controller_throughput.cc\<close>): the two
    controllers, each an interpretation of that contract, with the effect of their acks.

  \<^bold>\<open>State.\<close> \<open>sr_instance\<close> is the struct of that name; linked lists are lists in \<open>next\<close> order, and a request
  node, whose address the code keeps, carries it as \<open>rq_id\<close>. The socket is the list \<open>wire\<close> of the byte
  strings written to it, the log file the bytes written to it. A handler is a function from a state to
  a fault or a new state. Buffers are lists of bytes and every access through a cast pointer is a
  checked load or store of the whole struct at its offset.

  \<^bold>\<open>Faults.\<close> A null dereference, an access outside a buffer, an access to a freed request, an integer
  followed as a pointer to unmapped memory, a loop that never ends (\<open>partial_function\<close>, its value is
  \<open>None\<close>), the use of a missing return value and a failed assert are values of the model. A theorem that a
  handler returns \<open>Inr\<close> says that none happens. What the wild reads of the request queue find is the
  parameter \<open>peek\<close> of the environment.

  \<^bold>\<open>Bounds.\<close> Lengths are 32-bit words. The theorems about frames ask for a length below \<open>2 ^ 31\<close>, where the
  signed comparison of \<open>sr_log_packet\<close> and the sum in \<open>sr_send_packet\<close> do not wrap; the server's messages
  are limited to 10000 bytes by the read loop. Loops are structural recursion over lists, except the
  carry loop of the checksum (terminating, measure \<open>unat\<close>), the main loop over the server's stream
  (terminating, measured by what is left of it), the endless loop of \<open>handle_arpreq\<close> and the sending loop
  of \<open>Cc_Sender\<close> (both \<open>partial_function\<close>). No fuel is used. The controllers' windows have sizes up to
  \<open>2 ^ 32 - 11\<close> acks (AIMD) and 85899345 acks (throughput), as far as the bounds shown for them fit an
  \<open>unsigned int\<close>.

  \<^bold>\<open>Assumptions on the platform.\<close> A little-endian host with 64-bit \<open>ssize_t\<close> (the comparison of \<open>write\<close>'s
  result with an unsigned length); \<open>malloc\<close> succeeds and never returns a live block; functions that are
  called without a declaration in scope return their pointer intact; names in \<open>char\<close> arrays end at the end
  of the array at the latest; the clock is read once in a run of a handler. The theorems about whole frames and ticks
  run the handlers of the two threads one after the other; that the sections between and under the
  cache's lock can be interleaved freely without harm to the invariants is \<open>Sr_Threads\<close>. A section without
  the lock (a call of \<open>handle_arpreq\<close>, the sending of a frame) is one step there.

  The C++ code is taken with the x87 \<open>long double\<close> (64 significant bits) and \<open>double\<close> evaluated as IEEE
  double (53), rounding to nearest; the exponent range is not modelled, as the values stay near the size
  of a window.

  \<^bold>\<open>Not modelled.\<close> Printing (the printers are modelled on their own and shown to stay in bounds, and are
  left out of the handlers), freeing of memory where nothing is accessed later, the range of floating
  point exponents, the framework of the datagram sender (sockets, message format, poller: its reports
  are the events of the model), and the repository's Python scripts, which drive a browser and a network
  emulator and plot the result.
\<close>

section \<open>Properties of the whole router\<close>

text \<open>A valid packet for another host: what the dispatch leaves of the conditions.\<close>

definition to_forward :: "sr_instance \<Rightarrow> bytes \<Rightarrow> bool" where
  "to_forward sr packet \<longleftrightarrow> is_ip_frame packet \<and> ip_sum_ok packet \<and> \<not> for_router sr packet
     \<and> length packet < 2 ^ 31"

lemma handlepacket_to_forward:
  assumes "to_forward sr packet" "unat len = length packet"
  shows "sr_handlepacket E sr packet len interface = packet_to_other_dest E packet sr interface len"
  using assms by (simp add: to_forward_def handlepacket_ip IP_packet_cases)

lemma of_nat_len: "unat len = n \<Longrightarrow> of_nat n = (len :: u32)"
  by auto

text \<open>a valid IP packet for a host whose address is in the ARP cache leaves at once, as the only
  message, by the interface of its route and to that address.\<close>

theorem known_neighbour_forwarded:
  assumes "to_forward sr packet" "unat len = length packet" "1 < ip_ttl (frame_ip packet)"
    and "longest_prefix_sum sr (ip_dst (frame_ip packet)) = Some rt"
    and "sr_get_interface sr (rt_interface rt) = Some i"
    and "sr_arpcache_lookup (cache sr) (ip_dst (frame_ip packet)) = Some e" "full_write E"
  shows "\<exists>sr'. sr_handlepacket E sr packet len interface = Inr sr'
    \<and> wire sr' = wire sr @ [packet_msg (if_name i) len (forward_frame i (ae_mac e) packet)]
    \<and> cache sr' = cache sr"
proof -
  have p: "is_ip_frame packet" "length packet < 2 ^ 31" using assms(1) by (simp_all add: to_forward_def)
  have "length (forward_frame i (ae_mac e) packet) = length packet"
    by (rule length_forward_frame) (use p(1) in \<open>simp add: is_ip_frame_def\<close>)
  then show ?thesis
    using other_dest_forward [OF p(1) assms(3,2,4-6) p(2), of E interface]
      handlepacket_to_forward [OF assms(1,2)] of_nat_len [OF assms(2)]
    by (simp add: wire_emit [OF assms(7)])
qed

theorem known_neighbour_forwarded_witness:
  "\<exists>sr'. sr_handlepacket ex_env ex_router_arp ex_udp 34 (if_name ex_if1) = Inr sr'
    \<and> wire sr' = [packet_msg (if_name ex_if2) 34 (forward_frame ex_if2 (ae_mac ex_entry) ex_udp)]"
proof -
  have "is_ip_frame ex_udp" "ip_sum_ok ex_udp" "\<not> for_router ex_router_arp ex_udp"
    "1 < ip_ttl (frame_ip ex_udp)"
    "longest_prefix_sum ex_router_arp (ip_dst (frame_ip ex_udp)) = Some ex_rt2"
    "sr_get_interface ex_router_arp (rt_interface ex_rt2) = Some ex_if2"
    "sr_arpcache_lookup (cache ex_router_arp) (ip_dst (frame_ip ex_udp)) = Some ex_entry"
    "wire ex_router_arp = []"
    by code_simp+
  moreover have "full_write ex_env" by (simp add: full_write_def ex_env_def)
  moreover have "length ex_udp = 34" by (simp add: ex_udp_def)
  ultimately show ?thesis
    using known_neighbour_forwarded [of ex_router_arp ex_udp 34 ex_rt2 ex_if2 ex_entry ex_env "if_name ex_if1"]
    by (auto simp: to_forward_def)
qed

text \<open>The state a frame for an unknown neighbour leaves: one ARP request sent, the packet waiting.\<close>

lemma unknown_neighbour_step:
  assumes inv: "router_inv sr" and f: "to_forward sr packet" and len: "unat len = length packet"
    and ttl: "1 < ip_ttl (frame_ip packet)"
    and rt: "longest_prefix_sum sr (ip_dst (frame_ip packet)) = Some rt"
    and i: "sr_get_interface sr (rt_interface rt) = Some i"
    and miss: "sr_arpcache_lookup (cache sr) (ip_dst (frame_ip packet)) = None"
    and new: "\<forall>r\<in>set (requests (cache sr)). rq_ip r \<noteq> ip_dst (frame_ip packet)"
    and t: "now E > 1" and full: "full_write E"
  obtains sr' where "sr_handlepacket E sr packet len interface = Inr sr'" "router_inv sr'"
    and "wire sr' = wire sr @ [packet_msg (if_name i) 42 (arp_request_frame i (ip_dst (frame_ip packet)))]"
    and "entries (cache sr') = entries (cache sr)"
    and "waiting (cache sr') (ip_dst (frame_ip packet)) = [queued_packet packet len interface]"
    and "if_list sr' = if_list sr" "routing_table sr' = routing_table sr"
proof -
  have p: "is_ip_frame packet" and l31: "length packet < 2 ^ 31"
    using f by (simp_all add: to_forward_def)
  have ci: "cache_inv (cache sr)" using inv by (simp add: router_inv_def)
  obtain c where h: "packet_to_other_dest E packet sr interface len = Inr
      ((emit E (if_name i) (arp_request_frame i (ip_dst (frame_ip packet))) sr)\<lparr>cache := c\<rparr>)"
    and c: "cache_inv c" "entries c = entries (cache sr)"
      "waiting c (ip_dst (frame_ip packet)) = [queued_packet packet len interface]"
    using other_dest_first_miss [OF ci p ttl len rt i miss new t, of interface] by auto
  let ?sr' = "(emit E (if_name i) (arp_request_frame i (ip_dst (frame_ip packet))) sr)\<lparr>cache := c\<rparr>"
  have run: "sr_handlepacket E sr packet len interface = Inr ?sr'"
    using h handlepacket_to_forward [OF f len] by simp
  have "router_inv ?sr'"
  proof -
    have "step E sr (Frame packet interface) ?sr'"
      by (rule step.frame) (use run l31 of_nat_len [OF len] in simp_all)
    then show ?thesis using inv by (rule step_inv)
  qed
  then show thesis
    by (rule that [OF run]) (use c in \<open>simp_all add: wire_emit [OF full] length_arp_request_frame\<close>)
qed

text \<open>a valid packet for a host whose address is not known, with no request for it pending, is kept,
  and one broadcast ARP request for its destination is sent by the interface of its route.\<close>

theorem unknown_neighbour_asked:
  assumes "router_inv sr" "to_forward sr packet" "unat len = length packet"
    and "1 < ip_ttl (frame_ip packet)"
    and "longest_prefix_sum sr (ip_dst (frame_ip packet)) = Some rt"
    and "sr_get_interface sr (rt_interface rt) = Some i"
    and "sr_arpcache_lookup (cache sr) (ip_dst (frame_ip packet)) = None"
    and "\<forall>r\<in>set (requests (cache sr)). rq_ip r \<noteq> ip_dst (frame_ip packet)"
    and "now E > 1" "full_write E"
  shows "\<exists>sr'. sr_handlepacket E sr packet len interface = Inr sr'
    \<and> wire sr' = wire sr @ [packet_msg (if_name i) 42 (arp_request_frame i (ip_dst (frame_ip packet)))]
    \<and> waiting (cache sr') (ip_dst (frame_ip packet)) = [queued_packet packet len interface]"
  by (rule unknown_neighbour_step [OF assms]) auto

lemma ex_udp_to_forward: "to_forward ex_router ex_udp"
proof -
  have "is_ip_frame ex_udp" "ip_sum_ok ex_udp" "\<not> for_router ex_router ex_udp" by code_simp+
  then show ?thesis by (simp add: to_forward_def ex_udp_def)
qed

lemma ex_udp_facts:
  "1 < ip_ttl (frame_ip ex_udp)" "ip_dst (frame_ip ex_udp) = of_le32 10 0 2 2"
  "longest_prefix_sum ex_router (ip_dst (frame_ip ex_udp)) = Some ex_rt2"
  "sr_get_interface ex_router (rt_interface ex_rt2) = Some ex_if2"
  "sr_arpcache_lookup (cache ex_router) (ip_dst (frame_ip ex_udp)) = None"
  "requests (cache ex_router) = []" "wire ex_router = []" "has_room (cache ex_router)"
  by code_simp+

lemma ex_env_facts: "full_write ex_env" "now ex_env > 1"
  by (simp_all add: full_write_def ex_env_def)

theorem unknown_neighbour_asked_witness:
  "\<exists>sr'. sr_handlepacket ex_env ex_router ex_udp 34 (if_name ex_if1) = Inr sr'
    \<and> wire sr' = [packet_msg (if_name ex_if2) 42 (arp_request_frame ex_if2 (of_le32 10 0 2 2))]"
proof -
  have "unat (34 :: u32) = length ex_udp" by (simp add: ex_udp_def)
  from unknown_neighbour_asked [OF ex_router_inv ex_udp_to_forward this ex_udp_facts(1,3,4,5) _
      ex_env_facts(2,1), of "if_name ex_if1"]
  show ?thesis by (auto simp: ex_udp_facts)
qed

text \<open>C8: address resolution works end to end: after a packet for an unknown neighbour and that
  neighbour's ARP reply have been handled, exactly two messages have been sent, the request and the
  packet itself, forwarded to the address in the reply.\<close>

theorem resolve_and_forward:
  assumes inv: "router_inv sr" and f: "to_forward sr packet" and len: "unat len = length packet"
    and ttl: "1 < ip_ttl (frame_ip packet)"
    and rt: "longest_prefix_sum sr (ip_dst (frame_ip packet)) = Some rt"
    and i: "sr_get_interface sr (rt_interface rt) = Some i"
    and miss: "sr_arpcache_lookup (cache sr) (ip_dst (frame_ip packet)) = None"
    and new: "\<forall>r\<in>set (requests (cache sr)). rq_ip r \<noteq> ip_dst (frame_ip packet)"
    and t: "now E > 1" and room: "has_room (cache sr)" and full: "full_write E" "full_write E'"
    and reply: "is_arp_frame reply" "ar_op (frame_arp reply) = htons arp_op_reply"
      "ar_sip (frame_arp reply) = ip_dst (frame_ip packet)"
      "sr_get_interface sr interface' = Some i'" "ar_tip (frame_arp reply) = if_ip i'"
  shows "\<exists>sr1 sr2. sr_handlepacket E sr packet len interface = Inr sr1
    \<and> sr_handlepacket E' sr1 reply len' interface' = Inr sr2
    \<and> wire sr2 = wire sr @ [packet_msg (if_name i) 42 (arp_request_frame i (ip_dst (frame_ip packet))),
        packet_msg (if_name i) len (forward_frame i (ar_sha (frame_arp reply)) packet)]
    \<and> waiting (cache sr2) (ip_dst (frame_ip packet)) = []"
proof -
  obtain sr1 where 1: "sr_handlepacket E sr packet len interface = Inr sr1" and inv1: "router_inv sr1"
    and w1: "wire sr1 = wire sr @ [packet_msg (if_name i) 42 (arp_request_frame i (ip_dst (frame_ip packet)))]"
    and e1: "entries (cache sr1) = entries (cache sr)"
    and q1: "waiting (cache sr1) (ip_dst (frame_ip packet)) = [queued_packet packet len interface]"
    and c1: "if_list sr1 = if_list sr" "routing_table sr1 = routing_table sr"
    by (rule unknown_neighbour_step [OF inv f len ttl rt i miss new t full(1)])
  have ci: "cache_inv (cache sr1)" "queue_ok sr1" using inv1 by (simp_all add: router_inv_def)
  have buf: "sizeof_eth + sizeof_arp \<le> length reply" using reply(1) by (simp add: is_arp_frame_def)
  have lp: "length (forward_frame i m packet) = length packet" for m
    by (rule length_forward_frame) (use f in \<open>simp add: to_forward_def is_ip_frame_def\<close>)
  have "arp_packet E' reply sr1 interface' len' = Inr
      ((forward_all E' i (ar_sha (frame_arp reply)) (waiting (cache sr1) (ar_sip (frame_arp reply))) sr1)
         \<lparr>cache := fst (sr_arpcache_insert (now E') (cache sr1) (ar_sha (frame_arp reply))
                          (ar_sip (frame_arp reply)))\<rparr>)"
    by (rule arp_packet_reply [OF ci buf _ reply(5,2), where rt = rt])
      (use e1 c1 room miss rt i reply in \<open>simp_all add: sr_arpcache_lookup_def has_room_def
        longest_prefix_sum_cong [OF c1(2)] sr_get_interface_cong [OF c1(1)]\<close>)
  then show ?thesis
    using 1 w1 q1 waiting_insert [OF ci(1)] lp of_nat_len [OF len]
    by (simp add: handlepacket_arp [OF reply(1)] reply(3) wire_forward_all [OF full(2)]
        queued_packet_def)
qed

theorem resolve_and_forward_witness:
  "\<exists>sr1 sr2. sr_handlepacket ex_env ex_router ex_udp 34 (if_name ex_if1) = Inr sr1
    \<and> sr_handlepacket ex_env sr1 ex_arp_reply 42 (if_name ex_if2) = Inr sr2
    \<and> wire sr2 = [packet_msg (if_name ex_if2) 42 (arp_request_frame ex_if2 (of_le32 10 0 2 2)),
        packet_msg (if_name ex_if2) 34 (forward_frame ex_if2 (Mac 2 0 0 0 0 8) ex_udp)]"
proof -
  have len: "unat (34 :: u32) = length ex_udp" by (simp add: ex_udp_def)
  have reply: "is_arp_frame ex_arp_reply" "ar_op (frame_arp ex_arp_reply) = htons arp_op_reply"
    "ar_sip (frame_arp ex_arp_reply) = ip_dst (frame_ip ex_udp)"
    "sr_get_interface ex_router (if_name ex_if2) = Some ex_if2"
    "ar_tip (frame_arp ex_arp_reply) = if_ip ex_if2"
    "ar_sha (frame_arp ex_arp_reply) = Mac 2 0 0 0 0 8"
    by code_simp+
  from resolve_and_forward [OF ex_router_inv ex_udp_to_forward len ex_udp_facts(1,3,4,5) _
      ex_env_facts(2) ex_udp_facts(8) ex_env_facts(1) ex_env_facts(1) reply(1-5),
      of "if_name ex_if1" 42]
  show ?thesis by (auto simp: ex_udp_facts reply)
qed

text \<open>C20: an ARP reply that is learnt releases every packet that waited for its sender: all of them are
  forwarded to the address in the reply, by the interface of their route, newest first, nothing else
  is sent, and no request for the sender is left.\<close>

theorem reply_releases_all:
  assumes "router_inv sr" "is_arp_frame reply" "ar_op (frame_arp reply) = htons arp_op_reply"
    and "sr_get_interface sr interface = Some i0" "ar_tip (frame_arp reply) = if_ip i0"
    and "has_room (cache sr)" "sr_arpcache_lookup (cache sr) (ar_sip (frame_arp reply)) = None"
    and "longest_prefix_sum sr (ar_sip (frame_arp reply)) = Some rt"
    and "sr_get_interface sr (rt_interface rt) = Some i" "full_write E"
  shows "\<exists>sr'. sr_handlepacket E sr reply len interface = Inr sr'
    \<and> wire sr' = wire sr @ map (\<lambda>p. let f = forward_frame i (ar_sha (frame_arp reply)) (pk_buf p)
          in packet_msg (if_name i) (of_nat (length f)) f) (waiting (cache sr) (ar_sip (frame_arp reply)))
    \<and> waiting (cache sr') (ar_sip (frame_arp reply)) = []
    \<and> lookup_mac (cache sr') (ar_sip (frame_arp reply)) = Some (ar_sha (frame_arp reply))"
proof -
  have ci: "cache_inv (cache sr)" "queue_ok sr" using assms(1) by (simp_all add: router_inv_def)
  have buf: "sizeof_eth + sizeof_arp \<le> length reply" using assms(2) by (simp add: is_arp_frame_def)
  show ?thesis
    using arp_packet_reply [OF ci buf assms(4,5,3,6-9), of E len] waiting_insert [OF ci(1)]
      lookup_insert_fresh [OF ci(1) assms(6,7)]
    by (simp add: handlepacket_arp [OF assms(2)] wire_forward_all [OF assms(10)] Let_def lookup_mac_def)
qed

lemma ex_router_req_inv: "router_inv (ex_router_req 90 1 [ex_waiting])"
proof -
  let ?sr = "ex_router_req 90 1 [ex_waiting]"
  have "cache_inv (cache ?sr)" by code_simp
  moreover have "queue_ok ?sr"
  proof -
    have "is_ip_frame (pk_buf ex_waiting)" "ip_dst (frame_ip (pk_buf ex_waiting)) = of_le32 10 0 2 2"
      "1 < ip_ttl (frame_ip (pk_buf ex_waiting))"
      "longest_prefix_sum ?sr (of_le32 10 0 2 2) = Some ex_rt2" by code_simp+
    then have "queued_ok ?sr (of_le32 10 0 2 2) ex_waiting"
      by (simp add: queued_ok_def ex_waiting_def ex_udp_def)
    then show ?thesis
      by (simp add: queue_ok_def waiting_def ex_router_req_def ex_request_def ex_cache_def)
  qed
  ultimately show ?thesis by (simp add: router_inv_def ex_router_req_def ex_router_def)
qed

theorem reply_releases_all_witness:
  "\<exists>sr'. sr_handlepacket ex_env (ex_router_req 90 1 [ex_waiting]) ex_arp_reply 42 (if_name ex_if2) = Inr sr'
    \<and> wire sr' = [packet_msg (if_name ex_if2) 34 (forward_frame ex_if2 (Mac 2 0 0 0 0 8) ex_udp)]"
proof -
  let ?sr = "ex_router_req 90 1 [ex_waiting]"
  have r: "is_arp_frame ex_arp_reply" "ar_op (frame_arp ex_arp_reply) = htons arp_op_reply"
    "sr_get_interface ?sr (if_name ex_if2) = Some ex_if2" "ar_tip (frame_arp ex_arp_reply) = if_ip ex_if2"
    "has_room (cache ?sr)" "sr_arpcache_lookup (cache ?sr) (ar_sip (frame_arp ex_arp_reply)) = None"
    "longest_prefix_sum ?sr (ar_sip (frame_arp ex_arp_reply)) = Some ex_rt2"
    "sr_get_interface ?sr (rt_interface ex_rt2) = Some ex_if2"
    by code_simp+
  have "waiting (cache ?sr) (ar_sip (frame_arp ex_arp_reply)) = [ex_waiting]"
    "ar_sha (frame_arp ex_arp_reply) = Mac 2 0 0 0 0 8" "wire ?sr = []" by code_simp+
  moreover have "length (forward_frame ex_if2 (Mac 2 0 0 0 0 8) ex_udp) = 34"
    using length_forward_frame [of ex_udp] by (simp add: ex_udp_def sizeof_defs)
  ultimately show ?thesis
    using reply_releases_all [OF ex_router_req_inv r ex_env_facts(1), of 42]
    by (auto simp: ex_waiting_def Let_def)
qed

text \<open>C26: an ARP request for the address of the interface it arrives on is answered on that interface by
  one reply: the sender fields are the interface's, the target fields the requester's, the frame goes
  to the requester, and everything else is as in the request.\<close>

theorem arp_request_answered:
  assumes "is_arp_frame buf" "unat len = length buf" "length buf < 2 ^ 31"
    and "sr_get_interface sr interface = Some i"
    and "ar_tip (frame_arp buf) = if_ip i" "ar_op (frame_arp buf) = htons arp_op_request"
    and "full_write E"
  shows "\<exists>sr' f. sr_handlepacket E sr buf len interface = Inr sr'
    \<and> wire sr' = wire sr @ [packet_msg interface len f] \<and> cache sr' = cache sr
    \<and> frame_eth f = (frame_eth buf)\<lparr>ether_dhost := ar_sha (frame_arp buf), ether_shost := if_addr i\<rparr>
    \<and> frame_arp f = (frame_arp buf)\<lparr>ar_op := htons arp_op_reply, ar_sha := if_addr i,
        ar_sip := if_ip i, ar_tha := ar_sha (frame_arp buf), ar_tip := ar_sip (frame_arp buf)\<rparr>
    \<and> drop (sizeof_eth + sizeof_arp) f = drop (sizeof_eth + sizeof_arp) buf"
proof -
  have buf: "sizeof_eth + sizeof_arp \<le> length buf" using assms(1) by (simp add: is_arp_frame_def)
  let ?f = "arp_reply_frame i buf"
  have "take sizeof_eth ?f = enc_eth ((frame_eth buf)\<lparr>ether_dhost := ar_sha (frame_arp buf), ether_shost := if_addr i\<rparr>)"
    "take sizeof_arp (drop sizeof_eth ?f) = enc_arp ((frame_arp buf)\<lparr>ar_op := htons arp_op_reply,
        ar_sip := if_ip i, ar_tip := ar_sip (frame_arp buf), ar_sha := if_addr i,
        ar_tha := ar_sha (frame_arp buf)\<rparr>)"
    "drop (sizeof_eth + sizeof_arp) ?f = drop (sizeof_eth + sizeof_arp) buf"
    by (simp_all add: arp_reply_frame_def eth.length_enc arp.length_enc)
  then show ?thesis
    using arp_packet_request [OF buf assms(2-6), of E] length_arp_reply_frame [OF buf, of i]
      of_nat_len [OF assms(2)]
    by (intro exI [of _ "emit E interface ?f sr"] exI [of _ ?f])
      (simp add: handlepacket_arp [OF assms(1)] wire_emit [OF assms(7)] eth.dec_enc arp.dec_enc)
qed

theorem arp_request_answered_witness:
  "\<exists>sr' f. sr_handlepacket ex_env ex_router ex_arp_request 42 (if_name ex_if1) = Inr sr'
    \<and> wire sr' = [packet_msg (if_name ex_if1) 42 f]"
proof -
  have "is_arp_frame ex_arp_request" "sr_get_interface ex_router (if_name ex_if1) = Some ex_if1"
    "ar_tip (frame_arp ex_arp_request) = if_ip ex_if1"
    "ar_op (frame_arp ex_arp_request) = htons arp_op_request" by code_simp+
  moreover have "unat (42 :: u32) = length ex_arp_request" "length ex_arp_request < 2 ^ 31"
    by (simp_all add: ex_arp_request_def)
  ultimately show ?thesis
    using arp_request_answered [of ex_arp_request 42 ex_router "if_name ex_if1" ex_if1 ex_env]
      ex_env_facts(1) ex_udp_facts(7) by fastforce
qed

text \<open>What the router drops without a trace: frames that are neither IP nor ARP, IP frames shorter than
  an IP header, IP frames whose checksum test fails, and IP packets for the router of a protocol other
  than ICMP, TCP and UDP.\<close>

theorem silently_dropped:
  assumes "sizeof_eth \<le> length packet" "unat len = length packet"
    and "ether_type (frame_eth packet) \<notin> {htons ethertype_ip, htons ethertype_arp}
      \<or> ether_type (frame_eth packet) = htons ethertype_ip \<and> length packet < sizeof_eth + sizeof_ip
      \<or> is_ip_frame packet \<and> \<not> ip_sum_ok packet
      \<or> is_ip_frame packet \<and> for_router sr packet \<and> ip_p (frame_ip packet) \<notin> {1, 6, 17}"
  shows "sr_handlepacket E sr packet len interface = Inr sr"
proof -
  have "ntohs t = v \<longleftrightarrow> t = htons v" for t v by (metis ntohs_htons)
  then have et: "sr_handlepacket E sr packet len interface =
      (if ether_type (frame_eth packet) = htons ethertype_arp then arp_packet E packet sr interface len
       else if ether_type (frame_eth packet) = htons ethertype_ip then IP_packet E packet sr interface len
       else Inr sr)"
    by (simp add: sr_handlepacket_def ethertype_ok [OF assms(1)])
  have ne: "htons ethertype_ip \<noteq> htons ethertype_arp" by (simp add: ethertype_ip_def ethertype_arp_def)
  from assms(3) show ?thesis
  proof (elim disjE conjE)
    assume "length packet < sizeof_eth + sizeof_ip" "ether_type (frame_eth packet) = htons ethertype_ip"
    then show ?thesis using et ne assms(2) IP_packet_short [of len E packet sr interface] by simp
  next
    assume "is_ip_frame packet" "\<not> ip_sum_ok packet"
    then show ?thesis using assms(2) by (simp add: handlepacket_ip IP_packet_cases)
  next
    assume "is_ip_frame packet" "for_router sr packet" "ip_p (frame_ip packet) \<notin> {1, 6, 17}"
    then show ?thesis using assms(2) by (simp add: handlepacket_ip IP_packet_cases)
  qed (use et in simp)
qed

theorem silently_dropped_witness:
  "sr_handlepacket ex_env ex_router (ex_udp[24 := 0]) 34 (if_name ex_if1) = Inr ex_router"
proof -
  have "is_ip_frame (ex_udp[24 := 0])" "\<not> ip_sum_ok (ex_udp[24 := 0])"
    "sizeof_eth \<le> length (ex_udp[24 := 0])" by code_simp+
  moreover have "unat (34 :: u32) = length (ex_udp[24 := 0])" by (simp add: ex_udp_def)
  ultimately show ?thesis using silently_dropped [of "ex_udp[24 := 0]" 34 ex_router] by blast
qed

text \<open>C30: a packet for another host whose TTL is at most 1, or whose destination has no route, is not
  forwarded: for lengths 42 to 70 one error message (time exceeded, host unreachable), as long as the
  packet, goes back on the interface it came from.\<close>

theorem undeliverable_reported:
  assumes "to_forward sr packet" "unat len = length packet"
    and "sr_get_interface sr interface = Some i" "full_write E"
    and "42 \<le> length packet" "length packet \<le> 70"
    and "ip_ttl (frame_ip packet) \<le> 1 \<or> longest_prefix_sum sr (ip_dst (frame_ip packet)) = None"
  shows "\<exists>sr'. sr_handlepacket E sr packet len interface = Inr sr' \<and> cache sr' = cache sr
    \<and> wire sr' = wire sr @ [packet_msg interface len (take (length packet)
        (if ip_ttl (frame_ip packet) \<le> 1 then error_frame E i packet 11 0 (\<lambda>ttl. ttl - 1)
         else error_frame E i packet 3 1 (\<lambda>ttl. ttl)))]"
proof -
  have p: "is_ip_frame packet" using assms(1) by (simp add: to_forward_def)
  have l: "sizeof_eth + ICMP_DATA_SIZE \<le> length packet" "sizeof_eth \<le> unat len" "unat len \<le> 70"
    using assms(2,5,6) by (simp_all add: sizeof_eth_def ICMP_DATA_SIZE_def)
  note err = icmp_error_emit [OF l(1) assms(3) l(2,3), of E]
  have len: "length (take (length packet) (error_frame E i packet t c f)) = length packet" for t c f
    using length_error_frame [OF l(1)] assms(6) by simp
  show ?thesis
  proof (cases "ip_ttl (frame_ip packet) \<le> 1")
    case True
    then show ?thesis
      using err [of 11 0 "\<lambda>ttl. ttl - 1"] assms(2) len of_nat_len [OF assms(2)]
      by (simp add: handlepacket_to_forward [OF assms(1,2)] other_dest_expired [OF p]
          Time_Exceeded_def wire_emit [OF assms(4)])
  next
    case False
    then have "1 < ip_ttl (frame_ip packet)" "longest_prefix_sum sr (ip_dst (frame_ip packet)) = None"
      using assms(7) by auto
    then show ?thesis
      using err [of 3 1 "\<lambda>ttl. ttl"] assms(2) len of_nat_len [OF assms(2)] False
      by (simp add: handlepacket_to_forward [OF assms(1,2)] other_dest_no_route [OF p]
          dest_host_unreach_def wire_emit [OF assms(4)])
  qed
qed

theorem undeliverable_reported_witness:
  "\<exists>sr'. sr_handlepacket ex_env ex_router ex_ttl1 42 (if_name ex_if1) = Inr sr'
    \<and> wire sr' = [packet_msg (if_name ex_if1) 42
        (take 42 (error_frame ex_env ex_if1 ex_ttl1 11 0 (\<lambda>ttl. ttl - 1)))]"
proof -
  have "is_ip_frame ex_ttl1" "ip_sum_ok ex_ttl1" "\<not> for_router ex_router ex_ttl1"
    "sr_get_interface ex_router (if_name ex_if1) = Some ex_if1" "ip_ttl (frame_ip ex_ttl1) \<le> 1"
    by code_simp+
  moreover have "length ex_ttl1 = 42" by (simp add: ex_ttl1_def)
  ultimately show ?thesis
    using undeliverable_reported [of ex_router ex_ttl1 42 "if_name ex_if1" ex_if1 ex_env]
      ex_env_facts(1) ex_udp_facts(7) by (auto simp: to_forward_def)
qed

text \<open>C31: a valid ICMP packet for any address of the router is answered, whatever its ICMP type, by one
  frame on the interface it came from: the addresses are turned round, with the receiving interface's
  own address as the source, the ICMP type is 0, and code and data are those received.\<close>

theorem icmp_to_router_answered:
  assumes "is_ip_frame packet" "ip_sum_ok packet" "for_router sr packet" "ip_p (frame_ip packet) = 1"
    and "unat len = length packet" "length packet < 2 ^ 31"
    and "sizeof_eth + sizeof_ip + sizeof_icmp \<le> length packet"
    and "sr_get_interface sr interface = Some i" "full_write E"
  shows "\<exists>sr' f. sr_handlepacket E sr packet len interface = Inr sr' \<and> cache sr' = cache sr
    \<and> wire sr' = wire sr @ [packet_msg interface len f]
    \<and> ether_dhost (frame_eth f) = ether_shost (frame_eth packet)
    \<and> ip_dst (frame_ip f) = ip_src (frame_ip packet) \<and> ip_src (frame_ip f) = if_ip i
    \<and> ip_ttl (frame_ip f) = ip_ttl (frame_ip packet)
    \<and> rfc1071_valid (take sizeof_ip (drop sizeof_eth f))
    \<and> f ! 34 = 0 \<and> f ! 35 = packet ! 35 \<and> drop 38 f = drop 38 packet"
proof -
  let ?f = "echo_frame i packet"
  let ?ip = "set_ip_cksum ((frame_ip packet)\<lparr>ip_dst := ip_src (frame_ip packet), ip_src := if_ip i\<rparr>)"
  let ?eth = "(frame_eth packet)\<lparr>ether_shost := if_addr i, ether_dhost := ether_shost (frame_eth packet)\<rparr>"
  let ?icmp = "dec_icmp (take sizeof_icmp (drop (sizeof_eth + sizeof_ip) packet))"
  obtain s where f: "?f = enc_eth ?eth @ enc_ip ?ip
      @ enc_icmp (?icmp\<lparr>icmp_type := 0, icmp_sum := s\<rparr>) @ drop (sizeof_eth + sizeof_ip + sizeof_icmp) packet"
    by (auto simp: echo_frame_def Let_def)
  have parts: "take sizeof_eth ?f = enc_eth ?eth" "take sizeof_ip (drop sizeof_eth ?f) = enc_ip ?ip"
    unfolding f by (simp_all add: eth.length_enc ip.length_enc)
  have rest: "drop 34 ?f = enc_icmp (?icmp\<lparr>icmp_type := 0, icmp_sum := s\<rparr>) @ drop 38 packet"
    unfolding f by (simp add: eth.length_enc ip.length_enc sizeof_defs)
  have len: "length ?f = length packet" by (rule length_echo_frame) (rule assms(7))
  have l38: "38 \<le> length packet" using assms(7) by (simp add: sizeof_defs)
  have nth: "?f ! (34 + k) = drop 34 ?f ! k" if "k < 4" for k
    using that l38 len by (intro nth_drop [symmetric]) simp
  have "?f ! 34 = 0" "?f ! 35 = packet ! 35" "drop 38 ?f = drop 38 packet"
  proof -
    show "?f ! 34 = 0" using nth [of 0] by (simp add: rest enc_icmp_def)
    show "?f ! 35 = packet ! 35"
      using nth [of 1] l38 by (simp add: rest enc_icmp_def dec_icmp_def sizeof_defs)
    have "drop 38 ?f = drop 4 (drop 34 ?f)" by simp
    then show "drop 38 ?f = drop 38 packet" by (simp add: rest icmp.length_enc sizeof_icmp_def)
  qed
  then show ?thesis
    using Echo_Reply_emit [OF assms(5,7,8,6), of E] assms(2-4) len of_nat_len [OF assms(5)]
    by (intro exI [of _ "emit E interface ?f sr"] exI [of _ ?f])
      (simp add: handlepacket_ip [OF assms(1)] IP_packet_cases [OF assms(1,5)] wire_emit [OF assms(9)]
        parts eth.dec_enc ip.dec_enc rfc1071_set_ip_cksum)
qed

theorem icmp_to_router_answered_witness:
  "\<exists>sr' f. sr_handlepacket ex_env ex_router ex_echo 42 (if_name ex_if1) = Inr sr'
    \<and> wire sr' = [packet_msg (if_name ex_if1) 42 f]"
proof -
  have "is_ip_frame ex_echo" "ip_sum_ok ex_echo" "for_router ex_router ex_echo"
    "ip_p (frame_ip ex_echo) = 1" "sizeof_eth + sizeof_ip + sizeof_icmp \<le> length ex_echo"
    "sr_get_interface ex_router (if_name ex_if1) = Some ex_if1" by code_simp+
  moreover have "unat (42 :: u32) = length ex_echo" "length ex_echo < 2 ^ 31" by (simp_all add: ex_echo_def)
  ultimately show ?thesis
    using icmp_to_router_answered [of ex_echo ex_router 42 "if_name ex_if1" ex_if1 ex_env]
      ex_env_facts(1) ex_udp_facts(7) by fastforce
qed

end
